(* ===== verification/Prelude.thy ===== *)
theory Prelude
  imports Main "HOL-Library.Sublist" "HOL-Library.Monad_Syntax"
begin

text \<open>
  Shared vocabulary of the development: what the C sources use of the language and of its
  standard library, and the generic lemmas every component needs.

  \<^item> C strings are \<open>string\<close>s without a NUL byte; a \<open>char *\<close> cursor into one is the suffix that
    is still to be read, and \<open>peek\<close> reads the byte under it (the terminating NUL at the end).
  \<^item> \<open>isspace\<close>, \<open>isdigit\<close>, \<open>isalnum\<close>, \<open>tolower\<close>, \<open>toupper\<close> are those of the C locale (the
    program never calls \<open>setlocale\<close>).
  \<^item> \<open>int\<close> values are \<open>int\<close>s; a signed sum that can leave the 32-bit range is undefined behaviour and
    the value \<open>None\<close> of the operation that computes it. The conversion of a wider integer is \<open>to_int32\<close>,
    which wraps around. \<open>strtol\<close> saturates at the 64-bit range and \<open>atoi\<close> converts its result, as the C
    library of the supported platforms does.
  \<^item> C arrays of fixed length are lists; \<open>arr_get\<close> and \<open>arr_set\<close> check the index, so that an
    access outside the array is the value \<open>None\<close> (undefined behaviour), and the copy loops of
    the sources are \<open>blit\<close> and \<open>shift_up\<close>.
\<close>

section \<open>Characters\<close>

abbreviation NUL :: char where
  "NUL \<equiv> CHR 0x00"

abbreviation (input) DQUOTE :: char where
  "DQUOTE \<equiv> CHR 0x22"

abbreviation (input) SQUOTE :: char where
  "SQUOTE \<equiv> CHR 0x27"

abbreviation (input) BACKSLASH :: char where
  "BACKSLASH \<equiv> CHR 0x5C"

abbreviation (input) NEWLINE :: char where
  "NEWLINE \<equiv> CHR 0x0A"

abbreviation (input) RETURN :: char where
  "RETURN \<equiv> CHR 0x0D"

abbreviation (input) TAB :: char where
  "TAB \<equiv> CHR 0x09"

definition isspace :: "char \<Rightarrow> bool" where
  "isspace c \<longleftrightarrow> c \<in> {CHR 0x20, CHR 0x09, CHR 0x0A, CHR 0x0B, CHR 0x0C, CHR 0x0D}"

definition isdigit :: "char \<Rightarrow> bool" where
  "isdigit c \<longleftrightarrow> 48 \<le> (of_char c :: nat) \<and> (of_char c :: nat) \<le> 57"

definition isupper :: "char \<Rightarrow> bool" where
  "isupper c \<longleftrightarrow> 65 \<le> (of_char c :: nat) \<and> (of_char c :: nat) \<le> 90"

definition islower :: "char \<Rightarrow> bool" where
  "islower c \<longleftrightarrow> 97 \<le> (of_char c :: nat) \<and> (of_char c :: nat) \<le> 122"

definition isalnum :: "char \<Rightarrow> bool" where
  "isalnum c \<longleftrightarrow> isdigit c \<or> isupper c \<or> islower c"

definition tolower :: "char \<Rightarrow> char" where
  "tolower c = (if isupper c then char_of ((of_char c :: nat) + 32) else c)"

definition toupper :: "char \<Rightarrow> char" where
  "toupper c = (if islower c then char_of ((of_char c :: nat) - 32) else c)"

section \<open>C strings and cursors\<close>

definition peek :: "string \<Rightarrow> char" where
  "peek s = (case s of [] \<Rightarrow> NUL | c # _ \<Rightarrow> c)"

definition cstring :: "string \<Rightarrow> bool" where
  "cstring s \<longleftrightarrow> NUL \<notin> set s"

text \<open>The C string held by a buffer of bytes: everything before the first NUL.\<close>

definition cstr :: "string \<Rightarrow> string" where
  "cstr s = takeWhile (\<lambda>c. c \<noteq> NUL) s"

text \<open>The trimming loops of the sources: leading white space, then trailing white space.\<close>

definition trim :: "string \<Rightarrow> string" where
  "trim s = rev (dropWhile isspace (rev (dropWhile isspace s)))"

section \<open>Integers\<close>

definition to_int32 :: "int \<Rightarrow> int" where
  "to_int32 x = (x + 2 ^ 31) mod 2 ^ 32 - 2 ^ 31"

abbreviation INT_MIN :: int where
  "INT_MIN \<equiv> - 2147483648"

abbreviation INT_MAX :: int where
  "INT_MAX \<equiv> 2147483647"

definition int32 :: "int \<Rightarrow> bool" where
  "int32 x \<longleftrightarrow> INT_MIN \<le> x \<and> x \<le> INT_MAX"

definition digit_value :: "char \<Rightarrow> int" where
  "digit_value c = int (of_char c) - 48"

fun digits_value :: "int \<Rightarrow> string \<Rightarrow> int" where
  "digits_value acc [] = acc"
| "digits_value acc (c # cs) = digits_value (acc * 10 + digit_value c) cs"

definition clamp_long :: "int \<Rightarrow> int" where
  "clamp_long x = max (- (2 ^ 63)) (min (2 ^ 63 - 1) x)"

text \<open>\<open>strtol (s, \<^verbatim>\<open>&end\<close>, 10)\<close>: the value and the suffix \<open>end\<close> points to.\<close>

definition strtol :: "string \<Rightarrow> int \<times> string" where
  "strtol s =
     (let s1 = dropWhile isspace s;
          neg = (peek s1 = CHR ''-'');
          s2 = (if peek s1 = CHR ''-'' \<or> peek s1 = CHR ''+'' then tl s1 else s1);
          ds = takeWhile isdigit s2;
          v = digits_value 0 ds
      in if ds = [] then (0, s)
         else (clamp_long (if neg then - v else v), dropWhile isdigit s2))"

definition atoi :: "string \<Rightarrow> int" where
  "atoi s = to_int32 (fst (strtol s))"

text \<open>The conversion \<^verbatim>\<open>%d\<close> of \<open>printf\<close>.\<close>

fun show_nat :: "nat \<Rightarrow> string" where
  "show_nat n =
     (if n < 10 then [char_of (48 + n)]
      else show_nat (n div 10) @ [char_of (48 + n mod 10)])"

declare show_nat.simps [simp del]

definition show_int :: "int \<Rightarrow> string" where
  "show_int i = (if i < 0 then CHR ''-'' # show_nat (nat (- i)) else show_nat (nat i))"

section \<open>Arrays\<close>

definition arr_get :: "'a list \<Rightarrow> nat \<Rightarrow> 'a option" where
  "arr_get xs i = (if i < length xs then Some (xs ! i) else None)"

definition arr_set :: "'a list \<Rightarrow> nat \<Rightarrow> 'a \<Rightarrow> 'a list option" where
  "arr_set xs i x = (if i < length xs then Some (xs[i := x]) else None)"

text \<open>\<^verbatim>\<open>for (i = 0; i < n; i++) dst[d + i] = src[s + i];\<close>\<close>

fun blit :: "'a list \<Rightarrow> nat \<Rightarrow> 'a list \<Rightarrow> nat \<Rightarrow> nat \<Rightarrow> 'a list option" where
  "blit dst d src s 0 = Some dst"
| "blit dst d src s (Suc n) =
     do { x \<leftarrow> arr_get src s; dst' \<leftarrow> arr_set dst d x; blit dst' (Suc d) src (Suc s) n }"

text \<open>\<^verbatim>\<open>for (i = n; i > slot; i--) xs[i] = xs[i - 1];\<close>\<close>

fun shift_up :: "'a list \<Rightarrow> nat \<Rightarrow> nat \<Rightarrow> 'a list option" where
  "shift_up xs 0 slot = Some xs"
| "shift_up xs (Suc n) slot =
     (if Suc n > slot
      then do { x \<leftarrow> arr_get xs n; xs' \<leftarrow> arr_set xs (Suc n) x; shift_up xs' n slot }
      else Some xs)"

section \<open>Lemmas on characters and cursors\<close>

lemmas char_class = isspace_def isalnum_def isdigit_def isupper_def islower_def

lemma peek_simps [simp]: "peek [] = NUL" "peek (c # cs) = c"
  by (simp_all add: peek_def)

lemma isspace_NUL [simp]: "\<not> isspace NUL"
  by (simp add: isspace_def)

lemma isdigit_NUL [simp]: "\<not> isdigit NUL"
  by (simp add: isdigit_def)

lemma isalnum_NUL [simp]: "\<not> isalnum NUL"
  by (simp add: isalnum_def isdigit_def isupper_def islower_def)

lemma islower_tolower: "isupper c \<Longrightarrow> islower (tolower c)"
  by (simp add: islower_def tolower_def isupper_def)

lemma letter_not_space: "islower c \<or> isupper c \<Longrightarrow> \<not> isspace c \<and> c \<noteq> NUL"
  by (auto simp: islower_def isupper_def isspace_def)

lemma tolower_NUL [simp]: "tolower c = NUL \<longleftrightarrow> c = NUL" "tolower NUL = NUL"
  using islower_tolower[of c] letter_not_space[of c] letter_not_space[of "tolower c"]
  by (cases "isupper c"; auto simp: tolower_def isupper_def)+

lemma NUL_tolower [simp]: "NUL = tolower c \<longleftrightarrow> c = NUL"
  using tolower_NUL(1)[of c] by metis

lemma isspace_tolower [simp]: "isspace (tolower c) = isspace c"
  using islower_tolower[of c] letter_not_space[of c] letter_not_space[of "tolower c"]
  by (cases "isupper c") (auto simp: tolower_def)

lemma cstring_simps [simp]:
  "cstring []" "cstring (c # s) \<longleftrightarrow> c \<noteq> NUL \<and> cstring s" "cstring (s @ t) \<longleftrightarrow> cstring s \<and> cstring t"
  by (auto simp: cstring_def)

lemma cstring_cstr [simp]: "cstring (cstr s)"
  by (auto simp: cstring_def cstr_def dest: set_takeWhileD)

lemma cstr_id [simp]: "cstring s \<Longrightarrow> cstr s = s"
  by (induction s) (auto simp: cstr_def)

lemma cstring_suffix: "cstring s \<Longrightarrow> suffix t s \<Longrightarrow> cstring t"
  by (auto simp: cstring_def suffix_def)

lemma cstring_peek: "cstring s \<Longrightarrow> peek s = NUL \<longleftrightarrow> s = []"
  by (cases s) auto

lemma isspace_isdigit: "isdigit c \<Longrightarrow> \<not> isspace c"
  by (auto simp: isdigit_def isspace_def)

lemma in_set_tlD: "x \<in> set (tl xs) \<Longrightarrow> x \<in> set xs"
  by (cases xs) auto

lemma peek_dropWhile: "\<not> P NUL \<Longrightarrow> \<not> P (peek (dropWhile P s))"
  by (induction s) auto

lemma peek_tl: "peek s = c \<Longrightarrow> c \<noteq> NUL \<Longrightarrow> s = c # tl s"
  by (cases s) auto

lemma dropWhile_app_stop: "list_all P s \<Longrightarrow> \<not> P (peek r) \<Longrightarrow> takeWhile P (s @ r) = s \<and> dropWhile P (s @ r) = r"
  by (induction s; cases r) auto

lemma dropWhile_suffix [intro, simp]: "suffix (dropWhile P s) s"
  by (rule suffix_dropWhile)

lemma trim_infix: "\<exists>u v. s = u @ trim s @ v \<and> list_all isspace u \<and> list_all isspace v"
proof -
  define m where "m = dropWhile isspace s"
  have s: "s = takeWhile isspace s @ m" by (simp add: m_def)
  have "rev m = takeWhile isspace (rev m) @ dropWhile isspace (rev m)" by simp
  then have m: "m = trim s @ rev (takeWhile isspace (rev m))"
    unfolding trim_def m_def[symmetric] by (metis rev_append rev_rev_ident)
  have "list_all isspace (takeWhile isspace s)" "list_all isspace (rev (takeWhile isspace (rev m)))"
    by (auto simp: list_all_iff dest: set_takeWhileD)
  moreover have "s = takeWhile isspace s @ trim s @ rev (takeWhile isspace (rev m))"
    using m s by simp
  ultimately show ?thesis by blast
qed

lemma trim_id:
  assumes "s = [] \<or> (\<not> isspace (hd s) \<and> \<not> isspace (last s))"
  shows "trim s = s"
proof (cases s)
  case (Cons c cs)
  then have "dropWhile isspace s = s" "dropWhile isspace (rev s) = rev s"
    using assms by (simp_all add: dropWhile_eq_self_iff hd_rev del: rev.simps)
  then show ?thesis by (simp add: trim_def)
qed (simp add: trim_def)

lemma trim_ends: "trim s = [] \<or> (\<not> isspace (hd (trim s)) \<and> \<not> isspace (last (trim s)))"
proof (cases "trim s = []")
  case False
  define m where "m = dropWhile isspace s"
  from False have ne: "dropWhile isspace (rev m) \<noteq> []" by (simp add: trim_def m_def)
  then have "\<not> isspace (hd (dropWhile isspace (rev m)))" by (simp add: hd_dropWhile)
  then have l: "\<not> isspace (last (trim s))" by (simp add: trim_def m_def last_rev)
  from ne have mne: "m \<noteq> []" by auto
  then have h: "\<not> isspace (hd m)" by (simp add: m_def hd_dropWhile)
  have "\<exists>v. m = trim s @ v"
    unfolding trim_def m_def[symmetric] by (metis rev_append rev_rev_ident takeWhile_dropWhile_id)
  then have "hd m = hd (trim s)" using False by auto
  with h l show ?thesis by simp
qed simp

lemma trim_idem [simp]: "trim (trim s) = trim s"
  by (rule trim_id) (rule trim_ends)

section \<open>Lemmas on integers\<close>

lemma to_int32_range [simp]: "int32 (to_int32 x)"
proof -
  have "0 \<le> (x + 2 ^ 31) mod 2 ^ 32" "(x + 2 ^ 31) mod 2 ^ 32 < 2 ^ 32" by simp_all
  then show ?thesis unfolding int32_def to_int32_def by simp
qed

lemma to_int32_id [simp]: "int32 x \<Longrightarrow> to_int32 x = x"
  unfolding int32_def to_int32_def by simp

lemma int32_atoi [simp]: "int32 (atoi s)"
  by (simp add: atoi_def)

lemma digits_value_app: "digits_value a (s @ t) = digits_value (digits_value a s) t"
  by (induction s arbitrary: a) auto

lemma isdigit_digit: "d < 10 \<Longrightarrow> isdigit (char_of (48 + d :: nat))"
  by (simp add: isdigit_def)

lemma digit_value_digit: "d < 10 \<Longrightarrow> digit_value (char_of (48 + d :: nat)) = int d"
  by (simp add: digit_value_def)

lemma show_nat_digits: "list_all isdigit (show_nat n)"
proof (induction n rule: show_nat.induct)
  case (1 n)
  then show ?case by (subst show_nat.simps) (auto intro: isdigit_digit)
qed

lemma show_nat_nonempty [simp]: "show_nat n \<noteq> []"
  by (subst show_nat.simps) simp

lemma digits_value_show_nat: "digits_value 0 (show_nat n) = int n"
proof (induction n rule: show_nat.induct)
  case (1 n)
  show ?case
  proof (cases "n < 10")
    case True
    then show ?thesis by (subst show_nat.simps) (simp add: digit_value_digit)
  next
    case False
    with 1 have "digits_value 0 (show_nat (n div 10)) = int (n div 10)" by simp
    then have "digits_value 0 (show_nat n) = int (n div 10) * 10 + int (n mod 10)"
      using False by (subst show_nat.simps) (simp add: digits_value_app digit_value_digit)
    also have "\<dots> = int n" by presburger
    finally show ?thesis .
  qed
qed

lemma takeWhile_all: "list_all P s \<Longrightarrow> takeWhile P s = s \<and> dropWhile P s = []"
  by (induction s) auto

lemma dropWhile_hd: "s \<noteq> [] \<Longrightarrow> \<not> P (hd s) \<Longrightarrow> dropWhile P s = s"
  by (cases s) auto

lemma peek_hd: "s \<noteq> [] \<Longrightarrow> peek s = hd s"
  by (cases s) auto

lemma isdigit_not_sign: "isdigit c \<Longrightarrow> c \<noteq> CHR ''-'' \<and> c \<noteq> CHR ''+''"
  by (auto simp: isdigit_def)

text \<open>Printing a 32-bit integer with \<^verbatim>\<open>%d\<close> and reading it back with \<open>atoi\<close> gives it back.\<close>

lemma strtol_digits:
  assumes "list_all isdigit ds" "ds \<noteq> []"
  shows "strtol ds = (clamp_long (digits_value 0 ds), [])"
    and "strtol (CHR ''-'' # ds) = (clamp_long (- digits_value 0 ds), [])"
proof -
  have tw: "takeWhile isdigit ds = ds" "dropWhile isdigit ds = []"
    using takeWhile_all[OF assms(1)] by auto
  have hd: "isdigit (hd ds)" using assms by (cases ds) auto
  have dw: "dropWhile isspace ds = ds"
    using assms(2) isspace_isdigit[OF hd] by (rule dropWhile_hd)
  have "peek ds \<noteq> CHR ''-''" "peek ds \<noteq> CHR ''+''"
    using isdigit_not_sign[OF hd] assms(2) by (simp_all add: peek_hd)
  then show "strtol ds = (clamp_long (digits_value 0 ds), [])"
    unfolding strtol_def Let_def dw by (simp only: if_False simp_thms tw assms(2))
  have "dropWhile isspace (CHR ''-'' # ds) = CHR ''-'' # ds" by (simp add: isspace_def)
  then show "strtol (CHR ''-'' # ds) = (clamp_long (- digits_value 0 ds), [])"
    unfolding strtol_def Let_def by (simp only: if_True if_False simp_thms tw assms(2) peek_simps list.sel)
qed

lemma strtol_show_int: "int32 i \<Longrightarrow> strtol (show_int i) = (i, [])"
proof -
  assume "int32 i"
  then have "clamp_long i = i" by (simp add: int32_def clamp_long_def)
  then show ?thesis
    by (simp add: show_int_def strtol_digits show_nat_digits digits_value_show_nat)
qed

lemma atoi_show_int [simp]: "int32 i \<Longrightarrow> atoi (show_int i) = i"
  by (simp add: atoi_def strtol_show_int)

section \<open>Lemmas on arrays\<close>

lemma arr_get_Some [simp]: "i < length xs \<Longrightarrow> arr_get xs i = Some (xs ! i)"
  by (simp add: arr_get_def)

lemma arr_set_Some [simp]: "i < length xs \<Longrightarrow> arr_set xs i x = Some (xs[i := x])"
  by (simp add: arr_set_def)

lemma arr_set_eq: "arr_set xs i x = Some ys \<Longrightarrow> xs[i := x] = ys"
  by (simp add: arr_set_def split: if_splits)

lemma blit_eq:
  "d + n \<le> length dst \<Longrightarrow> s + n \<le> length src \<Longrightarrow>
   blit dst d src s n = Some (take d dst @ take n (drop s src) @ drop (d + n) dst)"
proof (induction n arbitrary: dst d s)
  case 0
  then show ?case by simp
next
  case (Suc n)
  let ?d = "dst[d := src ! s]"
  from Suc.prems have "blit dst d src s (Suc n) = blit ?d (Suc d) src (Suc s) n" by simp
  also have "\<dots> = Some (take (Suc d) ?d @ take n (drop (Suc s) src) @ drop (Suc d + n) ?d)"
    using Suc.prems by (intro Suc.IH) auto
  also have "take (Suc d) ?d = take d dst @ [src ! s]"
    using Suc.prems by (simp add: take_Suc_conv_app_nth)
  also have "drop (Suc d + n) ?d = drop (d + Suc n) dst" by simp
  also have "(take d dst @ [src ! s]) @ take n (drop (Suc s) src) @ drop (d + Suc n) dst
      = take d dst @ take (Suc n) (drop s src) @ drop (d + Suc n) dst"
    using Suc.prems by (simp add: Cons_nth_drop_Suc[symmetric])
  finally show ?case .
qed

lemma shift_up_eq:
  "slot \<le> n \<Longrightarrow> n < length xs \<Longrightarrow>
   shift_up xs n slot = Some (take (Suc slot) xs @ take (n - slot) (drop slot xs) @ drop (Suc n) xs)"
proof (induction n arbitrary: xs)
  case 0
  then have "slot = 0" by simp
  then show ?case by simp
next
  case (Suc n)
  show ?case
  proof (cases "slot = Suc n")
    case True
    then show ?thesis using Suc.prems by simp
  next
    case False
    let ?x = "xs[Suc n := xs ! n]"
    have le: "slot \<le> n" using False Suc.prems by simp
    have "shift_up xs (Suc n) slot = shift_up ?x n slot" using le Suc.prems by simp
    also have "\<dots> = Some (take (Suc slot) ?x @ take (n - slot) (drop slot ?x) @ drop (Suc n) ?x)"
      using le Suc.prems by (intro Suc.IH) auto
    also have "take (Suc slot) ?x = take (Suc slot) xs" using le by simp
    also have "take (n - slot) (drop slot ?x) = take (n - slot) (drop slot xs)"
      using le by (simp add: drop_update_swap)
    also have "drop (Suc n) ?x = xs ! n # drop (Suc (Suc n)) xs"
      using Suc.prems by (simp add: Cons_nth_drop_Suc[symmetric] drop_update_swap)
    also have "take (n - slot) (drop slot xs) @ xs ! n # drop (Suc (Suc n)) xs
        = take (Suc n - slot) (drop slot xs) @ drop (Suc (Suc n)) xs"
      using le Suc.prems by (simp add: Suc_diff_le take_Suc_conv_app_nth)
    finally show ?thesis .
  qed
qed

declare blit.simps [simp del] shift_up.simps [simp del]

end
