(* ===== verification/Common.thy ===== *)
theory Common
  imports Prelude
begin

text \<open>
  \<^verbatim>\<open>src/common.c\<close> and \<^verbatim>\<open>include/common.h\<close>: the error object, the copy of a string, the JSON
  string literal and the reading of a whole text file.

  A function that returns 0 or NULL after \<open>sql_set_error\<close> returns \<open>Inl\<close> of the error object here;
  the object holds what the last call of \<open>sql_set_error\<close> wrote. The file system is a record: the
  contents of the files, and for every path what the stdio calls of the sources may run into.
  Copies of strings (\<open>sql_strdup\<close>) and the arrays of rows and fields are taken to be allocated; the
  allocations whose failure is modelled (B+ tree nodes, tables, queues, threads, JSON buffers, \<dots>) are
  parameters of the definitions that make them.
\<close>

section \<open>The error object\<close>

record SqlError =
  error_line :: int
  error_column :: int
  message :: string

abbreviation (input) SQL_ERROR_MESSAGE_SIZE :: nat where
  "SQL_ERROR_MESSAGE_SIZE \<equiv> 256"

definition sql_set_error :: "int \<Rightarrow> int \<Rightarrow> string \<Rightarrow> SqlError" where
  "sql_set_error l c text = \<lparr>error_line = l, error_column = c, message = take (SQL_ERROR_MESSAGE_SIZE - 1) text\<rparr>"

type_synonym 'a result = "SqlError + 'a"

abbreviation fail :: "string \<Rightarrow> 'a result" where
  "fail text \<equiv> Inl (sql_set_error 0 0 text)"

section \<open>Strings\<close>

definition sql_strdup :: "string option \<Rightarrow> string option" where
  "sql_strdup src = (case src of None \<Rightarrow> None | Some s \<Rightarrow> Some s)"

abbreviation (input) SIZE_MAX :: nat where
  "SIZE_MAX \<equiv> 2 ^ 64 - 1"

definition hex_digit :: "nat \<Rightarrow> char" where
  "hex_digit n = (if n < 10 then char_of (48 + n) else char_of (87 + n))"

text \<open>One iteration of the loop of \<open>sql_json_quote\<close>: the bytes it appends for one input byte.\<close>

definition json_escape :: "char \<Rightarrow> string" where
  "json_escape ch =
     (if ch = DQUOTE then [BACKSLASH, DQUOTE]
      else if ch = BACKSLASH then [BACKSLASH, BACKSLASH]
      else if ch = CHR 0x08 then [BACKSLASH, CHR ''b'']
      else if ch = CHR 0x0C then [BACKSLASH, CHR ''f'']
      else if ch = NEWLINE then [BACKSLASH, CHR ''n'']
      else if ch = RETURN then [BACKSLASH, CHR ''r'']
      else if ch = TAB then [BACKSLASH, CHR ''t'']
      else if (of_char ch :: nat) < 32
      then [BACKSLASH, CHR ''u'', CHR ''0'', CHR ''0'',
            hex_digit (of_char ch div 16), hex_digit (of_char ch mod 16)]
      else [ch])"

fun json_escape_all :: "string \<Rightarrow> string" where
  "json_escape_all [] = []"
| "json_escape_all (c # cs) = json_escape c @ json_escape_all cs"

text \<open>The size of the buffer \<open>sql_json_quote\<close> allocates for a text of the given length.\<close>

definition json_quote_capacity :: "nat \<Rightarrow> nat" where
  "json_quote_capacity input_length = input_length * 6 + 3"

text \<open>
  The heap is a parameter: for a number of bytes, the block \<open>malloc\<close> returns (with whatever it holds), or
  \<open>None\<close> when it returns NULL.
\<close>

type_synonym heap = "nat \<Rightarrow> string option"

definition sql_json_quote :: "heap \<Rightarrow> string option \<Rightarrow> string result" where
  "sql_json_quote heap src =
     (let text = (case src of None \<Rightarrow> [] | Some s \<Rightarrow> s) in
      if length text > (SIZE_MAX - 3) div 6 then fail ''JSON string is too large to quote''
      else (case heap (json_quote_capacity (length text)) of
              None \<Rightarrow> fail ''failed to allocate JSON string''
            | Some _ \<Rightarrow> Inr (DQUOTE # json_escape_all text @ [DQUOTE])))"

section \<open>Files\<close>

datatype read_fault = Seek_End_Fails | Tell_Fails | Seek_Set_Fails | Short_Read

text \<open>
  \<open>files\<close> holds the bytes of the files that exist. The other fields are the outside world:
  which stdio call fails when a path is read (\<open>read_fault_at\<close>), whether a path can be opened for
  appending (\<open>can_append\<close>), how many more bytes \<open>fputc\<close> accepts for it before it returns EOF
  (\<open>accepts\<close>, \<open>None\<close> for no limit), whether closing it reports a flush error (\<open>close_fails\<close>) and how
  many of the pending bytes reach the file in that case (\<open>flushed\<close>).
\<close>

record filesystem =
  files :: "string \<Rightarrow> string option"
  read_fault_at :: "string \<Rightarrow> read_fault option"
  can_append :: "string \<Rightarrow> bool"
  accepts :: "string \<Rightarrow> nat option"
  close_fails :: "string \<Rightarrow> bool"
  flushed :: "string \<Rightarrow> nat"

definition sql_read_text_file :: "filesystem \<Rightarrow> string option \<Rightarrow> string result" where
  "sql_read_text_file fs path =
     (case path of
        None \<Rightarrow> fail ''path must not be null''
      | Some p \<Rightarrow>
          (case files fs p of
             None \<Rightarrow> fail (''failed to open file: '' @ p)
           | Some bytes \<Rightarrow>
               (case read_fault_at fs p of
                  Some Seek_End_Fails \<Rightarrow> fail (''failed to seek file: '' @ p)
                | Some Tell_Fails \<Rightarrow> fail (''failed to tell file length: '' @ p)
                | Some Seek_Set_Fails \<Rightarrow> fail (''failed to rewind file: '' @ p)
                | Some Short_Read \<Rightarrow> fail (''failed to read file: '' @ p)
                | None \<Rightarrow> Inr (cstr bytes))))"

section \<open>Reading a JSON string literal back\<close>

text \<open>
  The decoder of a JSON string literal (RFC 8259, restricted to \<^verbatim>\<open>\u00XY\<close> escapes): \<open>None\<close> for
  text that is not exactly one literal, in particular for a control character or a quotation
  mark that is not escaped.
\<close>

definition hex_value :: "char \<Rightarrow> nat option" where
  "hex_value c =
     (if isdigit c then Some (of_char c - 48)
      else if 97 \<le> (of_char c :: nat) \<and> (of_char c :: nat) \<le> 102 then Some (of_char c - 87)
      else None)"

definition json_simple_escape :: "char \<Rightarrow> char option" where
  "json_simple_escape c =
     (if c = DQUOTE then Some DQUOTE else if c = BACKSLASH then Some BACKSLASH
      else if c = CHR ''b'' then Some (CHR 0x08) else if c = CHR ''f'' then Some (CHR 0x0C)
      else if c = CHR ''n'' then Some NEWLINE else if c = CHR ''r'' then Some RETURN
      else if c = CHR ''t'' then Some TAB else None)"

fun json_body :: "string \<Rightarrow> string option" where
  "json_body [] = None"
| "json_body (c # r) =
     (if c = DQUOTE then (if r = [] then Some [] else None)
      else if (of_char c :: nat) < 32 then None
      else if c \<noteq> BACKSLASH then do { t \<leftarrow> json_body r; Some (c # t) }
      else (case r of
              [] \<Rightarrow> None
            | e # r1 \<Rightarrow>
                if e \<noteq> CHR ''u''
                then do { d \<leftarrow> json_simple_escape e; t \<leftarrow> json_body r1; Some (d # t) }
                else (case r1 of
                        a # b # h # l # r2 \<Rightarrow>
                          if a = CHR ''0'' \<and> b = CHR ''0''
                          then do { x \<leftarrow> hex_value h; y \<leftarrow> hex_value l; t \<leftarrow> json_body r2;
                                    Some (char_of (16 * x + y) # t) }
                          else None
                      | _ \<Rightarrow> None)))"

definition json_unquote :: "string \<Rightarrow> string option" where
  "json_unquote s = (if peek s = DQUOTE then json_body (tl s) else None)"

section \<open>Lemmas\<close>

lemma message_bound [simp]: "length (message (sql_set_error l c text)) < SQL_ERROR_MESSAGE_SIZE"
  by (simp add: sql_set_error_def)

lemma sql_strdup_id [simp]: "sql_strdup s = s"
  by (simp add: sql_strdup_def split: option.splits)

lemma json_escape_all_app: "json_escape_all (s @ t) = json_escape_all s @ json_escape_all t"
  by (induction s) auto

lemma json_escape_length: "0 < length (json_escape c)" "length (json_escape c) \<le> 6"
  by (simp_all add: json_escape_def)

lemma json_escape_all_length: "length (json_escape_all s) \<le> 6 * length s"
proof (induction s)
  case (Cons c s)
  then show ?case using json_escape_length(2)[of c] by simp
qed simp

text \<open>One round of the decoder undoes one round of the encoder, whatever follows.\<close>

lemma hex_value_digit: "n < 16 \<Longrightarrow> hex_value (hex_digit n) = Some n"
  by (simp add: hex_value_def hex_digit_def isdigit_def)

lemma json_body_escape: "json_body (json_escape c @ r) = do { t \<leftarrow> json_body r; Some (c # t) }"
proof -
  have "json_body (json_escape c @ r) = do { t \<leftarrow> json_body r; Some (c # t) }"
    if "(of_char c :: nat) < 32"
      and "c \<notin> {DQUOTE, BACKSLASH, CHR 0x08, CHR 0x0C, NEWLINE, RETURN, TAB}"
  proof -
    have "json_escape c = [BACKSLASH, CHR ''u'', CHR ''0'', CHR ''0'',
        hex_digit (of_char c div 16), hex_digit (of_char c mod 16)]"
      using that by (simp add: json_escape_def)
    moreover have "16 * ((of_char c :: nat) div 16) + of_char c mod 16 = of_char c"
      by (rule mult_div_mod_eq)
    ultimately show ?thesis using that by (simp add: hex_value_digit)
  qed
  then show ?thesis
    by (cases "c \<in> {DQUOTE, BACKSLASH, CHR 0x08, CHR 0x0C, NEWLINE, RETURN, TAB}")
      (auto simp: json_escape_def json_simple_escape_def)
qed

lemma json_body_escape_all: "json_body (json_escape_all s @ [DQUOTE]) = Some s"
  by (induction s) (simp_all add: json_body_escape)

lemma json_unquote_quote: "sql_json_quote heap src = Inr q \<Longrightarrow> json_unquote q = Some (case src of None \<Rightarrow> [] | Some s \<Rightarrow> s)"
  by (auto simp: sql_json_quote_def json_unquote_def json_body_escape_all Let_def split: if_splits option.splits)

lemma sql_json_quote_fits:
  assumes "sql_json_quote heap src = Inr q"
  shows "length q + 1 \<le> json_quote_capacity (case src of None \<Rightarrow> 0 | Some s \<Rightarrow> length s)"
    and "json_quote_capacity (case src of None \<Rightarrow> 0 | Some s \<Rightarrow> length s) \<le> SIZE_MAX"
proof -
  let ?t = "case src of None \<Rightarrow> [] | Some s \<Rightarrow> s"
  have len: "(case src of None \<Rightarrow> 0 | Some s \<Rightarrow> length s) = length ?t" by (cases src) auto
  from assms have q: "q = DQUOTE # json_escape_all ?t @ [DQUOTE]"
    and small: "\<not> length ?t > (SIZE_MAX - 3) div 6"
    by (auto simp: sql_json_quote_def Let_def split: if_splits option.splits)
  show "length q + 1 \<le> json_quote_capacity (case src of None \<Rightarrow> 0 | Some s \<Rightarrow> length s)"
    using json_escape_all_length[of ?t] by (simp add: len q json_quote_capacity_def)
  show "json_quote_capacity (case src of None \<Rightarrow> 0 | Some s \<Rightarrow> length s) \<le> SIZE_MAX"
    using small unfolding len json_quote_capacity_def by simp
qed

section \<open>Properties\<close>

text \<open>
  C17. \<open>sql_json_quote\<close> returns a JSON string literal that decodes to exactly the input, control
  characters, quotes and backslashes included; the literal and its terminator fit the buffer that is
  allocated for it, whose size does not wrap around. It fails for two reasons only, told apart by the
  message: the text is longer than a buffer size can express, or the heap has no block of that size.
\<close>

theorem json_quote_round_trip:
  "case sql_json_quote heap src of
     Inr q \<Rightarrow> json_unquote q = Some (case src of None \<Rightarrow> [] | Some s \<Rightarrow> s) \<and>
       length q + 1 \<le> json_quote_capacity (length (case src of None \<Rightarrow> [] | Some s \<Rightarrow> s)) \<and>
       json_quote_capacity (length (case src of None \<Rightarrow> [] | Some s \<Rightarrow> s)) \<le> SIZE_MAX
   | Inl e \<Rightarrow>
       message e = ''JSON string is too large to quote'' \<and>
         SIZE_MAX < json_quote_capacity (length (case src of None \<Rightarrow> [] | Some s \<Rightarrow> s)) \<or>
       message e = ''failed to allocate JSON string'' \<and>
         json_quote_capacity (length (case src of None \<Rightarrow> [] | Some s \<Rightarrow> s)) \<le> SIZE_MAX \<and>
         heap (json_quote_capacity (length (case src of None \<Rightarrow> [] | Some s \<Rightarrow> s))) = None"
proof (cases "sql_json_quote heap src")
  case (Inl e)
  then show ?thesis
    by (auto simp: sql_json_quote_def json_quote_capacity_def sql_set_error_def Let_def split: if_splits option.splits)
next
  case (Inr q)
  have "length (case src of None \<Rightarrow> [] | Some s \<Rightarrow> s) = (case src of None \<Rightarrow> 0 | Some s \<Rightarrow> length s)" by (cases src) auto
  then show ?thesis using Inr json_unquote_quote[OF Inr] sql_json_quote_fits[OF Inr] by simp
qed

end
