(* ===== verification/Schema.thy ===== *)
theory Schema
  imports Common
begin

text \<open>
  \<^verbatim>\<open>src/storage/schema.c\<close> and \<^verbatim>\<open>include/schema.h\<close>: the schema file of a table.

  The C code cuts the text in place (\<open>strtok\<close>, \<open>*separator = '\0'\<close>); here the pieces are strings.
  \<open>column_count\<close> is the length of \<open>columns\<close>. What a failed load leaves in the caller's object is
  what \<open>free_schema\<close> makes of it, and no caller reads it. A line without \<^verbatim>\<open>=\<close> makes the loader format
  its error message from the text it has just freed: the value \<open>None\<close> (undefined behaviour). The copies
  of the names are taken to be allocated.
\<close>

section \<open>Data\<close>

datatype ColumnType = COLUMN_TYPE_INT | COLUMN_TYPE_FLOAT | COLUMN_TYPE_STRING

record ColumnDef =
  column_name :: string
  column_type :: ColumnType

record Schema =
  schema_table_name :: "string option"
  columns :: "ColumnDef list"
  primary_key :: "string option"
  primary_key_index :: int
  autoincrement :: bool

abbreviation column_count :: "Schema \<Rightarrow> int" where
  "column_count schema \<equiv> int (length (columns schema))"

definition zeroed_schema :: Schema where
  "zeroed_schema = \<lparr>schema_table_name = None, columns = [], primary_key = None, primary_key_index = 0, autoincrement = False\<rparr>"

abbreviation (input) SQL_PATH_BUFFER_SIZE :: nat where
  "SQL_PATH_BUFFER_SIZE \<equiv> 4096"

text \<open>\<open>snprintf\<close> into a path buffer cuts what does not fit.\<close>

definition path_buffer :: "string \<Rightarrow> string" where
  "path_buffer path = take (SQL_PATH_BUFFER_SIZE - 1) path"

section \<open>Splitting\<close>

text \<open>\<open>strchr\<close> followed by a cut: the text before the first \<open>d\<close> and the text after it.\<close>

definition cut_at :: "char \<Rightarrow> string \<Rightarrow> (string \<times> string) option" where
  "cut_at d s = (if d \<in> set s then Some (takeWhile (\<lambda>c. c \<noteq> d) s, tl (dropWhile (\<lambda>c. c \<noteq> d) s)) else None)"

fun split_on :: "char \<Rightarrow> string \<Rightarrow> string list" where
  "split_on d [] = [[]]"
| "split_on d (c # s) =
     (if c = d then [] # split_on d s
      else (case split_on d s of [] \<Rightarrow> [[c]] | t # ts \<Rightarrow> (c # t) # ts))"

text \<open>The tokens \<open>strtok\<close> delivers one after the other for a single delimiter.\<close>

definition strtok_all :: "char \<Rightarrow> string \<Rightarrow> string list" where
  "strtok_all d s = filter (\<lambda>t. t \<noteq> []) (split_on d s)"

definition trim_in_place :: "string \<Rightarrow> string" where
  "trim_in_place text = trim text"

section \<open>Columns\<close>

definition parse_column_type :: "string \<Rightarrow> ColumnType result" where
  "parse_column_type type_name =
     (if type_name = ''int'' then Inr COLUMN_TYPE_INT
      else if type_name = ''float'' then Inr COLUMN_TYPE_FLOAT
      else if type_name = ''string'' then Inr COLUMN_TYPE_STRING
      else fail (''unsupported column type: '' @ type_name))"

text \<open>One round of the loop of \<open>parse_columns\<close>: the text up to the next comma.\<close>

definition parse_column :: "string \<Rightarrow> ColumnDef result" where
  "parse_column text =
     (let entry = trim_in_place text in
      case cut_at (CHR '':'') entry of
        None \<Rightarrow> fail (''invalid column definition: '' @ entry)
      | Some (before, after) \<Rightarrow>
          (case parse_column_type (trim_in_place after) of
             Inl e \<Rightarrow> Inl e
           | Inr t \<Rightarrow> Inr \<lparr>column_name = trim_in_place before, column_type = t\<rparr>))"

function parse_columns_loop :: "string \<Rightarrow> ColumnDef list \<Rightarrow> ColumnDef list result" where
  "parse_columns_loop cursor cols =
     (if cursor = [] then Inr cols
      else (case cut_at (CHR '','') cursor of
              None \<Rightarrow>
                (case parse_column cursor of Inl e \<Rightarrow> Inl e | Inr col \<Rightarrow> Inr (cols @ [col]))
            | Some (text, rest) \<Rightarrow>
                (case parse_column text of Inl e \<Rightarrow> Inl e | Inr col \<Rightarrow> parse_columns_loop rest (cols @ [col]))))"
  by pat_completeness auto
termination
proof (relation "measure (\<lambda>(cursor, cols). length cursor)", goal_cases)
  case (2 cursor cols x piece rest)
  then have "CHR '','' \<in> set cursor" "rest = tl (dropWhile (\<lambda>c. c \<noteq> CHR '','') cursor)"
    by (auto simp: cut_at_def split: if_splits)
  then show ?case using length_dropWhile_le[of "\<lambda>c. c \<noteq> CHR '',''" cursor] by (cases cursor) auto
qed simp

declare parse_columns_loop.simps [simp del]

definition parse_columns :: "string \<Rightarrow> Schema \<Rightarrow> Schema result" where
  "parse_columns text schema =
     (case parse_columns_loop text [] of
        Inl e \<Rightarrow> Inl e
      | Inr cols \<Rightarrow> Inr (schema\<lparr>columns := cols\<rparr>))"

section \<open>The schema file\<close>

fun find_name :: "ColumnDef list \<Rightarrow> string \<Rightarrow> nat \<Rightarrow> nat option" where
  "find_name [] name i = None"
| "find_name (c # cs) name i = (if column_name c = name then Some i else find_name cs name (Suc i))"

text \<open>The search for the primary key at the end of every round of the loop of \<open>load_schema\<close>; the index
  is left alone when the key is not found.\<close>

definition locate_primary_key :: "Schema \<Rightarrow> Schema" where
  "locate_primary_key schema =
     (case primary_key schema of
        None \<Rightarrow> schema
      | Some pk \<Rightarrow>
          (case find_name (columns schema) pk 0 of
             None \<Rightarrow> schema
           | Some i \<Rightarrow> schema\<lparr>primary_key_index := int i\<rparr>))"

text \<open>The chain of comparisons on the key of a line.\<close>

definition load_schema_entry :: "string \<Rightarrow> string \<Rightarrow> Schema \<Rightarrow> Schema result" where
  "load_schema_entry key val schema =
     (if key = ''table'' then Inr (schema\<lparr>schema_table_name := sql_strdup (Some val)\<rparr>)
      else if key = ''columns'' then parse_columns val schema
      else if key = ''pkey'' then Inr (schema\<lparr>primary_key := sql_strdup (Some val)\<rparr>)
      else if key = ''autoincrement'' then Inr (schema\<lparr>autoincrement := (val = ''true'')\<rparr>)
      else Inr schema)"

text \<open>
  One round of the loop. For a line without a separator the text is freed before the message
  \<^verbatim>\<open>invalid schema line: %s\<close> reads the line in it: \<open>None\<close>, a use after free.
\<close>

definition load_schema_line :: "Schema \<Rightarrow> string \<Rightarrow> Schema result option" where
  "load_schema_line schema text =
     (let trimmed = trim_in_place text in
      if trimmed = [] then Some (Inr schema)
      else (case cut_at (CHR ''='') trimmed of
              None \<Rightarrow> None
            | Some (before, after) \<Rightarrow>
                Some (case load_schema_entry (trim_in_place before) (trim_in_place after) schema of
                        Inl e \<Rightarrow> Inl e
                      | Inr schema \<Rightarrow> Inr (locate_primary_key schema))))"

fun load_schema_lines :: "Schema \<Rightarrow> string list \<Rightarrow> Schema result option" where
  "load_schema_lines schema [] = Some (Inr schema)"
| "load_schema_lines schema (l # ls) =
     (case load_schema_line schema l of
        None \<Rightarrow> None
      | Some (Inl e) \<Rightarrow> Some (Inl e)
      | Some (Inr schema) \<Rightarrow> load_schema_lines schema ls)"

definition schema_path :: "string \<Rightarrow> string \<Rightarrow> string" where
  "schema_path db_root table = path_buffer (db_root @ ''/schema/'' @ table @ ''.schema'')"

text \<open>
  A NULL object or name is refused without touching the error object, which the callers have cleared.
  What the caller's object held is overwritten.
\<close>

definition load_schema :: "filesystem \<Rightarrow> string \<Rightarrow> string option \<Rightarrow> Schema option \<Rightarrow> Schema result option" where
  "load_schema fs db_root table_name schema =
     (case (schema, table_name) of
        (Some _, Some table) \<Rightarrow>
          (let schema = zeroed_schema\<lparr>primary_key_index := -1, schema_table_name := sql_strdup (Some table)\<rparr> in
           case sql_read_text_file fs (Some (schema_path db_root table)) of
             Inl e \<Rightarrow> Some (Inl e)
           | Inr text \<Rightarrow>
               (case load_schema_lines schema (strtok_all NEWLINE text) of
                  None \<Rightarrow> None
                | Some (Inl e) \<Rightarrow> Some (Inl e)
                | Some (Inr schema) \<Rightarrow>
                    Some (if column_count schema \<le> 0 then fail ''schema has no columns'' else Inr schema)))
      | _ \<Rightarrow> Some (fail []))"

text \<open>The call the table loader makes: a named table and its own schema object.\<close>

abbreviation load_table_schema :: "filesystem \<Rightarrow> string \<Rightarrow> string \<Rightarrow> Schema result option" where
  "load_table_schema fs db_root table \<equiv> load_schema fs db_root (Some table) (Some zeroed_schema)"

definition free_schema :: "Schema \<Rightarrow> Schema" where
  "free_schema schema =
     schema\<lparr>columns := [], schema_table_name := None, primary_key := None, primary_key_index := -1\<rparr>"

section \<open>Well-formed schemas and printed schemas\<close>

text \<open>The key of a line of the file, and how often a key occurs.\<close>

definition line_key :: "string \<Rightarrow> string" where
  "line_key l = (case cut_at (CHR ''='') (trim_in_place l) of None \<Rightarrow> [] | Some (before, after) \<Rightarrow> trim_in_place before)"

definition key_lines :: "string \<Rightarrow> string list \<Rightarrow> nat" where
  "key_lines key ls = length (filter (\<lambda>l. line_key l = key) ls)"

text \<open>The position of the column the primary key names, \<open>-1\<close> when there is none.\<close>

definition primary_key_position :: "Schema \<Rightarrow> int" where
  "primary_key_position schema =
     (case primary_key schema of
        None \<Rightarrow> -1
      | Some pk \<Rightarrow> (case find_name (columns schema) pk 0 of None \<Rightarrow> -1 | Some i \<Rightarrow> int i))"

definition show_type :: "ColumnType \<Rightarrow> string" where
  "show_type t =
     (case t of COLUMN_TYPE_INT \<Rightarrow> ''int'' | COLUMN_TYPE_FLOAT \<Rightarrow> ''float'' | COLUMN_TYPE_STRING \<Rightarrow> ''string'')"

definition show_column :: "ColumnDef \<Rightarrow> string" where
  "show_column c = column_name c @ '':'' @ show_type (column_type c)"

fun show_columns :: "ColumnDef list \<Rightarrow> string" where
  "show_columns [] = []"
| "show_columns [c] = show_column c"
| "show_columns (c # cs) = show_column c @ '','' @ show_columns cs"

definition show_schema :: "Schema \<Rightarrow> string" where
  "show_schema s =
     ''table='' @ the (schema_table_name s) @ [NEWLINE] @ ''columns='' @ show_columns (columns s) @ [NEWLINE] @
     ''pkey='' @ the (primary_key s) @ [NEWLINE] @
     ''autoincrement='' @ (if autoincrement s then ''true'' else ''false'') @ [NEWLINE]"

definition name_ok :: "string \<Rightarrow> bool" where
  "name_ok n \<longleftrightarrow> n \<noteq> [] \<and> trim n = n \<and> NEWLINE \<notin> set n \<and> CHR '','' \<notin> set n \<and> CHR '':'' \<notin> set n \<and> cstring n"

section \<open>The primary key index\<close>

lemma find_name_spec:
  "find_name cs name i = Some j \<Longrightarrow> i \<le> j \<and> j < i + length cs \<and> column_name (cs ! (j - i)) = name"
proof (induction cs name i rule: find_name.induct)
  case (2 c cs name i)
  then show ?case by (cases "column_name c = name") (auto simp: nth_Cons' Suc_diff_le[symmetric] Suc_le_eq)
qed simp

lemma find_name_None: "find_name cs name i = None \<longleftrightarrow> name \<notin> column_name ` set cs"
  by (induction cs name i rule: find_name.induct) auto

lemma primary_key_position_bounds:
  assumes "primary_key_position s = i" "0 \<le> i"
  shows "i < column_count s" "primary_key s = Some (column_name (columns s ! nat i))"
  using assms find_name_spec[of "columns s" "the (primary_key s)" 0]
  by (auto simp: primary_key_position_def split: option.splits)

lemma primary_key_position_none:
  "\<not> 0 \<le> primary_key_position s \<Longrightarrow> primary_key_position s = -1 \<and> primary_key s \<notin> Some ` column_name ` set (columns s)"
  using find_name_None[of "columns s" "the (primary_key s)" 0]
  by (auto simp: primary_key_position_def split: option.splits)

lemma locate_primary_key_simps [simp]:
  "columns (locate_primary_key s) = columns s" "primary_key (locate_primary_key s) = primary_key s"
  "schema_table_name (locate_primary_key s) = schema_table_name s" "autoincrement (locate_primary_key s) = autoincrement s"
  by (simp_all add: locate_primary_key_def split: option.splits)

lemma locate_primary_key_position:
  "primary_key_index s = -1 \<or> primary_key_index s = primary_key_position s \<Longrightarrow>
   primary_key_index (locate_primary_key s) = primary_key_position (locate_primary_key s)"
  by (auto simp: locate_primary_key_def primary_key_position_def split: option.splits)

lemma load_schema_entry_position:
  assumes "load_schema_entry key val s = Inr s'" "primary_key_index s = primary_key_position s"
    and "columns s \<noteq> [] \<Longrightarrow> key \<noteq> ''columns''" "primary_key s \<noteq> None \<Longrightarrow> key \<noteq> ''pkey''"
  shows "primary_key_index s' = -1 \<or> primary_key_index s' = primary_key_position s'"
    and "key \<noteq> ''columns'' \<Longrightarrow> columns s' = columns s" "key \<noteq> ''pkey'' \<Longrightarrow> primary_key s' = primary_key s"
  using assms
  by (cases "columns s = []"; auto simp: load_schema_entry_def parse_columns_def primary_key_position_def
      split: if_splits sum.splits option.splits)+

lemma load_schema_line_position:
  assumes "load_schema_line s l = Some (Inr s')" "primary_key_index s = primary_key_position s"
    and "columns s \<noteq> [] \<Longrightarrow> line_key l \<noteq> ''columns''" "primary_key s \<noteq> None \<Longrightarrow> line_key l \<noteq> ''pkey''"
  shows "primary_key_index s' = primary_key_position s'"
    and "line_key l \<noteq> ''columns'' \<Longrightarrow> columns s' = columns s" "line_key l \<noteq> ''pkey'' \<Longrightarrow> primary_key s' = primary_key s"
proof -
  let ?t = "trim_in_place l"
  have "s' = s \<or> (\<exists>val s0. load_schema_entry (line_key l) val s = Inr s0 \<and> s' = locate_primary_key s0)"
    using assms(1) by (auto simp: load_schema_line_def line_key_def Let_def split: option.splits sum.splits if_splits) blast
  then show "primary_key_index s' = primary_key_position s'" "line_key l \<noteq> ''columns'' \<Longrightarrow> columns s' = columns s"
    "line_key l \<noteq> ''pkey'' \<Longrightarrow> primary_key s' = primary_key s"
    using assms(2) load_schema_entry_position[OF _ assms(2-4)] locate_primary_key_position by auto
qed

lemma load_schema_lines_position:
  assumes "load_schema_lines s ls = Some (Inr s')" "primary_key_index s = primary_key_position s"
    and "key_lines ''columns'' ls \<le> (if columns s = [] then 1 else 0)"
    and "key_lines ''pkey'' ls \<le> (if primary_key s = None then 1 else 0)"
  shows "primary_key_index s' = primary_key_position s'"
  using assms
proof (induction s ls rule: load_schema_lines.induct)
  case (2 s l ls)
  from "2.prems"(1) obtain s1 where s1: "load_schema_line s l = Some (Inr s1)" "load_schema_lines s1 ls = Some (Inr s')"
    by (auto split: sum.splits option.splits)
  have k: "columns s \<noteq> [] \<Longrightarrow> line_key l \<noteq> ''columns''" "primary_key s \<noteq> None \<Longrightarrow> line_key l \<noteq> ''pkey''"
    using "2.prems"(3,4) by (auto simp: key_lines_def split: if_splits)
  note st = load_schema_line_position[OF s1(1) "2.prems"(2) k]
  show ?case
    using "2.IH"[OF s1(1) refl s1(2) st(1)] st(2,3) "2.prems"(3,4) by (auto simp: key_lines_def split: if_splits)
qed simp

section \<open>Printing and loading\<close>

lemma cut_at_app: "d \<notin> set a \<Longrightarrow> cut_at d (a @ d # b) = Some (a, b)"
  by (induction a) (auto simp: cut_at_def)

lemma split_on_app: "d \<notin> set a \<Longrightarrow> split_on d (a @ d # r) = a # split_on d r"
  by (induction a) auto

lemma strtok_lines:
  assumes "\<forall>l\<in>set ls. d \<notin> set l \<and> l \<noteq> []"
  shows "strtok_all d (concat (map (\<lambda>l. l @ [d]) ls)) = ls"
  using assms by (induction ls) (simp_all add: strtok_all_def split_on_app)

lemma trim_ends_id: "\<not> isspace (hd s) \<Longrightarrow> \<not> isspace (last s) \<Longrightarrow> trim s = s"
  by (rule trim_id) simp

lemma name_ok_ends: "name_ok n \<Longrightarrow> n \<noteq> [] \<and> \<not> isspace (hd n) \<and> \<not> isspace (last n)"
  using trim_ends[of n] by (auto simp: name_ok_def)

lemma show_type_facts:
  "parse_column_type (show_type t) = Inr t" "show_type t \<noteq> []" "\<not> isspace (hd (show_type t))" "\<not> isspace (last (show_type t))"
  "NEWLINE \<notin> set (show_type t)" "CHR '','' \<notin> set (show_type t)"
  by (cases t; simp add: show_type_def parse_column_type_def isspace_def)+

lemma parse_show_column:
  assumes "name_ok (column_name c)"
  shows "parse_column (show_column c) = Inr c"
proof -
  note n = name_ok_ends[OF assms] and t = show_type_facts[of "column_type c"]
  have "trim (show_column c) = show_column c"
    using n t by (intro trim_ends_id) (simp_all add: show_column_def)
  moreover have "cut_at (CHR '':'') (show_column c) = Some (column_name c, show_type (column_type c))"
    using assms cut_at_app[of "CHR '':''" "column_name c"] by (simp add: show_column_def name_ok_def)
  moreover have "trim (column_name c) = column_name c" "trim (show_type (column_type c)) = show_type (column_type c)"
    using n t by (auto intro!: trim_ends_id)
  ultimately show ?thesis using t(1) by (simp add: parse_column_def trim_in_place_def)
qed

lemma parse_show_columns:
  assumes "\<forall>c\<in>set cols. name_ok (column_name c)"
  shows "parse_columns_loop (show_columns cols) acc = Inr (acc @ cols)"
  using assms
proof (induction cols arbitrary: acc rule: show_columns.induct)
  case (2 c)
  have "CHR '','' \<notin> set (show_column c)" "show_column c \<noteq> []"
    using 2 show_type_facts(6) by (auto simp: show_column_def name_ok_def)
  then show ?case using 2 parse_show_column[of c] by (subst parse_columns_loop.simps) (simp add: cut_at_def)
next
  case (3 c d cs)
  have "CHR '','' \<notin> set (show_column c)" using 3 show_type_facts(6) by (auto simp: show_column_def name_ok_def)
  then have "cut_at (CHR '','') (show_columns (c # d # cs)) = Some (show_column c, show_columns (d # cs))"
    using cut_at_app[of "CHR '',''" "show_column c"] by simp
  then show ?case using 3 parse_show_column[of c] by (subst parse_columns_loop.simps) (simp add: show_column_def)
qed (simp add: parse_columns_loop.simps)

lemma show_columns_ends:
  assumes "\<forall>c\<in>set cols. name_ok (column_name c)" "cols \<noteq> []"
  shows "show_columns cols \<noteq> [] \<and> \<not> isspace (hd (show_columns cols)) \<and> \<not> isspace (last (show_columns cols)) \<and>
    NEWLINE \<notin> set (show_columns cols) \<and> cstring (show_columns cols)"
  using assms
proof (induction cols rule: show_columns.induct)
  case (2 c)
  then show ?case using name_ok_ends[of "column_name c"] show_type_facts[of "column_type c"]
    by (cases "column_type c") (auto simp: show_column_def show_type_def name_ok_def)
next
  case (3 c d cs)
  then show ?case using name_ok_ends[of "column_name c"] show_type_facts[of "column_type c"]
    by (cases "column_type c") (auto simp: show_column_def show_type_def name_ok_def)
qed simp

text \<open>One printed line.\<close>

lemma load_printed_line:
  assumes "CHR ''='' \<notin> set key" "trim key = key" "key \<noteq> []" "\<not> isspace (hd v)" "\<not> isspace (last v)" "v \<noteq> []"
  shows "load_schema_line s (key @ ''='' @ v) =
    Some (case load_schema_entry key v s of Inl e \<Rightarrow> Inl e | Inr s' \<Rightarrow> Inr (locate_primary_key s'))"
proof -
  have "\<not> isspace (hd key)" using trim_ends[of key] assms(2,3) by auto
  then have "trim (key @ ''='' @ v) = key @ ''='' @ v" using assms(3,5,6) by (intro trim_ends_id) simp_all
  moreover have "cut_at (CHR ''='') (key @ ''='' @ v) = Some (key, v)" using cut_at_app[OF assms(1), of v] by simp
  moreover have "trim v = v" using assms(4,5) by (rule trim_ends_id)
  ultimately show ?thesis using assms(2) by (simp add: load_schema_line_def trim_in_place_def)
qed

lemma load_printed_schema:
  fixes t' :: string
  assumes "schema_table_name s = Some t" "name_ok t" "primary_key s = Some pk" "name_ok pk"
    and "columns s \<noteq> []" "\<forall>c\<in>set (columns s). name_ok (column_name c)" "primary_key_index s = primary_key_position s"
  defines "s0 \<equiv> zeroed_schema\<lparr>primary_key_index := -1, schema_table_name := Some t'\<rparr>"
  shows "load_schema_lines s0 (strtok_all NEWLINE (show_schema s)) = Some (Inr s)"
proof -
  let ?a = "if autoincrement s then ''true'' else ''false''"
  let ?l1 = "''table'' @ ''='' @ t" and ?l2 = "''columns'' @ ''='' @ show_columns (columns s)"
  let ?l3 = "''pkey'' @ ''='' @ pk" and ?l4 = "''autoincrement'' @ ''='' @ ?a"
  note cols = show_columns_ends[OF assms(6,5)] and t = name_ok_ends[OF assms(2)] and k = name_ok_ends[OF assms(4)]
  have "show_schema s = concat (map (\<lambda>l. l @ [NEWLINE]) [?l1, ?l2, ?l3, ?l4])"
    using assms(1,3) by (simp add: show_schema_def)
  moreover have "\<forall>l\<in>set [?l1, ?l2, ?l3, ?l4]. NEWLINE \<notin> set l \<and> l \<noteq> []"
    using assms(2,4) cols by (auto simp: name_ok_def)
  ultimately have lines: "strtok_all NEWLINE (show_schema s) = [?l1, ?l2, ?l3, ?l4]"
    using strtok_lines[of "[?l1, ?l2, ?l3, ?l4]" NEWLINE] by metis
  have "load_schema_line s0 ?l1 = Some (Inr (s0\<lparr>schema_table_name := Some t\<rparr>))"
    using t by (subst load_printed_line) (simp_all add: trim_ends_id isspace_def load_schema_entry_def locate_primary_key_def s0_def zeroed_schema_def)
  moreover have "load_schema_line (s0\<lparr>schema_table_name := Some t\<rparr>) ?l2 = Some (Inr (s0\<lparr>schema_table_name := Some t, columns := columns s\<rparr>))"
    using cols parse_show_columns[OF assms(6), of "[]"]
    by (subst load_printed_line) (simp_all add: trim_ends_id isspace_def load_schema_entry_def parse_columns_def locate_primary_key_def s0_def zeroed_schema_def)
  moreover have "load_schema_line (s0\<lparr>schema_table_name := Some t, columns := columns s\<rparr>) ?l3 =
      Some (Inr (s0\<lparr>schema_table_name := Some t, columns := columns s, primary_key := Some pk, primary_key_index := primary_key_index s\<rparr>))"
    using k assms(3,7)
    by (subst load_printed_line) (simp_all add: trim_ends_id isspace_def load_schema_entry_def locate_primary_key_def s0_def zeroed_schema_def primary_key_position_def split: option.splits)
  moreover have "load_schema_line (s0\<lparr>schema_table_name := Some t, columns := columns s, primary_key := Some pk, primary_key_index := primary_key_index s\<rparr>) ?l4
      = Some (Inr s)"
    using assms(1,3,7)
    by (subst load_printed_line) (simp_all add: trim_ends_id isspace_def load_schema_entry_def locate_primary_key_def s0_def zeroed_schema_def primary_key_position_def split: option.splits)
  ultimately show ?thesis unfolding lines by (simp only: load_schema_lines.simps sum.case option.case)
qed

text \<open>At most one \<open>columns\<close> line and one \<open>pkey\<close> line in the schema file of a table.\<close>

definition schema_unique :: "filesystem \<Rightarrow> string \<Rightarrow> string \<Rightarrow> bool" where
  "schema_unique fs db_root table \<longleftrightarrow>
     (case files fs (schema_path db_root table) of
        None \<Rightarrow> True
      | Some bytes \<Rightarrow> key_lines ''columns'' (strtok_all NEWLINE (cstr bytes)) \<le> 1 \<and>
                      key_lines ''pkey'' (strtok_all NEWLINE (cstr bytes)) \<le> 1)"

text \<open>And every line that is not blank has a separator, so that the loader has no line to complain about.\<close>

definition separated :: "string \<Rightarrow> bool" where
  "separated l \<longleftrightarrow> trim_in_place l = [] \<or> CHR ''='' \<in> set (trim_in_place l)"

definition schema_regular :: "filesystem \<Rightarrow> string \<Rightarrow> string \<Rightarrow> bool" where
  "schema_regular fs db_root table \<longleftrightarrow>
     schema_unique fs db_root table \<and>
     (case files fs (schema_path db_root table) of
        None \<Rightarrow> True
      | Some bytes \<Rightarrow> list_all separated (strtok_all NEWLINE (cstr bytes)))"

lemma load_separated_line: "separated l \<Longrightarrow> load_schema_line s l \<noteq> None"
  by (auto simp: separated_def load_schema_line_def cut_at_def Let_def)

lemma load_separated_lines: "list_all separated ls \<Longrightarrow> load_schema_lines s ls \<noteq> None"
proof (induction ls arbitrary: s)
  case (Cons l ls)
  then show ?case using load_separated_line[of l s] by (auto split: option.splits sum.splits)
qed simp

lemma load_schema_returns: "schema_regular fs db_root table \<Longrightarrow> load_table_schema fs db_root table \<noteq> None"
proof -
  assume reg: "schema_regular fs db_root table"
  show ?thesis
  proof (cases "sql_read_text_file fs (Some (schema_path db_root table))")
    case (Inr content)
    then have "list_all separated (strtok_all NEWLINE content)"
      using reg by (auto simp: schema_regular_def sql_read_text_file_def split: option.splits read_fault.splits)
    then show ?thesis using Inr load_separated_lines by (auto simp: load_schema_def Let_def split: option.splits sum.splits)
  qed (simp add: load_schema_def Let_def)
qed

lemma load_schema_position:
  assumes "load_table_schema fs db_root table = Some (Inr s)" "schema_unique fs db_root table"
  shows "columns s \<noteq> []" "primary_key_index s = primary_key_position s"
proof -
  let ?s0 = "zeroed_schema\<lparr>primary_key_index := -1, schema_table_name := Some table\<rparr>"
  obtain bytes where f: "files fs (schema_path db_root table) = Some bytes"
    using assms(1) by (auto simp: load_schema_def Let_def sql_read_text_file_def split: option.splits)
  then have load: "load_schema_lines ?s0 (strtok_all NEWLINE (cstr bytes)) = Some (Inr s)" and ne: "columns s \<noteq> []"
    using assms(1) by (auto simp: load_schema_def Let_def sql_read_text_file_def split: sum.splits option.splits if_splits read_fault.splits)
  show "primary_key_index s = primary_key_position s"
    using assms(2) f by (intro load_schema_lines_position[OF load]) (simp_all add: schema_unique_def zeroed_schema_def primary_key_position_def)
  show "columns s \<noteq> []" by (rule ne)
qed

lemma load_schema_in_range:
  "load_table_schema fs db_root table = Some (Inr s) \<Longrightarrow> schema_unique fs db_root table \<Longrightarrow> primary_key_index s < column_count s"
  using load_schema_position[of fs db_root table s] primary_key_position_bounds(1)[of s "primary_key_position s"]
  by (cases "0 \<le> primary_key_position s") auto

section \<open>Properties of schema loading\<close>

text \<open>
  C19. When the schema file has at most one \<open>columns\<close> line and at most one \<open>pkey\<close> line, in any order and
  among any other lines, a loaded schema has columns and its primary key index is the position of
  the column the \<open>pkey\<close> line names: inside the column array, or \<open>-1\<close> when there is no such column.
\<close>

theorem load_schema_primary_key:
  assumes "load_table_schema fs db_root table = Some (Inr s)" "schema_unique fs db_root table"
  shows "columns s \<noteq> [] \<and> primary_key_index s < column_count s \<and>
    (if 0 \<le> primary_key_index s
     then primary_key s = Some (column_name (columns s ! nat (primary_key_index s)))
     else primary_key_index s = -1 \<and> primary_key s \<notin> Some ` column_name ` set (columns s))"
  using load_schema_position[OF assms] load_schema_in_range[OF assms]
    primary_key_position_bounds[of s "primary_key_index s"] primary_key_position_none[of s]
  by (cases "0 \<le> primary_key_index s") simp_all

definition sample_schema :: Schema where
  "sample_schema = \<lparr>schema_table_name = Some ''users'',
     columns = [\<lparr>column_name = ''id'', column_type = COLUMN_TYPE_INT\<rparr>, \<lparr>column_name = ''name'', column_type = COLUMN_TYPE_STRING\<rparr>],
     primary_key = Some ''id'', primary_key_index = 0, autoincrement = True\<rparr>"

definition sample_fs :: "string \<Rightarrow> filesystem" where
  "sample_fs bytes = \<lparr>files = (\<lambda>p. if p = ''db/schema/users.schema'' then Some bytes else None),
     read_fault_at = (\<lambda>p. None), can_append = (\<lambda>p. True), accepts = (\<lambda>p. None), close_fails = (\<lambda>p. False), flushed = (\<lambda>p. 0)\<rparr>"

theorem load_schema_primary_key_witness:
  "load_table_schema (sample_fs (show_schema sample_schema)) ''db'' ''users'' = Some (Inr sample_schema) \<and>
   primary_key sample_schema = Some (column_name (columns sample_schema ! nat (primary_key_index sample_schema)))"
proof -
  have l: "load_table_schema (sample_fs (show_schema sample_schema)) ''db'' ''users'' = Some (Inr sample_schema)" by code_simp
  have "schema_unique (sample_fs (show_schema sample_schema)) ''db'' ''users''" by code_simp
  from load_schema_primary_key[OF l this] show ?thesis using l by (simp add: sample_schema_def)
qed

text \<open>
  C20. Writing a schema with the keys of the file format and loading the file gives the schema back.
\<close>

theorem schema_print_round_trip:
  assumes "files fs (schema_path db_root table) = Some (show_schema s)" "read_fault_at fs (schema_path db_root table) = None"
    and "schema_table_name s = Some t" "name_ok t" "primary_key s = Some pk" "name_ok pk"
    and "columns s \<noteq> []" "\<forall>c\<in>set (columns s). name_ok (column_name c)" "primary_key_index s = primary_key_position s"
  shows "load_table_schema fs db_root table = Some (Inr s)"
proof -
  have "cstring (show_schema s)"
    using assms(3-8) show_columns_ends[OF assms(8,7)] by (simp add: show_schema_def name_ok_def)
  then show ?thesis
    using assms(1,2,7) load_printed_schema[OF assms(3-9), of table]
    by (simp add: load_schema_def sql_read_text_file_def zeroed_schema_def)
qed

theorem schema_print_round_trip_witness:
  "load_table_schema (sample_fs (show_schema sample_schema)) ''db'' ''users'' = Some (Inr sample_schema)"
proof (rule schema_print_round_trip)
  show "files (sample_fs (show_schema sample_schema)) (schema_path ''db'' ''users'') = Some (show_schema sample_schema)"
    "read_fault_at (sample_fs (show_schema sample_schema)) (schema_path ''db'' ''users'') = None"
    "schema_table_name sample_schema = Some ''users''" "primary_key sample_schema = Some ''id''" "columns sample_schema \<noteq> []"
    "primary_key_index sample_schema = primary_key_position sample_schema"
    "name_ok ''users''" "name_ok ''id''" "\<forall>c\<in>set (columns sample_schema). name_ok (column_name c)"
    by code_simp+
qed

text \<open>
  With more than one of these lines the index can be stale: a second \<open>columns\<close> line replaces the columns, and the
  index found for the first ones stays. It then lies outside the columns the table is read with.
\<close>

theorem stale_primary_key_index:
  "case load_table_schema (sample_fs (''columns=name:string,id:int'' @ [NEWLINE] @ ''pkey=id'' @ [NEWLINE] @ ''columns=name:string''))
       ''db'' ''users'' of
     None \<Rightarrow> False
   | Some (Inl e) \<Rightarrow> False
   | Some (Inr s) \<Rightarrow> column_count s = 1 \<and> primary_key_index s = 1"
  by code_simp

text \<open>A line without a separator makes the loader read freed memory.\<close>

theorem bad_line_reads_freed_text:
  "load_table_schema (sample_fs (''columns=id:int'' @ [NEWLINE] @ ''pkey'')) ''db'' ''users'' = None"
  by code_simp

end
