(* ===== verification/Server_Config.thy ===== *)
theory Server_Config
  imports Schema
begin

text \<open>
  \<^verbatim>\<open>src/server/api/server_config.c\<close>, \<open>server_config_validate\<close> of \<^verbatim>\<open>src/server/api/server_main.c\<close> and the
  arguments of \<^verbatim>\<open>src/server/api/server_runtime_main.c\<close>.

  A \<open>char\<close> array of the configuration is the list of its bytes before the first NUL, so that it has a NUL
  exactly when the list is shorter than the array.
\<close>

section \<open>The configuration\<close>

abbreviation (input) SERVER_HOST_BUFFER_SIZE :: nat where
  "SERVER_HOST_BUFFER_SIZE \<equiv> 64"

record ServerConfig =
  config_host :: string
  config_db_root :: string
  config_port :: int
  config_backlog :: int
  config_worker_count :: int
  config_queue_capacity :: int
  client_read_timeout_ms :: int

definition server_config_set_defaults :: "ServerConfig option \<Rightarrow> ServerConfig option" where
  "server_config_set_defaults config =
     (case config of
        None \<Rightarrow> None
      | Some _ \<Rightarrow> Some
          \<lparr>config_host = take (SERVER_HOST_BUFFER_SIZE - 1) ''0.0.0.0'', config_db_root = take (SQL_PATH_BUFFER_SIZE - 1) ''./data'',
           config_port = 8080, config_backlog = 128, config_worker_count = 4, config_queue_capacity = 128, client_read_timeout_ms = 3000\<rparr>)"

definition server_config_validate :: "ServerConfig option \<Rightarrow> unit result" where
  "server_config_validate config =
     (case config of
        None \<Rightarrow> fail ''server config must not be null''
      | Some c \<Rightarrow>
          if length (config_host c) \<ge> SERVER_HOST_BUFFER_SIZE then fail ''server host must be null terminated''
          else if length (config_db_root c) \<ge> SQL_PATH_BUFFER_SIZE then fail ''server db_root must be null terminated''
          else if config_db_root c = [] then fail ''server db_root must not be empty''
          else if config_port c \<le> 0 \<or> config_port c > 65535 then fail ''server port must be between 1 and 65535''
          else if config_backlog c \<le> 0 then fail ''server backlog must be positive''
          else if config_worker_count c \<le> 0 then fail ''server worker_count must be positive''
          else if config_queue_capacity c \<le> 0 then fail ''server queue_capacity must be positive''
          else if client_read_timeout_ms c < 0 then fail ''server client_read_timeout_ms must not be negative''
          else Inr ())"

section \<open>The arguments of the server\<close>

definition parse_port_value :: "string option \<Rightarrow> int result" where
  "parse_port_value port_text =
     (case port_text of
        None \<Rightarrow> fail ''server port argument is invalid''
      | Some s \<Rightarrow>
          (case strtol s of
             (parsed, end_text) \<Rightarrow>
               if end_text = s \<or> peek end_text \<noteq> NUL then fail ''server port must be numeric''
               else if parsed \<le> 0 \<or> parsed > 65535 then fail ''server port must be between 1 and 65535''
               else Inr parsed))"

text \<open>How the loop over the arguments ends: with the usage printed (no error), with an error, or with the configuration.\<close>

datatype server_args = Usage_Asked | Args_Refused SqlError | Args_Taken ServerConfig

function server_args_loop :: "string list \<Rightarrow> ServerConfig \<Rightarrow> server_args" where
  "server_args_loop [] config = Args_Taken config"
| "server_args_loop (arg # rest) config =
     (if arg = ''--host'' \<and> rest \<noteq> []
      then if length (hd rest) \<ge> SERVER_HOST_BUFFER_SIZE then Args_Refused (sql_set_error 0 0 ''server host is too long'')
           else server_args_loop (tl rest) (config\<lparr>config_host := hd rest\<rparr>)
      else if arg = ''--port'' \<and> rest \<noteq> []
      then (case parse_port_value (Some (hd rest)) of
              Inl e \<Rightarrow> Args_Refused e
            | Inr port \<Rightarrow> server_args_loop (tl rest) (config\<lparr>config_port := port\<rparr>))
      else if arg = ''--db'' \<and> rest \<noteq> []
      then if length (hd rest) \<ge> SQL_PATH_BUFFER_SIZE then Args_Refused (sql_set_error 0 0 ''server db path is too long'')
           else server_args_loop (tl rest) (config\<lparr>config_db_root := hd rest\<rparr>)
      else if arg = ''--help'' then Usage_Asked
      else Args_Refused (sql_set_error 0 0 (''unknown server argument: '' @ arg)))"
  by pat_completeness auto
termination server_args_loop
  by (relation "measure (\<lambda>(args, _). length args)") auto

definition parse_server_args :: "string list \<Rightarrow> ServerConfig option \<Rightarrow> server_args" where
  "parse_server_args argv config =
     (case server_config_set_defaults config of
        None \<Rightarrow> Args_Refused (sql_set_error 0 0 ''server config must not be null'')
      | Some c \<Rightarrow> server_args_loop (tl argv) c)"

section \<open>Lemmas\<close>

lemma parse_port_show: "0 < p \<Longrightarrow> p \<le> 65535 \<Longrightarrow> parse_port_value (Some (show_nat p)) = Inr (int p)"
  using strtol_digits(1)[of "show_nat p"] show_nat_digits[of p] digits_value_show_nat[of p]
  by (auto simp: parse_port_value_def clamp_long_def)

lemma parse_port_range: "parse_port_value s = Inr p \<Longrightarrow> 0 < p \<and> p \<le> 65535"
  by (auto simp: parse_port_value_def split: option.splits prod.splits if_splits)

text \<open>What the arguments leave to \<open>server_config_validate\<close> is only whether the path of the database is empty.\<close>

lemma server_args_loop_valid:
  "server_args_loop args c = Args_Taken c' \<Longrightarrow> server_config_validate (Some (c\<lparr>config_db_root := ''.''\<rparr>)) = Inr () \<Longrightarrow>
     length (config_db_root c) < SQL_PATH_BUFFER_SIZE \<Longrightarrow> config_db_root c' \<noteq> [] \<Longrightarrow> server_config_validate (Some c') = Inr ()"
proof (induction args c rule: server_args_loop.induct)
  case (2 arg rest config)
  then show ?case
    by (auto simp: server_config_validate_def dest: parse_port_range split: if_splits sum.splits)
qed (auto simp: server_config_validate_def split: if_splits)

lemma parse_server_args_valid:
  "parse_server_args argv (Some c) = Args_Taken config \<Longrightarrow> config_db_root config \<noteq> [] \<Longrightarrow> server_config_validate (Some config) = Inr ()"
  by (rule server_args_loop_valid[of "tl argv" "the (server_config_set_defaults (Some c))"])
    (simp_all add: parse_server_args_def server_config_set_defaults_def server_config_validate_def)

end
