(* ===== verification/Sql_Parser.thy ===== *)
theory Sql_Parser
  imports Common
begin

text \<open>
  \<^verbatim>\<open>src/query/tokenizer.c\<close>, \<^verbatim>\<open>src/query/parser.c\<close> and \<^verbatim>\<open>include/ast.h\<close>: the parser of the two
  statements \<open>SELECT * FROM t [WHERE c = v]\<close> and \<open>INSERT INTO t VALUES (v, ...)\<close>.

  A \<open>const char **cursor\<close> argument is the string still to be read, returned with the result. The
  \<open>Query\<close> object the caller passes is threaded through the functions that write to it, so that
  what a failed attempt leaves in it is part of the model. The growth of the \<open>values\<close> array by
  \<open>realloc\<close> is not visible in its contents and is not modelled.
\<close>

section \<open>The abstract syntax\<close>

datatype QueryType = QUERY_INSERT | QUERY_SELECT

datatype ValueType = VALUE_INT | VALUE_FLOAT | VALUE_STRING

record Value =
  value_type :: ValueType
  raw :: "string option"

record Condition =
  condition_column :: "string option"
  condition_value :: Value

record Query =
  query_type :: QueryType
  table_name :: "string option"
  query_values :: "string list"
  has_condition :: bool
  condition :: Condition

text \<open>The object after \<open>memset\<close>.\<close>

definition zeroed_query :: Query where
  "zeroed_query =
     \<lparr>query_type = QUERY_INSERT, table_name = None, query_values = [], has_condition = False,
      condition = \<lparr>condition_column = None, condition_value = \<lparr>value_type = VALUE_INT, raw = None\<rparr>\<rparr>\<rparr>"

section \<open>Tokens\<close>

fun tokenize_loop :: "string \<Rightarrow> unit result" where
  "tokenize_loop [] = fail ''sql must not be empty''"
| "tokenize_loop (c # cs) = (if \<not> isspace c then Inr () else tokenize_loop cs)"

definition tokenize_sql :: "string option \<Rightarrow> unit result" where
  "tokenize_sql sql =
     (case sql of None \<Rightarrow> fail ''sql must not be empty'' | Some s \<Rightarrow> tokenize_loop s)"

definition skip_whitespace :: "string \<Rightarrow> string" where
  "skip_whitespace cursor = dropWhile isspace cursor"

definition is_identifier_char :: "char \<Rightarrow> bool" where
  "is_identifier_char ch \<longleftrightarrow> isalnum ch \<or> ch = CHR ''_''"

fun match_loop :: "string \<Rightarrow> string \<Rightarrow> string option" where
  "match_loop scan [] = Some scan"
| "match_loop scan (k # keyword) =
     (if tolower (peek scan) \<noteq> tolower k then None else match_loop (tl scan) keyword)"

text \<open>\<open>None\<close>: no match, the cursor stays; \<open>Some\<close>: the cursor after the keyword.\<close>

definition match_keyword :: "string \<Rightarrow> string \<Rightarrow> string option" where
  "match_keyword cursor keyword =
     (case match_loop (skip_whitespace cursor) keyword of
        None \<Rightarrow> None
      | Some scan \<Rightarrow> if is_identifier_char (peek scan) then None else Some scan)"

definition parse_identifier :: "string \<Rightarrow> (string \<times> string) result" where
  "parse_identifier cursor =
     (let start = skip_whitespace cursor in
      if \<not> is_identifier_char (peek start) then fail ''expected identifier''
      else Inr (takeWhile is_identifier_char start, dropWhile is_identifier_char start))"

definition unquoted_char :: "char \<Rightarrow> bool" where
  "unquoted_char ch \<longleftrightarrow> ch \<noteq> CHR '','' \<and> ch \<noteq> CHR '')'' \<and> ch \<noteq> CHR '';'' \<and> \<not> isspace ch"

definition parse_value :: "string \<Rightarrow> (string \<times> string) result" where
  "parse_value cursor =
     (let cursor = skip_whitespace cursor in
      if peek cursor = SQUOTE \<or> peek cursor = DQUOTE
      then (let quote = peek cursor;
                start = tl cursor;
                value = takeWhile (\<lambda>c. c \<noteq> quote) start;
                rest = dropWhile (\<lambda>c. c \<noteq> quote) start
            in if peek rest \<noteq> quote then fail ''unterminated string literal''
               else if length value = 0 then fail ''expected value''
               else Inr (value, tl rest))
      else (let value = takeWhile unquoted_char cursor;
                rest = dropWhile unquoted_char cursor
            in if length value = 0 then fail ''expected value'' else Inr (value, rest)))"

section \<open>Statements\<close>

definition free_query_values :: "Query \<Rightarrow> Query" where
  "free_query_values query = query\<lparr>query_values := []\<rparr>"

definition free_query_condition :: "Query \<Rightarrow> Query" where
  "free_query_condition query =
     (if \<not> has_condition query then query
      else query\<lparr>condition := (condition query)\<lparr>condition_column := None,
                                                condition_value := (condition_value (condition query))\<lparr>raw := None\<rparr>\<rparr>,
                 has_condition := False\<rparr>)"

definition parse_condition :: "string \<Rightarrow> Query \<Rightarrow> Query \<times> string result" where
  "parse_condition cursor query =
     (case match_keyword cursor ''where'' of
        None \<Rightarrow> (query, Inr cursor)
      | Some cursor \<Rightarrow>
          (case parse_identifier cursor of
             Inl e \<Rightarrow> (query, Inl e)
           | Inr (col, cursor) \<Rightarrow>
               (let cursor = skip_whitespace cursor in
                if peek cursor \<noteq> CHR ''='' then (query, fail (''expected '' @ [SQUOTE, CHR ''='', SQUOTE] @ '' in WHERE clause''))
                else (case parse_value (tl cursor) of
                        Inl e \<Rightarrow> (query, Inl e)
                      | Inr (value, cursor) \<Rightarrow>
                          (query\<lparr>has_condition := True,
                                 condition := \<lparr>condition_column = Some col,
                                               condition_value = \<lparr>value_type = VALUE_STRING, raw = Some value\<rparr>\<rparr>\<rparr>,
                           Inr cursor)))))"

text \<open>The end of both statements: an optional semicolon, white space, nothing else.\<close>

definition statement_end :: "string \<Rightarrow> bool" where
  "statement_end cursor \<longleftrightarrow>
     (let cursor = skip_whitespace cursor;
          cursor = (if peek cursor = CHR '';'' then tl cursor else cursor)
      in peek (skip_whitespace cursor) = NUL)"

definition parse_select :: "string \<Rightarrow> Query \<Rightarrow> Query \<times> unit result" where
  "parse_select sql query =
     (case match_keyword sql ''select'' of
        None \<Rightarrow> (query, fail ''expected SELECT'')
      | Some cursor \<Rightarrow>
          (let cursor = skip_whitespace cursor in
           if peek cursor \<noteq> CHR ''*'' then (query, fail ''only SELECT * is supported'')
           else (case match_keyword (tl cursor) ''from'' of
                   None \<Rightarrow> (query, fail ''expected FROM'')
                 | Some cursor \<Rightarrow>
                     (case parse_identifier cursor of
                        Inl e \<Rightarrow> (query\<lparr>table_name := None\<rparr>, Inl e)
                      | Inr (name, cursor) \<Rightarrow>
                          (case parse_condition cursor (query\<lparr>table_name := Some name\<rparr>) of
                             (query, Inl e) \<Rightarrow> (query, Inl e)
                           | (query, Inr cursor) \<Rightarrow>
                               if \<not> statement_end cursor then (query, fail ''unexpected trailing SQL'')
                               else (query\<lparr>query_type := QUERY_SELECT\<rparr>, Inr ()))))))"

text \<open>The loop over the VALUES list; the cursor starts after the opening parenthesis.\<close>

lemma parse_value_shorter:
  assumes "parse_value cursor = Inr (val, rest)"
  shows "length rest < length cursor"
proof -
  let ?c = "skip_whitespace cursor"
  have le: "length ?c \<le> length cursor" by (simp add: skip_whitespace_def length_dropWhile_le)
  have split: "length (dropWhile P s) + length (takeWhile P s) = length s" for P and s :: string
    by (metis add.commute length_append takeWhile_dropWhile_id)
  show ?thesis
  proof (cases "peek ?c = SQUOTE \<or> peek ?c = DQUOTE")
    case True
    then obtain q start where c: "?c = q # start" by (cases ?c) auto
    have "rest = tl (dropWhile (\<lambda>c. c \<noteq> q) start)"
      using assms True c by (auto simp: parse_value_def Let_def split: if_splits)
    then have "length rest \<le> length start" using length_dropWhile_le[of "\<lambda>c. c \<noteq> q" start] by simp
    then show ?thesis using le c by simp
  next
    case False
    then have "rest = dropWhile unquoted_char ?c" "takeWhile unquoted_char ?c \<noteq> []"
      using assms by (auto simp: parse_value_def Let_def split: if_splits)
    then show ?thesis using le split[of unquoted_char ?c] by (cases "takeWhile unquoted_char ?c") auto
  qed
qed

function parse_values :: "string \<Rightarrow> string list \<Rightarrow> (string list \<times> string) result" where
  "parse_values cursor values =
     (case parse_value cursor of
        Inl e \<Rightarrow> Inl e
      | Inr (value, cursor') \<Rightarrow>
          (let values = values @ [value]; cursor' = skip_whitespace cursor' in
           if peek cursor' = CHR '','' then parse_values (tl cursor') values
           else if peek cursor' = CHR '')'' then Inr (values, tl cursor')
           else fail (''expected '' @ [SQUOTE, CHR '','', SQUOTE] @ '' or '' @ [SQUOTE, CHR '')'', SQUOTE] @ '' in VALUES list'')))"
  by pat_completeness auto
termination
proof (relation "measure (\<lambda>(cursor, values). length cursor)", goal_cases)
  case (2 cursor vs x val cursor' vs' cursor'')
  then have "length cursor' < length cursor" using parse_value_shorter by auto
  moreover have "length cursor'' \<le> length cursor'" using 2 by (simp add: skip_whitespace_def length_dropWhile_le)
  ultimately show ?case by simp
qed simp

declare parse_values.simps [simp del]

definition parse_insert :: "string \<Rightarrow> Query \<Rightarrow> Query \<times> unit result" where
  "parse_insert sql query =
     (case match_keyword sql ''insert'' of
        None \<Rightarrow> (query, fail ''expected INSERT'')
      | Some cursor \<Rightarrow>
          (case match_keyword cursor ''into'' of
             None \<Rightarrow> (query, fail ''expected INTO'')
           | Some cursor \<Rightarrow>
               (case parse_identifier cursor of
                  Inl e \<Rightarrow> (query\<lparr>table_name := None\<rparr>, Inl e)
                | Inr (name, cursor) \<Rightarrow>
                    (let query = query\<lparr>table_name := Some name\<rparr> in
                     case match_keyword cursor ''values'' of
                       None \<Rightarrow> (query, fail ''expected VALUES'')
                     | Some cursor \<Rightarrow>
                         (let cursor = skip_whitespace cursor in
                          if peek cursor \<noteq> CHR ''('' then (query, fail (''expected '' @ [SQUOTE, CHR ''('', SQUOTE] @ '' after VALUES''))
                          else (case parse_values (tl cursor) [] of
                                  Inl e \<Rightarrow> (query, Inl e)
                                | Inr (values, cursor) \<Rightarrow>
                                    if \<not> statement_end cursor then (query, fail ''unexpected trailing SQL'')
                                    else (query\<lparr>query_type := QUERY_INSERT, query_values := values\<rparr>, Inr ())))))))"

text \<open>\<open>sql = None\<close> and \<open>query = None\<close> are the NULL arguments.\<close>

definition parse_sql_text :: "string option \<Rightarrow> Query option \<Rightarrow> Query option \<times> unit result" where
  "parse_sql_text sql query =
     (case sql of
        None \<Rightarrow> (query, fail ''sql must not be empty'')
      | Some text \<Rightarrow>
          if peek text = NUL then (query, fail ''sql must not be empty'')
          else if query = None then (None, fail ''query must not be null'')
          else (case tokenize_sql sql of
                  Inl e \<Rightarrow> (query, Inl e)
                | Inr _ \<Rightarrow>
                    (case parse_select text zeroed_query of
                       (q, Inr _) \<Rightarrow> (Some q, Inr ())
                     | (q, Inl _) \<Rightarrow>
                         (let q = free_query_condition (free_query_values (q\<lparr>table_name := None\<rparr>)) in
                          case parse_insert text q of
                            (q, Inr _) \<Rightarrow> (Some q, Inr ())
                          | (q, Inl _) \<Rightarrow>
                              (Some (free_query_condition (free_query_values (q\<lparr>table_name := None\<rparr>))),
                               fail ''unsupported SQL statement'')))))"

section \<open>Identifiers, values and printed statements\<close>

definition sql_identifier :: "string \<Rightarrow> bool" where
  "sql_identifier t \<longleftrightarrow> t \<noteq> [] \<and> list_all is_identifier_char t"

text \<open>The texts a string literal of the grammar can denote: there is no escape for a quote.\<close>

definition quotable :: "string \<Rightarrow> bool" where
  "quotable v \<longleftrightarrow> v \<noteq> [] \<and> cstring v \<and> (SQUOTE \<notin> set v \<or> DQUOTE \<notin> set v)"

definition show_value :: "string \<Rightarrow> string" where
  "show_value v = (if SQUOTE \<notin> set v then SQUOTE # v @ [SQUOTE] else DQUOTE # v @ [DQUOTE])"

fun show_values :: "string list \<Rightarrow> string" where
  "show_values [] = '')''"
| "show_values [v] = show_value v @ '')''"
| "show_values (v # vs) = show_value v @ '', '' @ show_values vs"

definition show_select :: "string \<Rightarrow> (string \<times> string) option \<Rightarrow> string" where
  "show_select t cond =
     ''SELECT * FROM '' @ t @ (case cond of None \<Rightarrow> [] | Some (c, v) \<Rightarrow> '' WHERE '' @ c @ '' = '' @ show_value v)"

definition show_insert :: "string \<Rightarrow> string list \<Rightarrow> string" where
  "show_insert t vs = ''INSERT INTO '' @ t @ '' VALUES ('' @ show_values vs"

definition select_query :: "string \<Rightarrow> (string \<times> string) option \<Rightarrow> Query" where
  "select_query t cond =
     (case cond of
        None \<Rightarrow> zeroed_query\<lparr>query_type := QUERY_SELECT, table_name := Some t\<rparr>
      | Some (c, v) \<Rightarrow>
          zeroed_query\<lparr>query_type := QUERY_SELECT, table_name := Some t, has_condition := True,
            condition := \<lparr>condition_column = Some c, condition_value = \<lparr>value_type = VALUE_STRING, raw = Some v\<rparr>\<rparr>\<rparr>)"

definition insert_query :: "string \<Rightarrow> string list \<Rightarrow> Query" where
  "insert_query t vs = zeroed_query\<lparr>query_type := QUERY_INSERT, table_name := Some t, query_values := vs\<rparr>"

text \<open>What every accepted query satisfies.\<close>

definition query_ok :: "Query \<Rightarrow> bool" where
  "query_ok q \<longleftrightarrow>
     (\<exists>t. table_name q = Some t \<and> sql_identifier t) \<and>
     (case query_type q of
        QUERY_SELECT \<Rightarrow> query_values q = [] \<and>
          (has_condition q \<longrightarrow> (\<exists>c v. condition_column (condition q) = Some c \<and> sql_identifier c \<and>
             raw (condition_value (condition q)) = Some v \<and> v \<noteq> [] \<and> cstring v))
      | QUERY_INSERT \<Rightarrow> \<not> has_condition q \<and> query_values q \<noteq> [] \<and> (\<forall>v\<in>set (query_values q). v \<noteq> [] \<and> cstring v))"

section \<open>The contract of a cursor parser\<close>

text \<open>
  A successful parser consumes a non-empty prefix of its input, and the strings it returns are made
  of characters of that prefix.
\<close>

locale cursor_parser =
  fixes parse :: "string \<Rightarrow> ('a \<times> string) result" and texts :: "'a \<Rightarrow> string list"
  assumes consumes: "parse s = Inr (a, r) \<Longrightarrow> \<exists>pre. s = pre @ r \<and> pre \<noteq> [] \<and> (\<forall>t\<in>set (texts a). t \<noteq> [] \<and> set t \<subseteq> set pre)"
begin

lemma rest_suffix: "parse s = Inr (a, r) \<Longrightarrow> strict_suffix r s"
  using consumes by (fastforce simp: strict_suffix_def suffix_def)

lemma rest_cstring: "parse s = Inr (a, r) \<Longrightarrow> cstring s \<Longrightarrow> cstring r"
  using consumes by fastforce

lemma texts_cstring: "parse s = Inr (a, r) \<Longrightarrow> cstring s \<Longrightarrow> t \<in> set (texts a) \<Longrightarrow> t \<noteq> [] \<and> cstring t"
  using consumes by (fastforce simp: cstring_def)

end

lemma is_identifier_char_NUL [simp]: "\<not> is_identifier_char NUL"
  by (simp add: is_identifier_char_def)

lemma skip_whitespace_split: "\<exists>sp. s = sp @ skip_whitespace s \<and> list_all isspace sp"
  unfolding skip_whitespace_def
  by (intro exI[of _ "takeWhile isspace s"]) (auto simp: list_all_iff dest: set_takeWhileD)

lemma parse_identifier_spec:
  assumes "parse_identifier s = Inr (t, r)"
  shows "\<exists>sp. s = sp @ t @ r \<and> list_all isspace sp \<and> sql_identifier t \<and> \<not> is_identifier_char (peek r)"
proof -
  obtain sp where sp: "s = sp @ skip_whitespace s" "list_all isspace sp" using skip_whitespace_split by blast
  let ?c = "skip_whitespace s"
  from assms have t: "t = takeWhile is_identifier_char ?c" "r = dropWhile is_identifier_char ?c" "is_identifier_char (peek ?c)"
    by (auto simp: parse_identifier_def Let_def split: if_splits)
  then have "sql_identifier t" by (cases ?c) (auto simp: sql_identifier_def list_all_iff dest: set_takeWhileD)
  moreover have "\<not> is_identifier_char (peek r)" using t(2) by (simp add: peek_dropWhile)
  ultimately show ?thesis using sp t(1,2) by (metis takeWhile_dropWhile_id)
qed

lemma parse_value_spec:
  assumes "parse_value s = Inr (v, r)"
  shows "\<exists>pre post. s = pre @ v @ post @ r \<and> v \<noteq> []"
proof -
  obtain sp where sp: "s = sp @ skip_whitespace s" using skip_whitespace_split by blast
  let ?c = "skip_whitespace s"
  show ?thesis
  proof (cases "peek ?c = SQUOTE \<or> peek ?c = DQUOTE")
    case True
    then obtain q start where c: "?c = q # start" by (cases ?c) auto
    let ?P = "\<lambda>c. c \<noteq> q"
    have r: "v = takeWhile ?P start" "v \<noteq> []" "peek (dropWhile ?P start) = q" "r = tl (dropWhile ?P start)"
      using assms True c by (auto simp: parse_value_def Let_def split: if_splits)
    have "q \<noteq> NUL" using True c by auto
    then have "dropWhile ?P start = q # r" using r(3,4) by (cases "dropWhile ?P start") auto
    then have "start = v @ [q] @ r" using r(1) takeWhile_dropWhile_id[of ?P start] by simp
    then have "s = (sp @ [q]) @ v @ [q] @ r" using sp c by simp
    then show ?thesis using r(2) by blast
  next
    case False
    then have "v = takeWhile unquoted_char ?c" "r = dropWhile unquoted_char ?c" "v \<noteq> []"
      using assms by (auto simp: parse_value_def Let_def split: if_splits)
    then have "s = sp @ v @ [] @ r" using sp by simp
    then show ?thesis using \<open>v \<noteq> []\<close> by blast
  qed
qed

interpretation ident: cursor_parser parse_identifier "\<lambda>t. [t]"
  by unfold_locales (use parse_identifier_spec in \<open>fastforce simp: sql_identifier_def\<close>)

interpretation val: cursor_parser parse_value "\<lambda>v. [v]"
  by unfold_locales (use parse_value_spec in fastforce)

lemma parse_values_consumes:
  "parse_values s vs = Inr (ws, r) \<Longrightarrow>
     \<exists>pre us. s = pre @ r \<and> pre \<noteq> [] \<and> ws = vs @ us \<and> us \<noteq> [] \<and> (\<forall>u\<in>set us. u \<noteq> [] \<and> set u \<subseteq> set pre)"
proof (induction s vs rule: parse_values.induct)
  case (1 s vs)
  from "1.prems" obtain v c where v: "parse_value s = Inr (v, c)" by (subst (asm) parse_values.simps) (auto split: sum.splits)
  let ?c = "skip_whitespace c"
  obtain pre where pre: "s = pre @ c" "pre \<noteq> []" "v \<noteq> []" "set v \<subseteq> set pre" using val.consumes[OF v] by auto
  obtain sp where sp: "c = sp @ ?c" using skip_whitespace_split by blast
  consider (comma) "peek ?c = CHR '',''" | (close) "peek ?c = CHR '')''"
    using "1.prems" v by (subst (asm) parse_values.simps) (auto simp: Let_def split: if_splits)
  then show ?case
  proof cases
    case comma
    then have c: "c = sp @ CHR '','' # tl ?c" using sp peek_tl by fastforce
    have "parse_values (tl ?c) (vs @ [v]) = Inr (ws, r)"
      using "1.prems" v comma by (subst (asm) parse_values.simps) (simp add: Let_def)
    then obtain q us where q: "tl ?c = q @ r" "ws = (vs @ [v]) @ us" "\<forall>u\<in>set us. u \<noteq> [] \<and> set u \<subseteq> set q"
      using "1.IH"[OF v refl refl refl comma] by blast
    then have "s = (pre @ sp @ CHR '','' # q) @ r" using pre(1) c by simp
    moreover have "\<forall>u\<in>set (v # us). u \<noteq> [] \<and> set u \<subseteq> set (pre @ sp @ CHR '','' # q)" using pre q(3) by fastforce
    ultimately show ?thesis using q(2) by (intro exI[of _ "pre @ sp @ CHR '','' # q"] exI[of _ "v # us"]) simp
  next
    case close
    then have c: "c = sp @ CHR '')'' # tl ?c" using sp peek_tl by fastforce
    have "ws = vs @ [v]" "r = tl ?c" using "1.prems" v close by (subst (asm) parse_values.simps, simp add: Let_def)+
    then show ?thesis using pre c by (intro exI[of _ "pre @ sp @ '')''"] exI[of _ "[v]"]) auto
  qed
qed

interpretation vals: cursor_parser "\<lambda>s. parse_values s []" "\<lambda>vs. vs"
  by unfold_locales (use parse_values_consumes in fastforce)

section \<open>Keywords\<close>

lemma match_loop_spec:
  assumes "cstring kw"
  shows "match_loop s kw = Some r \<longleftrightarrow> (\<exists>w. s = w @ r \<and> map tolower w = map tolower kw)"
  using assms
proof (induction s kw rule: match_loop.induct)
  case (2 s k kw)
  have "tolower k \<noteq> tolower NUL" using 2(2) by simp
  then show ?case using 2 by (cases s) (auto simp: Cons_eq_append_conv)
qed simp

text \<open>A keyword matches in any case, after any white space, and only as a whole word.\<close>

lemma match_keyword_spec:
  assumes "cstring kw" "kw \<noteq> []" "\<not> isspace (hd kw)"
  shows "match_keyword s kw = Some r \<longleftrightarrow>
    (\<exists>sp w. s = sp @ w @ r \<and> list_all isspace sp \<and> map tolower w = map tolower kw \<and> \<not> is_identifier_char (peek r))"
proof
  assume "match_keyword s kw = Some r"
  then have "match_loop (skip_whitespace s) kw = Some r" "\<not> is_identifier_char (peek r)"
    by (auto simp: match_keyword_def split: option.splits if_splits)
  then show "\<exists>sp w. s = sp @ w @ r \<and> list_all isspace sp \<and> map tolower w = map tolower kw \<and> \<not> is_identifier_char (peek r)"
    using match_loop_spec[OF assms(1)] skip_whitespace_split[of s] by metis
next
  assume "\<exists>sp w. s = sp @ w @ r \<and> list_all isspace sp \<and> map tolower w = map tolower kw \<and> \<not> is_identifier_char (peek r)"
  then obtain sp w where w: "s = sp @ w @ r" "list_all isspace sp" "map tolower w = map tolower kw" "\<not> is_identifier_char (peek r)"
    by blast
  from w(3) assms(2) obtain c w' where c: "w = c # w'" "tolower c = tolower (hd kw)" by (cases w; cases kw) auto
  have "\<not> isspace c" using arg_cong[OF c(2), of isspace] assms(3) by simp
  then have "skip_whitespace s = w @ r"
    using w(1,2) c(1) dropWhile_app_stop[of isspace sp "w @ r"] by (simp add: skip_whitespace_def)
  then show "match_keyword s kw = Some r"
    using w(3,4) match_loop_spec[OF assms(1), of "w @ r" r] by (auto simp: match_keyword_def)
qed

section \<open>Accepted statements\<close>

lemma match_keyword_cstring: "match_keyword s kw = Some r \<Longrightarrow> cstring s \<Longrightarrow> cstring r"
proof -
  have "match_loop t kw = Some r \<Longrightarrow> cstring t \<Longrightarrow> cstring r" for t
    by (induction t kw rule: match_loop.induct) (auto split: if_splits simp: cstring_def dest: in_set_tlD)
  moreover have "cstring s \<Longrightarrow> cstring (skip_whitespace s)"
    by (auto simp: cstring_def skip_whitespace_def dest: set_dropWhileD)
  ultimately show "match_keyword s kw = Some r \<Longrightarrow> cstring s \<Longrightarrow> cstring r"
    by (auto simp: match_keyword_def split: option.splits if_splits)
qed

lemma skip_tl_cstring: "cstring s \<Longrightarrow> cstring (tl (skip_whitespace s))" "cstring s \<Longrightarrow> cstring (skip_whitespace s)"
  by (auto simp: cstring_def skip_whitespace_def dest!: in_set_tlD set_dropWhileD)

lemma parse_condition_frame:
  assumes "parse_condition s q = (q', res)"
  shows "table_name q' = table_name q" "query_type q' = query_type q" "query_values q' = query_values q"
    and "\<not> has_condition q \<Longrightarrow> res = Inl e \<Longrightarrow> q' = q"
  using assms by (auto simp: parse_condition_def Let_def split: option.splits sum.splits prod.splits if_splits)

lemma parse_condition_ok:
  assumes "parse_condition s q = (q', Inr r)" "cstring s" "\<not> has_condition q" "has_condition q'"
  shows "\<exists>c v. condition_column (condition q') = Some c \<and> sql_identifier c \<and>
    raw (condition_value (condition q')) = Some v \<and> v \<noteq> [] \<and> cstring v"
proof -
  obtain c1 where c1: "match_keyword s ''where'' = Some c1"
    using assms(1,3,4) by (cases "match_keyword s ''where''") (auto simp: parse_condition_def simp del: not_None_eq)
  have "\<exists>a b. parse_identifier c1 = Inr (a, b)"
    using assms(1) c1 by (cases "parse_identifier c1") (simp_all add: parse_condition_def Let_def)
  then obtain c c2 where c: "parse_identifier c1 = Inr (c, c2)" by blast
  have eq: "peek (skip_whitespace c2) = CHR ''=''"
    using assms(1) c1 c by (simp add: parse_condition_def Let_def split: if_splits)
  have "\<exists>a b. parse_value (tl (skip_whitespace c2)) = Inr (a, b)"
    using assms(1) c1 c eq by (cases "parse_value (tl (skip_whitespace c2))") (simp_all add: parse_condition_def Let_def)
  then obtain v c3 where v: "parse_value (tl (skip_whitespace c2)) = Inr (v, c3)" by blast
  have "cstring c2" using ident.rest_cstring[OF c] match_keyword_cstring[OF c1 assms(2)] by simp
  then have "v \<noteq> [] \<and> cstring v" by (intro val.texts_cstring[OF v] skip_tl_cstring(1)) simp_all
  moreover have "condition q' = \<lparr>condition_column = Some c, condition_value = \<lparr>value_type = VALUE_STRING, raw = Some v\<rparr>\<rparr>"
    using assms(1) c1 c eq v by (simp add: parse_condition_def Let_def) auto
  ultimately show ?thesis using parse_identifier_spec[OF c] by auto
qed

lemma parse_select_ok:
  assumes "parse_select s zeroed_query = (q, Inr ())" "cstring s"
  shows "query_ok q \<and> query_type q = QUERY_SELECT"
proof -
  note d = assms(1)[unfolded parse_select_def Let_def]
  obtain c1 where c1: "match_keyword s ''select'' = Some c1"
    using d by (cases "match_keyword s ''select''") simp_all
  note d = d[unfolded c1 option.case]
  have star: "peek (skip_whitespace c1) = CHR ''*''" using d by (simp split: if_splits)
  note d = d[unfolded star simp_thms if_False]
  obtain c2 where c2: "match_keyword (tl (skip_whitespace c1)) ''from'' = Some c2"
    using d by (cases "match_keyword (tl (skip_whitespace c1)) ''from''") simp_all
  note d = d[unfolded c2 option.case]
  have "\<exists>a b. parse_identifier c2 = Inr (a, b)"
    using d by (cases "parse_identifier c2") (simp_all)
  then obtain t c3 where t: "parse_identifier c2 = Inr (t, c3)" by blast
  note d = d[unfolded t sum.case prod.case]
  obtain q' c4 where q': "parse_condition c3 (zeroed_query\<lparr>table_name := Some t\<rparr>) = (q', Inr c4)"
    using d by (simp split: prod.splits sum.splits)
  have q: "q = q'\<lparr>query_type := QUERY_SELECT\<rparr>" using d[unfolded q'] by (simp split: if_splits)
  have "cstring c2" by (intro match_keyword_cstring[OF c2] skip_tl_cstring(1) match_keyword_cstring[OF c1 assms(2)])
  then have c3: "cstring c3" using ident.rest_cstring[OF t] by simp
  have "sql_identifier t" using parse_identifier_spec[OF t] by blast
  then show ?thesis
    using parse_condition_frame(1-3)[OF q'] parse_condition_ok[OF q' c3] q by (simp add: query_ok_def zeroed_query_def)
qed

lemma parse_insert_ok:
  assumes "parse_insert s q0 = (q, Inr ())" "cstring s" "\<not> has_condition q0"
  shows "query_ok q \<and> query_type q = QUERY_INSERT"
proof -
  note d = assms(1)[unfolded parse_insert_def Let_def]
  obtain c1 where c1: "match_keyword s ''insert'' = Some c1"
    using d by (cases "match_keyword s ''insert''") simp_all
  note d = d[unfolded c1 option.case]
  obtain c2 where c2: "match_keyword c1 ''into'' = Some c2"
    using d by (cases "match_keyword c1 ''into''") simp_all
  note d = d[unfolded c2 option.case]
  have "\<exists>a b. parse_identifier c2 = Inr (a, b)"
    using d by (cases "parse_identifier c2") (simp_all)
  then obtain t c3 where t: "parse_identifier c2 = Inr (t, c3)" by blast
  note d = d[unfolded t sum.case prod.case]
  obtain c4 where c4: "match_keyword c3 ''values'' = Some c4"
    using d by (cases "match_keyword c3 ''values''") simp_all
  note d = d[unfolded c4 option.case]
  have par: "peek (skip_whitespace c4) = CHR ''(''" using d by (simp split: if_splits)
  note d = d[unfolded par simp_thms if_False]
  have "\<exists>a b. parse_values (tl (skip_whitespace c4)) [] = Inr (a, b)"
    using d by (cases "parse_values (tl (skip_whitespace c4)) []") (simp_all)
  then obtain vs c5 where vs: "parse_values (tl (skip_whitespace c4)) [] = Inr (vs, c5)" by blast
  have q: "q = q0\<lparr>table_name := Some t, query_type := QUERY_INSERT, query_values := vs\<rparr>"
    using d[unfolded vs] by (simp split: if_splits)
  have "cstring c2" using match_keyword_cstring[OF c1 assms(2)] match_keyword_cstring[OF c2] by simp
  then have "cstring c4" using ident.rest_cstring[OF t] match_keyword_cstring[OF c4] by simp
  then have "\<forall>v\<in>set vs. v \<noteq> [] \<and> cstring v" using vals.texts_cstring[OF vs] skip_tl_cstring by blast
  moreover have "vs \<noteq> []" using parse_values_consumes[OF vs] by auto
  moreover have "sql_identifier t" using parse_identifier_spec[OF t] by blast
  ultimately show ?thesis using q assms(3) by (simp add: query_ok_def)
qed

lemma free_query_condition_simps [simp]:
  "\<not> has_condition (free_query_condition q)" "table_name (free_query_condition q) = table_name q"
  "query_values (free_query_condition q) = query_values q" "query_type (free_query_condition q) = query_type q"
  by (simp_all add: free_query_condition_def)

section \<open>Printing and parsing\<close>

lemma identifier_char_not_space: "is_identifier_char c \<Longrightarrow> \<not> isspace c"
  using letter_not_space isspace_isdigit by (auto simp: is_identifier_char_def isalnum_def isspace_def)

lemma skip_whitespace_app: "list_all isspace sp \<Longrightarrow> \<not> isspace (peek r) \<Longrightarrow> skip_whitespace (sp @ r) = r"
  using dropWhile_app_stop[of isspace sp r] by (simp add: skip_whitespace_def)

lemma skip_whitespace_none: "\<not> isspace (peek r) \<Longrightarrow> skip_whitespace r = r"
  using skip_whitespace_app[of "[]" r] by simp

lemma match_keyword_app:
  assumes "list_all isspace sp" "map tolower w = map tolower kw" "cstring kw" "kw \<noteq> []" "\<not> isspace (hd kw)"
    and "\<not> is_identifier_char (peek r)"
  shows "match_keyword (sp @ w @ r) kw = Some r"
  using match_keyword_spec[OF assms(3-5), of "sp @ w @ r" r] assms(1,2,6) by blast

lemma parse_identifier_app:
  assumes "list_all isspace sp" "sql_identifier t" "\<not> is_identifier_char (peek r)"
  shows "parse_identifier (sp @ t @ r) = Inr (t, r)"
proof -
  from assms(2) obtain c t' where t: "t = c # t'" "is_identifier_char c" by (cases t) (auto simp: sql_identifier_def)
  have "skip_whitespace (sp @ t @ r) = t @ r"
    using assms(1) t identifier_char_not_space by (intro skip_whitespace_app) simp_all
  moreover have "takeWhile is_identifier_char (t @ r) = t" "dropWhile is_identifier_char (t @ r) = r"
    using assms(2,3) dropWhile_app_stop[of is_identifier_char t r] by (simp_all add: sql_identifier_def)
  ultimately show ?thesis using t by (simp add: parse_identifier_def)
qed

lemma parse_value_app:
  assumes "list_all isspace sp" "quotable v"
  shows "parse_value (sp @ show_value v @ r) = Inr (v, r)"
proof -
  define q where "q = (if SQUOTE \<notin> set v then SQUOTE else DQUOTE)"
  have q: "show_value v = q # v @ [q]" "q \<notin> set v" "q = SQUOTE \<or> q = DQUOTE" "q \<noteq> NUL"
    using assms(2) by (auto simp: show_value_def q_def quotable_def)
  then have "\<not> isspace q" by (auto simp: isspace_def)
  then have c: "skip_whitespace (sp @ show_value v @ r) = q # v @ q # r"
    using q(1) assms(1) by (simp add: skip_whitespace_app)
  have "list_all (\<lambda>c. c \<noteq> q) v" using q(2) by (auto simp: list_all_iff)
  then have "takeWhile (\<lambda>c. c \<noteq> q) (v @ q # r) = v" "dropWhile (\<lambda>c. c \<noteq> q) (v @ q # r) = q # r"
    using dropWhile_app_stop[of "\<lambda>c. c \<noteq> q" v "q # r"] by simp_all
  moreover have "v \<noteq> []" using assms(2) by (simp add: quotable_def)
  ultimately show ?thesis using c q(3) by (simp add: parse_value_def Let_def)
qed

lemma parse_values_app:
  assumes "list_all isspace sp" "vs \<noteq> []" "\<forall>v\<in>set vs. quotable v"
  shows "parse_values (sp @ show_values vs @ r) acc = Inr (acc @ vs, r)"
  using assms
proof (induction vs arbitrary: sp acc rule: show_values.induct)
  case (2 v)
  have "skip_whitespace ('')'' @ r) = '')'' @ r" by (rule skip_whitespace_none) (simp add: isspace_def)
  then show ?case using 2 parse_value_app[of sp v "'')'' @ r"] by (subst parse_values.simps) (simp add: Let_def)
next
  case (3 v w vs)
  let ?r = "'' '' @ show_values (w # vs) @ r"
  have "skip_whitespace ('','' @ ?r) = '','' @ ?r" by (rule skip_whitespace_none) (simp add: isspace_def)
  moreover have "parse_values ?r (acc @ [v]) = Inr ((acc @ [v]) @ w # vs, r)"
    using 3 by (intro "3.IH") (simp_all add: isspace_def)
  ultimately show ?case
    using 3 parse_value_app[of sp v "'','' @ ?r"] by (subst parse_values.simps) (simp add: Let_def)
qed simp

lemma statement_end_Nil [simp]: "statement_end []"
  by (simp add: statement_end_def skip_whitespace_def)

lemma parse_show_condition:
  assumes "sql_identifier c" "quotable v" "\<not> has_condition q"
  shows "parse_condition ('' WHERE '' @ c @ '' = '' @ show_value v) q =
    (q\<lparr>has_condition := True, condition := \<lparr>condition_column = Some c,
        condition_value = \<lparr>value_type = VALUE_STRING, raw = Some v\<rparr>\<rparr>\<rparr>, Inr [])"
proof -
  let ?r1 = "'' '' @ c @ '' = '' @ show_value v" and ?r2 = "'' = '' @ show_value v"
  have "map tolower ''WHERE'' = map tolower ''where''" by code_simp
  then have "match_keyword ('' '' @ ''WHERE'' @ ?r1) ''where'' = Some ?r1"
    by (intro match_keyword_app) (simp_all add: is_identifier_char_def char_class)
  moreover have "parse_identifier ?r1 = Inr (c, ?r2)"
    using assms(1) parse_identifier_app[of "'' ''" c ?r2]
    by (simp add: is_identifier_char_def char_class)
  moreover have "skip_whitespace ?r2 = ''= '' @ show_value v"
    using skip_whitespace_app[of "'' ''" "''= '' @ show_value v"] by (simp add: isspace_def)
  moreover have "parse_value ('' '' @ show_value v) = Inr (v, [])"
    using parse_value_app[of "'' ''" v "[]"] assms(2) by (simp add: isspace_def)
  ultimately show ?thesis by (simp add: parse_condition_def Let_def)
qed

lemma parse_show_select:
  assumes "sql_identifier t" "\<forall>(c, v)\<in>set_option cond. sql_identifier c \<and> quotable v"
  shows "parse_select (show_select t cond) zeroed_query = (select_query t cond, Inr ())"
proof -
  define r where "r = (case cond of None \<Rightarrow> [] | Some (c, v) \<Rightarrow> '' WHERE '' @ c @ '' = '' @ show_value v)"
  have low: "map tolower ''SELECT'' = map tolower ''select''" "map tolower ''FROM'' = map tolower ''from''" by code_simp+
  have "match_keyword ([] @ ''SELECT'' @ '' * FROM '' @ t @ r) ''select'' = Some ('' * FROM '' @ t @ r)"
    using low(1) by (intro match_keyword_app) (simp_all add: is_identifier_char_def char_class)
  moreover have "skip_whitespace ('' * FROM '' @ t @ r) = ''* FROM '' @ t @ r"
    using skip_whitespace_app[of "'' ''" "''* FROM '' @ t @ r"] by (simp add: char_class)
  moreover have "match_keyword ('' '' @ ''FROM'' @ '' '' @ t @ r) ''from'' = Some ('' '' @ t @ r)"
    using low(2) by (intro match_keyword_app) (simp_all add: is_identifier_char_def char_class)
  moreover have "\<not> is_identifier_char (peek r)"
    by (auto simp: r_def is_identifier_char_def char_class split: option.splits)
  then have "parse_identifier ('' '' @ t @ r) = Inr (t, r)"
    using assms(1) by (intro parse_identifier_app) (simp_all add: char_class)
  moreover have "parse_condition r (zeroed_query\<lparr>table_name := Some t\<rparr>) =
      ((select_query t cond)\<lparr>query_type := QUERY_INSERT\<rparr>, Inr [])"
  proof (cases cond)
    case None
    then show ?thesis
      by (simp add: r_def parse_condition_def match_keyword_def skip_whitespace_def select_query_def zeroed_query_def)
  next
    case (Some cv)
    then show ?thesis using assms(2) parse_show_condition
      by (cases cv) (simp add: r_def select_query_def zeroed_query_def)
  qed
  ultimately show ?thesis
    by (simp add: parse_select_def show_select_def r_def[symmetric] Let_def select_query_def split: option.splits prod.splits)
qed

lemma parse_show_insert:
  assumes "sql_identifier t" "vs \<noteq> []" "\<forall>v\<in>set vs. quotable v"
  shows "parse_insert (show_insert t vs) zeroed_query = (insert_query t vs, Inr ())"
proof -
  let ?r1 = "'' INTO '' @ t @ '' VALUES ('' @ show_values vs" and ?r2 = "'' '' @ t @ '' VALUES ('' @ show_values vs"
  let ?r3 = "'' VALUES ('' @ show_values vs" and ?r4 = "'' ('' @ show_values vs"
  have low: "map tolower ''INSERT'' = map tolower ''insert''" "map tolower ''INTO'' = map tolower ''into''"
    "map tolower ''VALUES'' = map tolower ''values''" by code_simp+
  have "match_keyword ([] @ ''INSERT'' @ ?r1) ''insert'' = Some ?r1"
    using low(1) by (intro match_keyword_app) (simp_all add: is_identifier_char_def char_class)
  moreover have "match_keyword ('' '' @ ''INTO'' @ ?r2) ''into'' = Some ?r2"
    using low(2) by (intro match_keyword_app) (simp_all add: is_identifier_char_def char_class)
  moreover have "parse_identifier ('' '' @ t @ ?r3) = Inr (t, ?r3)"
    using assms(1) by (intro parse_identifier_app) (simp_all add: is_identifier_char_def char_class)
  moreover have "match_keyword ('' '' @ ''VALUES'' @ ?r4) ''values'' = Some ?r4"
    using low(3) by (intro match_keyword_app) (simp_all add: is_identifier_char_def char_class)
  moreover have "skip_whitespace ?r4 = ''('' @ show_values vs"
    using skip_whitespace_app[of "'' ''" "''('' @ show_values vs"] by (simp add: char_class)
  moreover have "parse_values (show_values vs) [] = Inr (vs, [])"
    using parse_values_app[of "[]" vs "[]" "[]"] assms(2,3) by simp
  ultimately show ?thesis
    by (simp add: parse_insert_def show_insert_def Let_def insert_query_def)
qed

section \<open>Properties of the parser\<close>

lemma tokenize_cases: "tokenize_loop s = (if list_all isspace s then fail ''sql must not be empty'' else Inr ())"
  by (induction s) auto

lemma zeroed_query_freed: "free_query_condition (free_query_values (zeroed_query\<lparr>table_name := None\<rparr>)) = zeroed_query"
  by (simp add: free_query_condition_def free_query_values_def zeroed_query_def)

lemma parse_sql_text_accepts:
  assumes "parse_sql_text (Some sql) (Some q0) = (Some q, Inr ())" "cstring sql"
  shows "query_ok q"
proof -
  obtain q1 r1 where sel: "parse_select sql zeroed_query = (q1, r1)" by (cases "parse_select sql zeroed_query")
  define q2 where "q2 = free_query_condition (free_query_values (q1\<lparr>table_name := None\<rparr>))"
  obtain q3 r3 where ins: "parse_insert sql q2 = (q3, r3)" by (cases "parse_insert sql q2")
  have "\<not> has_condition q2" by (simp add: q2_def)
  moreover have "r1 = Inr () \<and> q = q1 \<or> r3 = Inr () \<and> q = q3"
    using assms(1) sel ins by (auto simp: parse_sql_text_def q2_def Let_def split: if_splits sum.splits)
  ultimately show ?thesis
    using parse_select_ok[of sql q1] parse_insert_ok[of sql q2 q3] sel ins assms(2) by auto
qed

lemma parse_sql_text_rejects:
  assumes "parse_sql_text (Some sql) (Some q0) = (Some q, Inl e)"
  shows "if list_all isspace sql then q = q0 \<and> e = sql_set_error 0 0 ''sql must not be empty''
    else peek sql = NUL \<and> e = sql_set_error 0 0 ''sql must not be empty'' \<or>
      e = sql_set_error 0 0 ''unsupported SQL statement'' \<and> table_name q = None \<and> query_values q = [] \<and> \<not> has_condition q"
  using assms by (cases sql)
    (auto simp: parse_sql_text_def tokenize_sql_def tokenize_cases Let_def free_query_values_def split: if_splits sum.splits prod.splits)

lemma parse_sql_text_blank: "list_all isspace sql \<Longrightarrow> snd (parse_sql_text (Some sql) (Some q0)) \<noteq> Inr ()"
  by (cases sql) (auto simp: parse_sql_text_def tokenize_sql_def tokenize_cases)

lemma parse_sql_text_object: "fst (parse_sql_text (Some sql) (Some q0)) \<noteq> None"
  by (auto simp: parse_sql_text_def Let_def split: sum.splits prod.splits)

text \<open>
  C18. Both outcomes of parsing a text. Every statement the parser accepts gives a well-formed query: a table
  name that is a non-empty identifier; for an INSERT at least one value and no condition, for a SELECT no
  values and, when there is a WHERE clause, an identifier and a value; no value is empty or holds a NUL. A
  blank text is reported as empty and leaves the caller's query as it was; any other rejected text is
  reported as unsupported, whatever the first mistake in it was, and leaves a query with no name, no values
  and no condition.
\<close>

theorem parse_sql_text_sound:
  assumes "cstring sql"
  shows "case parse_sql_text (Some sql) (Some q0) of
      (None, _) \<Rightarrow> False
    | (Some q, Inr _) \<Rightarrow> query_ok q \<and> \<not> list_all isspace sql
    | (Some q, Inl e) \<Rightarrow>
        if list_all isspace sql then q = q0 \<and> e = sql_set_error 0 0 ''sql must not be empty''
        else e = sql_set_error 0 0 ''unsupported SQL statement'' \<and>
          table_name q = None \<and> query_values q = [] \<and> \<not> has_condition q"
proof -
  obtain q r where p: "parse_sql_text (Some sql) (Some q0) = (Some q, r)"
    using parse_sql_text_object[of sql q0] by (cases "parse_sql_text (Some sql) (Some q0)") auto
  show ?thesis
  proof (cases r)
    case (Inl e)
    have "peek sql \<noteq> NUL" if "\<not> list_all isspace sql" using that assms by (cases sql) (auto simp: peek_def cstring_def)
    then show ?thesis using parse_sql_text_rejects[of sql q0 q e] p Inl by (auto split: if_splits)
  next
    case (Inr u)
    then show ?thesis using parse_sql_text_accepts[of sql q0 q] parse_sql_text_blank[of sql q0] p assms by auto
  qed
qed

theorem parse_sql_text_sound_witness:
  "query_ok (insert_query ''t'' [''1'', '' x'']) \<and>
   parse_sql_text (Some ''insert INTO t values (1, ' x');'') (Some zeroed_query) = (Some (insert_query ''t'' [''1'', '' x'']), Inr ()) \<and>
   (\<exists>q. parse_sql_text (Some ''DELETE FROM t'') (Some (insert_query ''u'' [''2''])) = (Some q, fail ''unsupported SQL statement'') \<and>
      table_name q = None \<and> query_values q = [])"
proof -
  have p: "parse_sql_text (Some ''insert INTO t values (1, ' x');'') (Some zeroed_query) = (Some (insert_query ''t'' [''1'', '' x'']), Inr ())"
    "parse_sql_text (Some ''DELETE FROM t'') (Some (insert_query ''u'' [''2''])) = (Some zeroed_query, fail ''unsupported SQL statement'')"
    by code_simp+
  have c: "cstring ''insert INTO t values (1, ' x');''" "cstring ''DELETE FROM t''" "\<not> list_all isspace ''DELETE FROM t''" by code_simp+
  show ?thesis
    using p parse_sql_text_sound[OF c(1), of zeroed_query] parse_sql_text_sound[OF c(2), of "insert_query ''u'' [''2'']"] c(3) by simp
qed

lemma parse_printed:
  assumes "sql_identifier t" "\<forall>(c, v)\<in>set_option cond. sql_identifier c \<and> quotable v"
    and "vs \<noteq> []" "\<forall>v\<in>set vs. quotable v"
  shows "parse_sql_text (Some (show_select t cond)) (Some q0) = (Some (select_query t cond), Inr ()) \<and>
    parse_sql_text (Some (show_insert t vs)) (Some q0) = (Some (insert_query t vs), Inr ())"
proof
  have "peek (show_select t cond) = CHR ''S''" "\<not> list_all isspace (show_select t cond)"
    by (simp_all add: show_select_def isspace_def)
  then show "parse_sql_text (Some (show_select t cond)) (Some q0) = (Some (select_query t cond), Inr ())"
    using parse_show_select[OF assms(1,2)] by (simp add: parse_sql_text_def tokenize_sql_def tokenize_cases)
  have "peek (show_insert t vs) = CHR ''I''" "\<not> list_all isspace (show_insert t vs)"
    by (simp_all add: show_insert_def isspace_def)
  moreover have "tolower (CHR ''I'') \<noteq> tolower (CHR ''s'')" by code_simp
  then have "match_keyword (show_insert t vs) ''select'' = None"
    by (simp add: match_keyword_def show_insert_def skip_whitespace_def isspace_def)
  then have "parse_select (show_insert t vs) zeroed_query = (zeroed_query, fail ''expected SELECT'')"
    by (simp add: parse_select_def)
  ultimately show "parse_sql_text (Some (show_insert t vs)) (Some q0) = (Some (insert_query t vs), Inr ())"
    using parse_show_insert[OF assms(1,3,4)]
    by (simp add: parse_sql_text_def tokenize_sql_def tokenize_cases zeroed_query_freed)
qed

text \<open>
  C10. Printing a SELECT or an INSERT and parsing the text gives the query back, for identifiers and
  for every value that avoids one of the two quote characters.
\<close>

theorem parse_print_round_trip:
  assumes "sql_identifier t" "\<forall>(c, v)\<in>set_option cond. sql_identifier c \<and> quotable v"
    and "vs \<noteq> []" "\<forall>v\<in>set vs. quotable v"
  shows "parse_sql_text (Some (show_select t cond)) (Some q0) = (Some (select_query t cond), Inr ()) \<and>
    parse_sql_text (Some (show_insert t vs)) (Some q0) = (Some (insert_query t vs), Inr ())"
  using parse_printed[OF assms] .

theorem parse_print_round_trip_witness:
  "show_insert ''users'' [''7'', ''O'Hara''] = ''INSERT INTO users VALUES ('7', '' @ [DQUOTE] @ ''O'Hara'' @ [DQUOTE] @ '')'' \<and>
   parse_sql_text (Some (show_insert ''users'' [''7'', ''O'Hara''])) (Some zeroed_query)
     = (Some (insert_query ''users'' [''7'', ''O'Hara'']), Inr ())"
proof
  show "show_insert ''users'' [''7'', ''O'Hara''] = ''INSERT INTO users VALUES ('7', '' @ [DQUOTE] @ ''O'Hara'' @ [DQUOTE] @ '')''"
    by code_simp
  have "sql_identifier ''users''" "\<forall>v\<in>set [''7'', ''O'Hara'']. quotable v"
    by (simp_all add: sql_identifier_def is_identifier_char_def char_class quotable_def)
  then show "parse_sql_text (Some (show_insert ''users'' [''7'', ''O'Hara''])) (Some zeroed_query)
     = (Some (insert_query ''users'' [''7'', ''O'Hara'']), Inr ())"
    using parse_print_round_trip[of "''users''" None "[''7'', ''O'Hara'']" zeroed_query] by simp
qed

end
