(* ===== verification/Bptree.thy ===== *)
theory Bptree
  imports Common
begin

text \<open>
  \<^verbatim>\<open>src/index/bptree.c\<close>: the B+ tree that indexes the primary key of a table.

  Nodes live in a pool of cells addressed by natural numbers; a pointer is an \<open>addr option\<close>, and
  dereferencing NULL or a cell that was never allocated or was freed is \<open>None\<close>, as is an access
  outside one of the fixed-size arrays of a node. \<open>None\<close> therefore stands for undefined behaviour
  and, in the functions defined with \<open>partial_function\<close>, for a loop that does not end: a theorem
  that one of these functions returns \<open>Some\<close> is a theorem that the C function terminates and
  makes no invalid access. \<open>limit\<close> is the number of nodes the allocator grants before \<open>calloc\<close>
  returns NULL.
\<close>

section \<open>Nodes and the pool they live in\<close>

definition BPTREE_ORDER :: nat where
  "BPTREE_ORDER = 100"

definition BPTREE_MAX_KEYS :: nat where
  "BPTREE_MAX_KEYS = BPTREE_ORDER - 1"

type_synonym addr = nat

record BPTreeNode =
  is_leaf :: bool
  key_count :: nat
  keys :: "int list"
  children :: "addr option list"
  row_indexes :: "int list"
  next_node :: "addr option"

record node_pool =
  cells :: "addr \<Rightarrow> BPTreeNode option"
  brk :: addr
  limit :: nat

record BPTree =
  root :: "addr option"
  pool :: node_pool

definition zeroed_node :: "bool \<Rightarrow> BPTreeNode" where
  "zeroed_node leaf =
     \<lparr>is_leaf = leaf, key_count = 0, keys = replicate BPTREE_MAX_KEYS 0,
      children = replicate (BPTREE_ORDER + 1) None, row_indexes = replicate BPTREE_MAX_KEYS 0,
      next_node = None\<rparr>"

definition bptree_node_create :: "bool \<Rightarrow> node_pool \<Rightarrow> node_pool \<times> addr result" where
  "bptree_node_create leaf p =
     (if brk p < limit p
      then (p\<lparr>cells := (cells p)(brk p \<mapsto> zeroed_node leaf), brk := Suc (brk p)\<rparr>, Inr (brk p))
      else (p, fail ''failed to allocate B+ tree node''))"

definition write_cell :: "addr \<Rightarrow> BPTreeNode \<Rightarrow> node_pool \<Rightarrow> node_pool" where
  "write_cell a n p = p\<lparr>cells := (cells p)(a \<mapsto> n)\<rparr>"

definition free_cell :: "addr \<Rightarrow> node_pool \<Rightarrow> node_pool option" where
  "free_cell a p = (case cells p a of None \<Rightarrow> None | Some _ \<Rightarrow> Some (p\<lparr>cells := (cells p)(a := None)\<rparr>))"

section \<open>Destroying a tree\<close>

text \<open>The pending work of the recursion of \<open>bptree_node_destroy\<close>, innermost call first.\<close>

datatype destroy_task = Destroy "addr option" | Free addr

partial_function (option) bptree_node_destroy :: "node_pool \<Rightarrow> destroy_task list \<Rightarrow> node_pool option" where
  "bptree_node_destroy p tasks =
     (case tasks of
        [] \<Rightarrow> Some p
      | Free a # ts \<Rightarrow> do { p' \<leftarrow> free_cell a p; bptree_node_destroy p' ts }
      | Destroy None # ts \<Rightarrow> bptree_node_destroy p ts
      | Destroy (Some a) # ts \<Rightarrow> do {
          node \<leftarrow> cells p a;
          if is_leaf node then bptree_node_destroy p (Free a # ts)
          else if key_count node < length (children node)
          then bptree_node_destroy p (map Destroy (take (Suc (key_count node)) (children node)) @ Free a # ts)
          else None })"

definition bptree_destroy :: "BPTree option \<Rightarrow> node_pool option" where
  "bptree_destroy tree =
     (case tree of
        None \<Rightarrow> Some \<lparr>cells = Map.empty, brk = 0, limit = 0\<rparr>
      | Some t \<Rightarrow> bptree_node_destroy (pool t) [Destroy (root t)])"

section \<open>Searching inside a node\<close>

function bptree_child_loop :: "BPTreeNode \<Rightarrow> int \<Rightarrow> nat \<Rightarrow> nat option" where
  "bptree_child_loop node key index =
     (if index < key_count node
      then do { k \<leftarrow> arr_get (keys node) index;
                if key \<ge> k then bptree_child_loop node key (Suc index) else Some index }
      else Some index)"
  by pat_completeness auto
termination
  by (relation "measure (\<lambda>(node, key, index). key_count node - index)") auto

declare bptree_child_loop.simps [simp del]

definition bptree_child_index :: "BPTreeNode \<Rightarrow> int \<Rightarrow> nat option" where
  "bptree_child_index node key = bptree_child_loop node key 0"

function bptree_leaf_loop :: "BPTreeNode \<Rightarrow> int \<Rightarrow> nat \<Rightarrow> nat \<Rightarrow> (bool \<times> nat) option" where
  "bptree_leaf_loop leaf key low high =
     (if low < high
      then (let mid = low + (high - low) div 2 in
            do { k \<leftarrow> arr_get (keys leaf) mid;
                 if k = key then Some (True, mid)
                 else if k < key then bptree_leaf_loop leaf key (mid + 1) high
                 else bptree_leaf_loop leaf key low mid })
      else Some (False, low))"
  by pat_completeness auto
termination
  by (relation "measure (\<lambda>(leaf, key, low, high). high - low)") auto

declare bptree_leaf_loop.simps [simp del]

definition bptree_leaf_search :: "BPTreeNode \<Rightarrow> int \<Rightarrow> (bool \<times> nat) option" where
  "bptree_leaf_search leaf key = bptree_leaf_loop leaf key 0 (key_count leaf)"

section \<open>Insertion\<close>

text \<open>
  \<open>Inr None\<close>: inserted, no split. \<open>Inr (Some (k, a))\<close>: the node was split, \<open>k\<close> is the promoted key
  and \<open>a\<close> the new right sibling.
\<close>

type_synonym insert_result = "(int \<times> addr) option result"

definition bptree_insert_into_leaf ::
  "node_pool \<Rightarrow> addr \<Rightarrow> int \<Rightarrow> int \<Rightarrow> (node_pool \<times> insert_result) option" where
  "bptree_insert_into_leaf p a key row_index = do {
     leaf \<leftarrow> cells p a;
     (found, slot) \<leftarrow> bptree_leaf_search leaf key;
     if found then Some (p, fail (''duplicate id: '' @ show_int key))
     else if key_count leaf < BPTREE_MAX_KEYS
     then do {
       ks \<leftarrow> shift_up (keys leaf) (key_count leaf) slot;
       rs \<leftarrow> shift_up (row_indexes leaf) (key_count leaf) slot;
       ks \<leftarrow> arr_set ks slot key;
       rs \<leftarrow> arr_set rs slot row_index;
       Some (write_cell a (leaf\<lparr>keys := ks, row_indexes := rs, key_count := key_count leaf + 1\<rparr>) p, Inr None)
     }
     else do {
       temp_keys \<leftarrow> blit (replicate BPTREE_ORDER 0) 0 (keys leaf) 0 slot;
       temp_rows \<leftarrow> blit (replicate BPTREE_ORDER 0) 0 (row_indexes leaf) 0 slot;
       temp_keys \<leftarrow> arr_set temp_keys slot key;
       temp_rows \<leftarrow> arr_set temp_rows slot row_index;
       temp_keys \<leftarrow> blit temp_keys (slot + 1) (keys leaf) slot (key_count leaf - slot);
       temp_rows \<leftarrow> blit temp_rows (slot + 1) (row_indexes leaf) slot (key_count leaf - slot);
       (case bptree_node_create True p of
          (p', Inl e) \<Rightarrow> Some (p', Inl e)
        | (p', Inr right_addr) \<Rightarrow> do {
            right \<leftarrow> cells p' right_addr;
            let split_index = BPTREE_ORDER div 2;
            let left_count = split_index;
            let right_count = BPTREE_ORDER - split_index;
            lk \<leftarrow> blit (keys leaf) 0 temp_keys 0 left_count;
            lr \<leftarrow> blit (row_indexes leaf) 0 temp_rows 0 left_count;
            rk \<leftarrow> blit (keys right) 0 temp_keys split_index right_count;
            rr \<leftarrow> blit (row_indexes right) 0 temp_rows split_index right_count;
            promoted_key \<leftarrow> arr_get rk 0;
            let right = right\<lparr>key_count := right_count, keys := rk, row_indexes := rr,
                              next_node := next_node leaf\<rparr>;
            let leaf = leaf\<lparr>key_count := left_count, keys := lk, row_indexes := lr,
                            next_node := Some right_addr\<rparr>;
            Some (write_cell a leaf (write_cell right_addr right p'), Inr (Some (promoted_key, right_addr)))
          })
     }
   }"

text \<open>The part of \<open>bptree_insert_recursive\<close> after the recursive call on the child has returned.\<close>

definition bptree_absorb_split ::
  "node_pool \<Rightarrow> addr \<Rightarrow> nat \<Rightarrow> insert_result \<Rightarrow> (node_pool \<times> insert_result) option" where
  "bptree_absorb_split p a child_index child_result =
     (case child_result of
        Inl e \<Rightarrow> Some (p, Inl e)
      | Inr None \<Rightarrow> Some (p, Inr None)
      | Inr (Some (child_promoted_key, child_split_right)) \<Rightarrow> do {
          node \<leftarrow> cells p a;
          if key_count node < BPTREE_MAX_KEYS
          then do {
            ks \<leftarrow> shift_up (keys node) (key_count node) child_index;
            cs \<leftarrow> shift_up (children node) (key_count node + 1) (child_index + 1);
            ks \<leftarrow> arr_set ks child_index child_promoted_key;
            cs \<leftarrow> arr_set cs (child_index + 1) (Some child_split_right);
            Some (write_cell a (node\<lparr>keys := ks, children := cs, key_count := key_count node + 1\<rparr>) p, Inr None)
          }
          else do {
            temp_keys \<leftarrow> blit (replicate BPTREE_ORDER 0) 0 (keys node) 0 child_index;
            temp_keys \<leftarrow> arr_set temp_keys child_index child_promoted_key;
            temp_keys \<leftarrow> blit temp_keys (child_index + 1) (keys node) child_index (key_count node - child_index);
            temp_children \<leftarrow> blit (replicate (BPTREE_ORDER + 1) None) 0 (children node) 0 (child_index + 1);
            temp_children \<leftarrow> arr_set temp_children (child_index + 1) (Some child_split_right);
            temp_children \<leftarrow> blit temp_children (child_index + 2) (children node) (child_index + 1)
                               (key_count node - child_index);
            (case bptree_node_create False p of
               (p', Inl e) \<Rightarrow> Some (p', Inl e)
             | (p', Inr right_addr) \<Rightarrow> do {
                 right \<leftarrow> cells p' right_addr;
                 let split_index = BPTREE_ORDER div 2;
                 promoted_key \<leftarrow> arr_get temp_keys split_index;
                 lk \<leftarrow> blit (keys node) 0 temp_keys 0 split_index;
                 lc \<leftarrow> blit (children node) 0 temp_children 0 split_index;
                 c \<leftarrow> arr_get temp_children split_index;
                 lc \<leftarrow> arr_set lc split_index c;
                 let right_count = BPTREE_ORDER - split_index - 1;
                 rk \<leftarrow> blit (keys right) 0 temp_keys (split_index + 1) right_count;
                 rc \<leftarrow> blit (children right) 0 temp_children (split_index + 1) right_count;
                 c \<leftarrow> arr_get temp_children BPTREE_ORDER;
                 rc \<leftarrow> arr_set rc right_count c;
                 let node = node\<lparr>key_count := split_index, keys := lk, children := lc\<rparr>;
                 let right = right\<lparr>key_count := right_count, keys := rk, children := rc\<rparr>;
                 Some (write_cell a node (write_cell right_addr right p'), Inr (Some (promoted_key, right_addr)))
               })
          }
        })"

partial_function (option) bptree_insert_recursive ::
  "node_pool \<Rightarrow> addr \<Rightarrow> int \<Rightarrow> int \<Rightarrow> (node_pool \<times> insert_result) option" where
  "bptree_insert_recursive p a key row_index = do {
     node \<leftarrow> cells p a;
     if is_leaf node then bptree_insert_into_leaf p a key row_index
     else do {
       child_index \<leftarrow> bptree_child_index node key;
       child_ptr \<leftarrow> arr_get (children node) child_index;
       child \<leftarrow> child_ptr;
       (p', child_result) \<leftarrow> bptree_insert_recursive p child key row_index;
       bptree_absorb_split p' a child_index child_result
     }
   }"

text \<open>\<open>granted\<close>: whether \<open>calloc\<close> grants the tree structure itself.\<close>

definition bptree_create :: "bool \<Rightarrow> nat \<Rightarrow> BPTree option" where
  "bptree_create granted lim =
     (if granted then Some \<lparr>root = None, pool = \<lparr>cells = Map.empty, brk = 0, limit = lim\<rparr>\<rparr> else None)"

definition bptree_insert :: "BPTree option \<Rightarrow> int \<Rightarrow> int \<Rightarrow> (BPTree option \<times> unit result) option" where
  "bptree_insert tree key row_index =
     (case tree of
        None \<Rightarrow> Some (None, fail ''tree must not be null'')
      | Some t \<Rightarrow>
          (case root t of
             None \<Rightarrow>
               (case bptree_node_create True (pool t) of
                  (p, Inl e) \<Rightarrow> Some (Some (t\<lparr>pool := p\<rparr>), Inl e)
                | (p, Inr a) \<Rightarrow> do {
                    node \<leftarrow> cells p a;
                    ks \<leftarrow> arr_set (keys node) 0 key;
                    rs \<leftarrow> arr_set (row_indexes node) 0 row_index;
                    Some (Some (t\<lparr>root := Some a,
                                  pool := write_cell a (node\<lparr>keys := ks, row_indexes := rs, key_count := 1\<rparr>) p\<rparr>),
                          Inr ()) })
           | Some r \<Rightarrow> do {
               (p, res) \<leftarrow> bptree_insert_recursive (pool t) r key row_index;
               (case res of
                  Inl e \<Rightarrow> Some (Some (t\<lparr>pool := p\<rparr>), Inl e)
                | Inr None \<Rightarrow> Some (Some (t\<lparr>pool := p\<rparr>), Inr ())
                | Inr (Some (promoted_key, split_right)) \<Rightarrow>
                    (case bptree_node_create False p of
                       (p', Inl e) \<Rightarrow> Some (Some (t\<lparr>pool := p'\<rparr>), Inl e)
                     | (p', Inr new_root) \<Rightarrow> do {
                         node \<leftarrow> cells p' new_root;
                         ks \<leftarrow> arr_set (keys node) 0 promoted_key;
                         cs \<leftarrow> arr_set (children node) 0 (Some r);
                         cs \<leftarrow> arr_set cs 1 (Some split_right);
                         Some (Some (t\<lparr>root := Some new_root,
                                       pool := write_cell new_root (node\<lparr>keys := ks, children := cs, key_count := 1\<rparr>) p'\<rparr>),
                               Inr ()) }))
             }))"

section \<open>Search and enumeration\<close>

partial_function (option) bptree_descend :: "node_pool \<Rightarrow> addr \<Rightarrow> int \<Rightarrow> BPTreeNode option" where
  "bptree_descend p a key = do {
     node \<leftarrow> cells p a;
     if is_leaf node then Some node
     else do {
       i \<leftarrow> bptree_child_index node key;
       child_ptr \<leftarrow> arr_get (children node) i;
       child \<leftarrow> child_ptr;
       bptree_descend p child key
     }
   }"

text \<open>The result is the return value and what \<open>*row_index\<close> holds afterwards.\<close>

definition bptree_search :: "BPTree option \<Rightarrow> int \<Rightarrow> (bool \<times> int) option" where
  "bptree_search tree key =
     (case Option.bind tree root of
        None \<Rightarrow> Some (False, -1)
      | Some r \<Rightarrow> do {
          leaf \<leftarrow> bptree_descend (pool (the tree)) r key;
          (found, slot) \<leftarrow> bptree_leaf_search leaf key;
          if \<not> found then Some (False, -1)
          else do { row \<leftarrow> arr_get (row_indexes leaf) slot; Some (True, row) }
        })"

partial_function (option) bptree_leftmost :: "node_pool \<Rightarrow> addr \<Rightarrow> addr option" where
  "bptree_leftmost p a = do {
     node \<leftarrow> cells p a;
     if is_leaf node then Some a
     else do { child_ptr \<leftarrow> arr_get (children node) 0; child \<leftarrow> child_ptr; bptree_leftmost p child }
   }"

text \<open>
  The inner loop of \<open>bptree_collect_keys\<close> over one leaf: \<open>Inl\<close> when the capacity was reached, with
  what was written so far; otherwise everything written.
\<close>

fun collect_leaf :: "int list \<Rightarrow> int \<Rightarrow> int list \<Rightarrow> int list + int list" where
  "collect_leaf [] capacity out = Inr out"
| "collect_leaf (k # ks) capacity out =
     (if int (length out) \<ge> capacity then Inl out else collect_leaf ks capacity (out @ [k]))"

partial_function (option) collect_chain ::
  "node_pool \<Rightarrow> addr option \<Rightarrow> int \<Rightarrow> int list \<Rightarrow> (int list + int list) option" where
  "collect_chain p ptr capacity out =
     (case ptr of
        None \<Rightarrow> Some (Inr out)
      | Some a \<Rightarrow> do {
          node \<leftarrow> cells p a;
          if key_count node \<le> length (keys node)
          then (case collect_leaf (take (key_count node) (keys node)) capacity out of
                  Inl out' \<Rightarrow> Some (Inl out')
                | Inr out' \<Rightarrow> collect_chain p (next_node node) capacity out')
          else None })"

text \<open>The result is the return value, the keys written to the array, and \<open>*count\<close>.\<close>

definition bptree_collect_keys :: "BPTree option \<Rightarrow> int \<Rightarrow> (bool \<times> int list \<times> nat) option" where
  "bptree_collect_keys tree capacity =
     (case Option.bind tree root of
        None \<Rightarrow> Some (True, [], 0)
      | Some r \<Rightarrow> do {
          first \<leftarrow> bptree_leftmost (pool (the tree)) r;
          out \<leftarrow> collect_chain (pool (the tree)) (Some first) capacity [];
          (case out of
             Inl written \<Rightarrow> Some (False, written, 0)
           | Inr written \<Rightarrow> Some (True, written, length written))
        })"

section \<open>Code equations\<close>

text \<open>
  The loops above may run forever, so they have no code equations of their own; these evaluate
  a step only when the cell is known.
\<close>

lemma bptree_descend_code [code]:
  "bptree_descend p a key =
     (case cells p a of
        None \<Rightarrow> None
      | Some node \<Rightarrow>
          if is_leaf node then Some node
          else do { i \<leftarrow> bptree_child_index node key; child_ptr \<leftarrow> arr_get (children node) i; child \<leftarrow> child_ptr; bptree_descend p child key })"
  by (subst bptree_descend.simps) (simp split: option.splits)

lemma bptree_insert_recursive_code [code]:
  "bptree_insert_recursive p a key row_index =
     (case cells p a of
        None \<Rightarrow> None
      | Some node \<Rightarrow>
          if is_leaf node then bptree_insert_into_leaf p a key row_index
          else do {
            child_index \<leftarrow> bptree_child_index node key;
            child_ptr \<leftarrow> arr_get (children node) child_index;
            child \<leftarrow> child_ptr;
            (p', child_result) \<leftarrow> bptree_insert_recursive p child key row_index;
            bptree_absorb_split p' a child_index child_result })"
  by (subst bptree_insert_recursive.simps) (simp split: option.splits)

lemma bptree_leftmost_code [code]:
  "bptree_leftmost p a =
     (case cells p a of
        None \<Rightarrow> None
      | Some node \<Rightarrow>
          if is_leaf node then Some a
          else do { child_ptr \<leftarrow> arr_get (children node) 0; child \<leftarrow> child_ptr; bptree_leftmost p child })"
  by (subst bptree_leftmost.simps) (simp split: option.splits)

declare collect_chain.simps [code] bptree_node_destroy.simps [code]

end
