(* ===== verification/Bptree_Tree.thy ===== *)
theory Bptree_Tree
  imports Bptree
begin

text \<open>
  The abstract view of the node pool: a B+ tree as a value, each node annotated with the address
  of its cell. \<open>ordered\<close> is the search order between separators, \<open>balanced\<close> the common depth of
  the leaves, \<open>sized\<close> the occupancy bounds, \<open>represents\<close> the agreement with the cells, \<open>linked\<close> the
  chain of \<open>next\<close> pointers through the leaves.
\<close>

section \<open>Annotated trees\<close>

datatype ptree = PLeaf addr "(int \<times> int) list" | PNode addr "int list" "ptree list"

primrec ptree_addr :: "ptree \<Rightarrow> addr" where
  "ptree_addr (PLeaf a es) = a"
| "ptree_addr (PNode a ks ts) = a"

fun entries :: "ptree \<Rightarrow> (int \<times> int) list" where
  "entries (PLeaf a es) = es"
| "entries (PNode a ks ts) = concat (map entries ts)"

fun addrs :: "ptree \<Rightarrow> addr list" where
  "addrs (PLeaf a es) = [a]"
| "addrs (PNode a ks ts) = a # concat (map addrs ts)"

fun leaf_addrs :: "ptree \<Rightarrow> addr list" where
  "leaf_addrs (PLeaf a es) = [a]"
| "leaf_addrs (PNode a ks ts) = concat (map leaf_addrs ts)"

text \<open>The keys of \<open>t\<close> lie in \<open>[lo, hi)\<close>, and every child of a node lies between its separators.\<close>

fun ordered :: "int \<Rightarrow> ptree \<Rightarrow> int \<Rightarrow> bool"
  and ordered_list :: "int \<Rightarrow> int list \<Rightarrow> ptree list \<Rightarrow> int \<Rightarrow> bool" where
  "ordered lo (PLeaf a es) hi \<longleftrightarrow>
     lo \<le> hi \<and> sorted_wrt (<) (map fst es) \<and> (\<forall>e\<in>set es. lo \<le> fst e \<and> fst e < hi)"
| "ordered lo (PNode a ks ts) hi \<longleftrightarrow> ordered_list lo ks ts hi"
| "ordered_list lo [] [t] hi \<longleftrightarrow> ordered lo t hi"
| "ordered_list lo (k # ks) (t # ts) hi \<longleftrightarrow> ordered lo t k \<and> ordered_list k ks ts hi"
| "ordered_list lo [] [] hi \<longleftrightarrow> False"
| "ordered_list lo [] (t # u # ts) hi \<longleftrightarrow> False"
| "ordered_list lo (k # ks) [] hi \<longleftrightarrow> False"

fun balanced :: "nat \<Rightarrow> ptree \<Rightarrow> bool" where
  "balanced n (PLeaf a es) \<longleftrightarrow> n = 0"
| "balanced n (PNode a ks ts) \<longleftrightarrow> n \<noteq> 0 \<and> (\<forall>t\<in>set ts. balanced (n - 1) t)"

definition min_leaf :: nat where
  "min_leaf = BPTREE_ORDER div 2"

definition min_inner :: nat where
  "min_inner = BPTREE_ORDER - BPTREE_ORDER div 2 - 1"

fun sized :: "bool \<Rightarrow> ptree \<Rightarrow> bool" where
  "sized is_root (PLeaf a es) \<longleftrightarrow>
     (if is_root then 1 else min_leaf) \<le> length es \<and> length es \<le> BPTREE_MAX_KEYS"
| "sized is_root (PNode a ks ts) \<longleftrightarrow>
     (if is_root then 1 else min_inner) \<le> length ks \<and> length ks \<le> BPTREE_MAX_KEYS \<and>
     length ts = Suc (length ks) \<and> (\<forall>t\<in>set ts. sized False t)"

text \<open>Insertion of a new key into a sorted list of entries.\<close>

definition entry_insert :: "int \<Rightarrow> int \<Rightarrow> (int \<times> int) list \<Rightarrow> (int \<times> int) list" where
  "entry_insert k r es = filter (\<lambda>e. fst e < k) es @ (k, r) # filter (\<lambda>e. k < fst e) es"

section \<open>Agreement with the cells\<close>

definition node_arrays :: "BPTreeNode \<Rightarrow> bool" where
  "node_arrays n \<longleftrightarrow> length (keys n) = BPTREE_MAX_KEYS \<and> length (row_indexes n) = BPTREE_MAX_KEYS \<and>
     length (children n) = BPTREE_ORDER + 1"

definition leaf_image :: "BPTreeNode \<Rightarrow> (int \<times> int) list \<Rightarrow> bool" where
  "leaf_image n es \<longleftrightarrow> node_arrays n \<and> is_leaf n \<and> key_count n = length es \<and>
     length es \<le> BPTREE_MAX_KEYS \<and>
     take (length es) (keys n) = map fst es \<and> take (length es) (row_indexes n) = map snd es"

definition inner_image :: "BPTreeNode \<Rightarrow> int list \<Rightarrow> addr list \<Rightarrow> bool" where
  "inner_image n ks as \<longleftrightarrow> node_arrays n \<and> \<not> is_leaf n \<and> key_count n = length ks \<and>
     length ks \<le> BPTREE_MAX_KEYS \<and> length as = Suc (length ks) \<and>
     take (length ks) (keys n) = ks \<and> take (Suc (length ks)) (children n) = map Some as"

fun represents :: "(addr \<Rightarrow> BPTreeNode option) \<Rightarrow> ptree \<Rightarrow> bool" where
  "represents c (PLeaf a es) \<longleftrightarrow> (\<exists>n. c a = Some n \<and> leaf_image n es)"
| "represents c (PNode a ks ts) \<longleftrightarrow>
     (\<exists>n. c a = Some n \<and> inner_image n ks (map ptree_addr ts)) \<and> (\<forall>t\<in>set ts. represents c t)"

text \<open>The cells \<open>as\<close> are chained by \<open>next_node\<close>, the last one pointing to \<open>z\<close>.\<close>

definition head_or :: "addr list \<Rightarrow> addr option \<Rightarrow> addr option" where
  "head_or as z = (case as of [] \<Rightarrow> z | a # _ \<Rightarrow> Some a)"

fun linked :: "(addr \<Rightarrow> BPTreeNode option) \<Rightarrow> addr list \<Rightarrow> addr option \<Rightarrow> bool" where
  "linked c [] z \<longleftrightarrow> True"
| "linked c (a # as) z \<longleftrightarrow> (\<exists>n. c a = Some n \<and> next_node n = head_or as z) \<and> linked c as z"

section \<open>Order\<close>

lemma ordered_list_length: "ordered_list lo ks ts hi \<Longrightarrow> length ts = Suc (length ks)"
proof (induction ks arbitrary: lo ts)
  case Nil
  then show ?case by (cases ts rule: remdups_adj.cases) auto
next
  case (Cons k ks)
  then show ?case by (cases ts) auto
qed

text \<open>A node's children can be regrouped around any of its separators.\<close>

lemma ordered_list_app:
  "length us = length ks1 \<Longrightarrow>
   ordered_list lo (ks1 @ k # ks2) (us @ t # vs) hi \<longleftrightarrow>
   ordered_list lo ks1 (us @ [t]) k \<and> ordered_list k ks2 vs hi"
proof (induction ks1 arbitrary: lo us)
  case Nil
  then show ?case by simp
next
  case (Cons k1 ks1)
  then obtain u us' where "us = u # us'" by (cases us) auto
  with Cons show ?case by simp
qed

lemma ordered_list_split:
  assumes "ordered_list lo ks ts hi" and "m < length ks"
  shows "ordered_list lo (take m ks) (take (Suc m) ts) (ks ! m)"
    and "ordered_list (ks ! m) (drop (Suc m) ks) (drop (Suc m) ts) hi"
proof -
  have len: "length ts = Suc (length ks)" using assms(1) by (rule ordered_list_length)
  have ks: "ks = take m ks @ ks ! m # drop (Suc m) ks" using assms(2) by (rule id_take_nth_drop)
  have ts: "ts = take m ts @ ts ! m # drop (Suc m) ts" using assms(2) len by (intro id_take_nth_drop) simp
  have "ordered_list lo (take m ks @ ks ! m # drop (Suc m) ks) (take m ts @ ts ! m # drop (Suc m) ts) hi"
    using assms(1) ks ts by metis
  then have "ordered_list lo (take m ks) (take m ts @ [ts ! m]) (ks ! m) \<and>
      ordered_list (ks ! m) (drop (Suc m) ks) (drop (Suc m) ts) hi"
    using assms(2) len by (subst (asm) ordered_list_app) auto
  then show "ordered_list lo (take m ks) (take (Suc m) ts) (ks ! m)"
    and "ordered_list (ks ! m) (drop (Suc m) ks) (drop (Suc m) ts) hi"
    using assms(2) len by (simp_all add: take_Suc_conv_app_nth)
qed

lemma ordered_list_join:
  assumes "ordered_list lo ks1 us k" and "ordered_list k ks2 vs hi"
  shows "ordered_list lo (ks1 @ k # ks2) (us @ vs) hi"
proof -
  have "us \<noteq> []" using ordered_list_length[OF assms(1)] by auto
  then obtain us' t where us: "us = us' @ [t]" by (metis append_butlast_last_id)
  then have "length us' = length ks1" using ordered_list_length[OF assms(1)] by simp
  then show ?thesis using assms us by (simp add: ordered_list_app)
qed

lemma ordered_le:
  shows "ordered lo t hi \<Longrightarrow> lo \<le> hi"
    and "ordered_list lo ks ts hi \<Longrightarrow> lo \<le> hi"
  by (induction lo t hi and lo ks ts hi rule: ordered_ordered_list.induct) auto

lemma ordered_bounds:
  shows "ordered lo t hi \<Longrightarrow> e \<in> set (entries t) \<Longrightarrow> lo \<le> fst e \<and> fst e < hi"
    and "ordered_list lo ks ts hi \<Longrightarrow> e \<in> set (concat (map entries ts)) \<Longrightarrow> lo \<le> fst e \<and> fst e < hi"
proof (induction lo t hi and lo ks ts hi rule: ordered_ordered_list.induct)
  case (4 lo k ks t ts hi)
  then have o: "ordered lo t k" "ordered_list k ks ts hi" by simp_all
  from 4(4) consider "e \<in> set (entries t)" | "e \<in> set (concat (map entries ts))" by auto
  then show ?case
    using 4(1)[OF o(1)] 4(2)[OF o(2)] ordered_le(1)[OF o(1)] ordered_le(2)[OF o(2)] by cases auto
qed auto

lemma ordered_sorted:
  shows "ordered lo t hi \<Longrightarrow> sorted_wrt (<) (map fst (entries t))"
    and "ordered_list lo ks ts hi \<Longrightarrow> sorted_wrt (<) (map fst (concat (map entries ts)))"
proof (induction lo t hi and lo ks ts hi rule: ordered_ordered_list.induct)
  case (4 lo k ks t ts hi)
  then have o: "ordered lo t k" "ordered_list k ks ts hi" by simp_all
  have "\<forall>e\<in>set (entries t). fst e < k" "\<forall>e\<in>set (concat (map entries ts)). k \<le> fst e"
    using ordered_bounds(1)[OF o(1)] ordered_bounds(2)[OF o(2)] by blast+
  with 4(1)[OF o(1)] 4(2)[OF o(2)] show ?case by (fastforce simp: sorted_wrt_append)
qed auto

text \<open>The child chosen by the first separator greater than the key is the only one that can hold it.\<close>

lemma ordered_list_child:
  assumes "ordered_list lo ks ts hi" "i \<le> length ks" "lo \<le> key" "key < hi"
    and "\<forall>j<i. ks ! j \<le> key" "i < length ks \<Longrightarrow> key < ks ! i"
  defines "l \<equiv> (if i = 0 then lo else ks ! (i - 1))" and "u \<equiv> (if i < length ks then ks ! i else hi)"
  shows "ordered l (ts ! i) u" "l \<le> key" "key < u"
    and "\<forall>e\<in>set (concat (map entries (take i ts))). fst e < key"
    and "\<forall>e\<in>set (concat (map entries (drop (Suc i) ts))). key < fst e"
proof -
  have len: "length ts = Suc (length ks)" using assms(1) by (rule ordered_list_length)
  show "l \<le> key" "key < u" using assms by auto
  have left: "ordered_list l (drop i ks) (drop i ts) hi \<and>
      (\<forall>e\<in>set (concat (map entries (take i ts))). fst e < key)"
  proof (cases i)
    case 0
    then show ?thesis using assms by simp
  next
    case (Suc j)
    then have o: "ordered_list lo (take j ks) (take i ts) (ks ! j)" "ordered_list (ks ! j) (drop i ks) (drop i ts) hi"
      using ordered_list_split[OF assms(1), of j] assms(2) by simp_all
    have "ks ! j \<le> key" using assms(5) Suc by simp
    with ordered_bounds(2)[OF o(1)] have "\<forall>e\<in>set (concat (map entries (take i ts))). fst e < key"
      by (meson less_le_trans)
    then show ?thesis using o(2) Suc by (simp add: l_def)
  qed
  then show "\<forall>e\<in>set (concat (map entries (take i ts))). fst e < key" ..
  have "drop i ts = ts ! i # drop (Suc i) ts" using len assms(2) by (simp add: Cons_nth_drop_Suc)
  with left have right: "ordered_list l (drop i ks) (ts ! i # drop (Suc i) ts) hi" by simp
  show "ordered l (ts ! i) u"
  proof (cases "i < length ks")
    case True
    then have "drop i ks = ks ! i # drop (Suc i) ks" by (simp add: Cons_nth_drop_Suc)
    with right True show ?thesis by (simp add: u_def)
  next
    case False
    then have "drop i ks = []" "drop (Suc i) ts = []" using assms(2) len by simp_all
    with right False show ?thesis by (simp add: u_def)
  qed
  show "\<forall>e\<in>set (concat (map entries (drop (Suc i) ts))). key < fst e"
  proof (cases "i < length ks")
    case True
    then have "drop i ks = ks ! i # drop (Suc i) ks" by (simp add: Cons_nth_drop_Suc)
    with right have "ordered_list (ks ! i) (drop (Suc i) ks) (drop (Suc i) ts) hi" by simp
    from ordered_bounds(2)[OF this] assms(6)[OF True] show ?thesis by (meson less_le_trans)
  next
    case False
    then show ?thesis using assms(2) len by simp
  qed
qed

text \<open>Replacing that child, or replacing it by the two halves of its split, keeps the order.\<close>

lemma ordered_list_replace:
  assumes "ordered_list lo ks ts hi" "i \<le> length ks"
    and "ordered_list (if i = 0 then lo else ks ! (i - 1)) ks' us (if i < length ks then ks ! i else hi)"
  shows "ordered_list lo (take i ks @ ks' @ drop i ks) (take i ts @ us @ drop (Suc i) ts) hi"
proof -
  let ?l = "if i = 0 then lo else ks ! (i - 1)"
  have len: "length ts = Suc (length ks)" using assms(1) by (rule ordered_list_length)
  have left: "ordered_list ?l (drop i ks) (drop i ts) hi"
    using ordered_list_split(2)[OF assms(1), of "i - 1"] assms(1,2) by (cases i) auto
  have mid: "ordered_list ?l (ks' @ drop i ks) (us @ drop (Suc i) ts) hi"
  proof (cases "i < length ks")
    case True
    then have d: "drop i ks = ks ! i # drop (Suc i) ks" by (simp add: Cons_nth_drop_Suc)
    have "drop i ts = ts ! i # drop (Suc i) ts" using len assms(2) by (simp add: Cons_nth_drop_Suc)
    with left d have "ordered_list (ks ! i) (drop (Suc i) ks) (drop (Suc i) ts) hi" by simp
    with assms(3) True show ?thesis unfolding d by (intro ordered_list_join) simp_all
  next
    case False
    then show ?thesis using assms(2,3) len by simp
  qed
  show ?thesis
  proof (cases i)
    case 0
    then show ?thesis using mid by simp
  next
    case (Suc j)
    then have "ordered_list lo (take j ks) (take i ts) (ks ! j)"
      using ordered_list_split(1)[OF assms(1), of j] assms(2) by simp
    then have "ordered_list lo (take j ks @ ks ! j # ks' @ drop i ks) (take i ts @ us @ drop (Suc i) ts) hi"
      using mid Suc by (intro ordered_list_join) simp_all
    moreover have "take i ks = take j ks @ [ks ! j]" using Suc assms(2) by (simp add: take_Suc_conv_app_nth)
    ultimately show ?thesis by simp
  qed
qed

section \<open>Entries\<close>

lemma entry_insert_app:
  assumes "\<forall>e\<in>set xs. fst e < k" "\<forall>e\<in>set zs. k < fst e"
  shows "entry_insert k r (xs @ ys @ zs) = xs @ entry_insert k r ys @ zs"
proof -
  have "filter (\<lambda>e. fst e < k) xs = xs" "filter (\<lambda>e. k < fst e) xs = []"
    "filter (\<lambda>e. fst e < k) zs = []" "filter (\<lambda>e. k < fst e) zs = zs"
    using assms by (auto simp: filter_empty_conv)
  then show ?thesis by (simp add: entry_insert_def)
qed

lemma entry_insert_at:
  assumes "\<forall>e\<in>set xs. fst e < k" "\<forall>e\<in>set zs. k < fst e"
  shows "entry_insert k r (xs @ zs) = xs @ (k, r) # zs"
  using entry_insert_app[OF assms, of r "[]"] by (simp add: entry_insert_def)

lemma entry_insert_sorted:
  "sorted_wrt (<) (map fst es) \<Longrightarrow> sorted_wrt (<) (map fst (entry_insert k r es))"
  by (auto simp: entry_insert_def sorted_wrt_append sorted_wrt_map sorted_wrt_filter)

lemma set_entry_insert:
  "k \<notin> fst ` set es \<Longrightarrow> set (entry_insert k r es) = insert (k, r) (set es)"
  by (force simp: entry_insert_def)

lemma map_of_entry_insert:
  assumes "k \<notin> fst ` set es" "sorted_wrt (<) (map fst es)"
  shows "map_of (entry_insert k r es) = (map_of es)(k \<mapsto> r)"
proof -
  have "distinct (map fst ((k, r) # es))" "distinct (map fst (entry_insert k r es))"
    using assms entry_insert_sorted[OF assms(2)] by (simp_all add: strict_sorted_iff)
  moreover have "set (entry_insert k r es) = set ((k, r) # es)"
    using set_entry_insert[OF assms(1)] by simp
  ultimately have "map_of (entry_insert k r es) = map_of ((k, r) # es)"
    by (subst map_of_inject_set) blast+
  then show ?thesis by simp
qed

lemma length_entry_insert: 
  assumes "k \<notin> fst ` set es" shows "length (entry_insert k r es) = Suc (length es)"
proof -
  have "filter (\<lambda>e. \<not> fst e < k) es = filter (\<lambda>e. k < fst e) es"
    using assms by (intro filter_cong) force+
  then have "length es = length (filter (\<lambda>e. fst e < k) es) + length (filter (\<lambda>e. k < fst e) es)"
    using sum_length_filter_compl[of "\<lambda>e. fst e < k" es] by simp
  then show ?thesis by (simp add: entry_insert_def)
qed

end
