(* ===== verification/Bptree_Refine.thy ===== *)
theory Bptree_Refine
  imports Bptree_Tree
begin

text \<open>
  The cell-level operations of \<^verbatim>\<open>bptree.c\<close> implement insertion, lookup and enumeration on the
  annotated trees: first the loops inside one node, then one node, then the recursion.
\<close>

section \<open>Array contents after the copy loops\<close>

lemma order_facts:
  "BPTREE_ORDER = Suc BPTREE_MAX_KEYS" "0 < BPTREE_MAX_KEYS" "BPTREE_ORDER div 2 \<le> BPTREE_MAX_KEYS"
  "0 < BPTREE_ORDER div 2" "BPTREE_ORDER div 2 < BPTREE_ORDER" "BPTREE_ORDER - BPTREE_ORDER div 2 \<le> BPTREE_MAX_KEYS"
  "min_leaf = BPTREE_ORDER div 2" "min_inner = BPTREE_ORDER - BPTREE_ORDER div 2 - 1" "0 < min_leaf" "0 < min_inner"
  "min_leaf \<le> BPTREE_ORDER - BPTREE_ORDER div 2" "min_inner \<le> BPTREE_ORDER div 2"
  by (simp_all add: BPTREE_ORDER_def BPTREE_MAX_KEYS_def min_leaf_def min_inner_def)

lemma take_shifted:
  assumes "slot \<le> n" "n < length xs"
  shows "take (Suc n) ((take (Suc slot) xs @ take (n - slot) (drop slot xs) @ drop (Suc n) xs)[slot := x])
    = take slot (take n xs) @ x # drop slot (take n xs)"
proof -
  have "(take (Suc slot) xs)[slot := x] = take slot xs @ [x]"
    using assms by (simp add: take_Suc_conv_app_nth list_update_append)
  then have eq: "(take (Suc slot) xs @ take (n - slot) (drop slot xs) @ drop (Suc n) xs)[slot := x]
      = take slot xs @ x # take (n - slot) (drop slot xs) @ drop (Suc n) xs"
    using assms by (simp add: list_update_append)
  have "take (Suc n) (take slot xs @ x # take (n - slot) (drop slot xs) @ drop (Suc n) xs) = take slot xs @ x # take (n - slot) (drop slot xs)"
  proof -
    have "length (take slot xs @ x # take (n - slot) (drop slot xs)) = Suc n" using assms by simp
    then show ?thesis by (metis append_Cons append_assoc append_eq_conv_conj)
  qed
  then show ?thesis using assms unfolding eq by (simp add: min_def drop_take)
qed

lemma temp_fill:
  assumes "slot \<le> n" "n \<le> length src" "N = Suc n"
  shows "blit (replicate N z) 0 src 0 slot = Some (take slot src @ replicate (N - slot) z)"
    and "arr_set (take slot src @ replicate (N - slot) z) slot x = Some (take slot src @ x # replicate (n - slot) z)"
    and "blit (take slot src @ x # replicate (n - slot) z) (Suc slot) src slot (n - slot)
      = Some (take slot (take n src) @ x # drop slot (take n src))"
proof -
  show "blit (replicate N z) 0 src 0 slot = Some (take slot src @ replicate (N - slot) z)"
    using assms(1,2) by (subst blit_eq) (auto simp: assms(3) simp del: replicate_Suc)
  have "N - slot = Suc (n - slot)" using assms by simp
  then show "arr_set (take slot src @ replicate (N - slot) z) slot x = Some (take slot src @ x # replicate (n - slot) z)"
    using assms by (simp add: list_update_append)
  show "blit (take slot src @ x # replicate (n - slot) z) (Suc slot) src slot (n - slot)
      = Some (take slot (take n src) @ x # drop slot (take n src))"
    using assms by (subst blit_eq) (auto simp: min_def drop_take)
qed

lemma take_Suc_update: "n < length xs \<Longrightarrow> take (Suc n) (xs[n := x]) = take n xs @ [x]"
  by (simp add: take_Suc_conv_app_nth)

lemma prefix_fill:
  assumes "n \<le> length dst" "s + n \<le> length src"
  shows "blit dst 0 src s n = Some (take n (drop s src) @ drop n dst)"
  using assms by (simp add: blit_eq)

section \<open>Searching one node\<close>

lemma bptree_child_loop_spec:
  assumes "key_count n = length ks" "take (length ks) (keys n) = ks" "length ks \<le> length (keys n)"
    and "index \<le> length ks" "\<forall>j<index. ks ! j \<le> key"
  shows "\<exists>i. bptree_child_loop n key index = Some i \<and> i \<le> length ks \<and> (\<forall>j<i. ks ! j \<le> key) \<and>
    (i < length ks \<longrightarrow> key < ks ! i)"
  using assms
proof (induction n key index rule: bptree_child_loop.induct)
  case (1 n key index)
  show ?case
  proof (cases "index < length ks")
    case True
    have nth: "keys n ! index = ks ! index" using "1.prems"(2) True by (metis nth_take)
    show ?thesis
    proof (cases "key \<ge> ks ! index")
      case ge: True
      have "\<forall>j<Suc index. ks ! j \<le> key" using "1.prems"(5) ge less_Suc_eq by auto
      with 1 True ge nth show ?thesis by (simp add: bptree_child_loop.simps[of n key index])
    next
      case False
      with 1 True nth show ?thesis by (auto simp: bptree_child_loop.simps[of n key index])
    qed
  next
    case False
    then have "bptree_child_loop n key index = Some index" "index = length ks"
      using "1.prems" by (simp_all add: bptree_child_loop.simps)
    with 1 show ?thesis by simp
  qed
qed

lemma bptree_child_index_spec:
  assumes "inner_image n ks as"
  shows "\<exists>i. bptree_child_index n key = Some i \<and> i \<le> length ks \<and> (\<forall>j<i. ks ! j \<le> key) \<and>
    (i < length ks \<longrightarrow> key < ks ! i)"
  unfolding bptree_child_index_def
  using assms by (intro bptree_child_loop_spec) (auto simp: inner_image_def node_arrays_def)

lemma bptree_leaf_loop_spec:
  assumes "take (length ks) (keys n) = ks" "length ks \<le> length (keys n)" "sorted_wrt (<) ks"
    and "low \<le> high" "high \<le> length ks" "\<forall>j<low. ks ! j < key" "\<forall>j<length ks. high \<le> j \<longrightarrow> key < ks ! j"
  shows "\<exists>found slot. bptree_leaf_loop n key low high = Some (found, slot) \<and>
    (if found then slot < length ks \<and> ks ! slot = key
     else slot \<le> length ks \<and> (\<forall>j<slot. ks ! j < key) \<and> (\<forall>j<length ks. slot \<le> j \<longrightarrow> key < ks ! j))"
  using assms
proof (induction n key low high rule: bptree_leaf_loop.induct)
  case (1 n key low high)
  define mid where "mid = low + (high - low) div 2"
  show ?case
  proof (cases "low < high")
    case True
    then have mid: "low \<le> mid" "mid < high" by (auto simp: mid_def)
    with "1.prems" have lt: "mid < length ks" by simp
    have nth: "keys n ! mid = ks ! mid" using "1.prems"(1) lt by (metis nth_take)
    note step = bptree_leaf_loop.simps[of n key low high, folded mid_def]
    have srt: "i < j \<Longrightarrow> j < length ks \<Longrightarrow> ks ! i < ks ! j" for i j
      using "1.prems"(3) by (simp add: sorted_wrt_iff_nth_less)
    consider "ks ! mid = key" | "ks ! mid < key" | "key < ks ! mid" by linarith
    then show ?thesis
    proof cases
      case 1
      with True nth lt "1.prems"(2) have "bptree_leaf_loop n key low high = Some (True, mid)"
        by (simp add: step Let_def)
      with 1 lt show ?thesis by (intro exI[of _ True] exI[of _ mid]) simp
    next
      case 2
      then have "\<forall>j<mid + 1. ks ! j < key"
        using srt lt by (metis less_Suc_eq less_trans Suc_eq_plus1)
      moreover have "bptree_leaf_loop n key low high = bptree_leaf_loop n key (mid + 1) high"
        using 2 True nth lt "1.prems"(2) by (simp add: step Let_def)
      ultimately show ?thesis
        using 2 nth mid "1.prems" "1.IH"(1)[OF True mid_def, of "ks ! mid"] by simp
    next
      case 3
      then have "\<forall>j<length ks. mid \<le> j \<longrightarrow> key < ks ! j"
        using srt by (metis le_neq_implies_less less_trans)
      moreover have "bptree_leaf_loop n key low high = bptree_leaf_loop n key low mid"
        using 3 True nth lt "1.prems"(2) by (simp add: step Let_def)
      moreover have "ks ! mid \<noteq> key" "\<not> ks ! mid < key" using 3 by simp_all
      ultimately show ?thesis
        using nth mid lt "1.prems" "1.IH"(2)[OF True mid_def, of "ks ! mid"] by simp
    qed
  next
    case False
    then have "bptree_leaf_loop n key low high = Some (False, low)"
      by (simp add: bptree_leaf_loop.simps)
    with False "1.prems" show ?thesis by (intro exI[of _ False] exI[of _ low]) auto
  qed
qed

lemma bptree_leaf_search_spec:
  assumes "leaf_image n es" "sorted_wrt (<) (map fst es)"
  shows "\<exists>found slot. bptree_leaf_search n key = Some (found, slot) \<and>
    (if found then slot < length es \<and> fst (es ! slot) = key
     else slot \<le> length es \<and> (\<forall>e\<in>set (take slot es). fst e < key) \<and> (\<forall>e\<in>set (drop slot es). key < fst e))"
proof -
  let ?ks = "map fst es"
  have "\<exists>found slot. bptree_leaf_loop n key 0 (length es) = Some (found, slot) \<and>
    (if found then slot < length ?ks \<and> ?ks ! slot = key
     else slot \<le> length ?ks \<and> (\<forall>j<slot. ?ks ! j < key) \<and> (\<forall>j<length ?ks. slot \<le> j \<longrightarrow> key < ?ks ! j))"
    using assms by (intro bptree_leaf_loop_spec) (auto simp: leaf_image_def node_arrays_def)
  then obtain found slot where s: "bptree_leaf_loop n key 0 (length es) = Some (found, slot)"
    and p: "if found then slot < length ?ks \<and> ?ks ! slot = key
     else slot \<le> length ?ks \<and> (\<forall>j<slot. ?ks ! j < key) \<and> (\<forall>j<length ?ks. slot \<le> j \<longrightarrow> key < ?ks ! j)"
    by blast
  have "bptree_leaf_search n key = Some (found, slot)"
    using s assms(1) by (simp add: bptree_leaf_search_def leaf_image_def)
  moreover have "if found then slot < length es \<and> fst (es ! slot) = key
     else slot \<le> length es \<and> (\<forall>e\<in>set (take slot es). fst e < key) \<and> (\<forall>e\<in>set (drop slot es). key < fst e)"
    using p by (cases found) (auto simp: all_set_conv_all_nth)
  ultimately show ?thesis by blast
qed

text \<open>The outcome in terms of membership.\<close>

lemma bptree_leaf_search_cases:
  assumes "leaf_image n es" "sorted_wrt (<) (map fst es)"
  obtains (found) slot where "bptree_leaf_search n key = Some (True, slot)" "slot < length es"
      "fst (es ! slot) = key" "key \<in> fst ` set es"
    | (missing) slot where "bptree_leaf_search n key = Some (False, slot)" "slot \<le> length es"
      "\<forall>e\<in>set (take slot es). fst e < key" "\<forall>e\<in>set (drop slot es). key < fst e" "key \<notin> fst ` set es"
proof -
  obtain f slot where s: "bptree_leaf_search n key = Some (f, slot)" and
    p: "if f then slot < length es \<and> fst (es ! slot) = key
     else slot \<le> length es \<and> (\<forall>e\<in>set (take slot es). fst e < key) \<and> (\<forall>e\<in>set (drop slot es). key < fst e)"
    using bptree_leaf_search_spec[OF assms] by blast
  show ?thesis
  proof (cases f)
    case True
    then show ?thesis using s p by (intro found[of slot]) auto
  next
    case False
    have "set es = set (take slot es) \<union> set (drop slot es)" by (metis append_take_drop_id set_append)
    then have "key \<notin> fst ` set es" using p False by fastforce
    then show ?thesis using s p False by (intro missing[of slot]) auto
  qed
qed

section \<open>Inserting into one node\<close>

lemma write_cell_simps [simp]:
  "cells (write_cell a n p) = (cells p)(a \<mapsto> n)" "brk (write_cell a n p) = brk p"
  "limit (write_cell a n p) = limit p"
  by (simp_all add: write_cell_def)

lemma node_arrays_zeroed [simp]: "node_arrays (zeroed_node l)"
  by (simp add: node_arrays_def zeroed_node_def)

lemma insert_into_leaf_duplicate:
  assumes "cells p a = Some n" "leaf_image n es" "sorted_wrt (<) (map fst es)" "k \<in> fst ` set es"
  shows "bptree_insert_into_leaf p a k r = Some (p, fail (''duplicate id: '' @ show_int k))"
  using assms(2,3)
proof (cases rule: bptree_leaf_search_cases[where key = k])
  case (found slot)
  then show ?thesis using assms(1) by (simp add: bptree_insert_into_leaf_def)
next
  case (missing slot)
  then show ?thesis using assms(4) by simp
qed

lemma insert_into_leaf_room:
  assumes "cells p a = Some n" "leaf_image n es" "sorted_wrt (<) (map fst es)" "k \<notin> fst ` set es"
    and "length es < BPTREE_MAX_KEYS"
  shows "\<exists>n'. bptree_insert_into_leaf p a k r = Some (write_cell a n' p, Inr None) \<and>
    leaf_image n' (entry_insert k r es) \<and> next_node n' = next_node n"
  using assms(2,3)
proof (cases rule: bptree_leaf_search_cases[where key = k])
  case (found slot)
  then show ?thesis using assms(4) by simp
next
  case (missing slot)
  let ?m = "length es"
  define ins where "ins xs x = (take (Suc slot) xs @ take (?m - slot) (drop slot xs) @ drop (Suc ?m) xs)[slot := x]"
    for xs :: "int list" and x
  let ?n = "n\<lparr>keys := ins (keys n) k, row_indexes := ins (row_indexes n) r, key_count := Suc ?m\<rparr>"
  have img: "length (keys n) = BPTREE_MAX_KEYS" "length (row_indexes n) = BPTREE_MAX_KEYS" "key_count n = ?m"
    "take ?m (keys n) = map fst es" "take ?m (row_indexes n) = map snd es"
    using assms(2) by (simp_all add: leaf_image_def node_arrays_def)
  have "bptree_insert_into_leaf p a k r = Some (write_cell a ?n p, Inr None)"
    using assms(1,5) missing img
    by (simp add: bptree_insert_into_leaf_def shift_up_eq ins_def)
  moreover have e: "entry_insert k r es = take slot es @ (k, r) # drop slot es"
    using entry_insert_at[OF missing(3,4), of r] by simp
  have "take (Suc ?m) (ins (keys n) k) = map fst (entry_insert k r es)"
    "take (Suc ?m) (ins (row_indexes n) r) = map snd (entry_insert k r es)"
    unfolding ins_def e using missing(2) assms(5) img
    by (simp_all add: take_shifted take_map drop_map)
  then have "leaf_image ?n (entry_insert k r es)"
    using assms(2,5) missing(2) e by (simp add: leaf_image_def node_arrays_def ins_def)
  ultimately show ?thesis by auto
qed

text \<open>A full leaf is split: the lower half stays, the upper half moves to a fresh cell.\<close>

lemma insert_into_leaf_split:
  fixes r :: int
  assumes "cells p a = Some n" "leaf_image n es" "sorted_wrt (<) (map fst es)" "k \<notin> fst ` set es"
    and "length es = BPTREE_MAX_KEYS" "brk p < limit p" "a \<noteq> brk p"
  defines "es' \<equiv> entry_insert k r es" and "m \<equiv> BPTREE_ORDER div 2"
  shows "\<exists>n1 n2. bptree_insert_into_leaf p a k r =
      Some (p\<lparr>cells := (cells p)(brk p \<mapsto> n2, a \<mapsto> n1), brk := Suc (brk p)\<rparr>, Inr (Some (fst (es' ! m), brk p))) \<and>
    leaf_image n1 (take m es') \<and> leaf_image n2 (drop m es') \<and>
    next_node n1 = Some (brk p) \<and> next_node n2 = next_node n"
  using assms(2,3)
proof (cases rule: bptree_leaf_search_cases[where key = k])
  case (found slot)
  then show ?thesis using assms(4) by simp
next
  case (missing slot)
  have e: "es' = take slot es @ (k, r) # drop slot es"
    unfolding es'_def using entry_insert_at[OF missing(3,4), of r] by simp
  then have len: "length es' = BPTREE_ORDER" using missing(2) assms(5) order_facts(1) by simp
  define tk tr where "tk = map fst es'" and "tr = map snd es'"
  have img: "length (keys n) = BPTREE_MAX_KEYS" "length (row_indexes n) = BPTREE_MAX_KEYS"
    "key_count n = BPTREE_MAX_KEYS" "keys n = map fst es" "row_indexes n = map snd es"
    using assms(2,5) by (auto simp: leaf_image_def node_arrays_def)
  have lens: "length tk = BPTREE_ORDER" "length tr = BPTREE_ORDER" using len by (simp_all add: tk_def tr_def)
  have slot: "slot \<le> BPTREE_MAX_KEYS" using missing(2) assms(5) by simp
  note temp = temp_fill[OF slot _ order_facts(1), where z = 0]
  have k1: "blit (replicate BPTREE_ORDER 0) 0 (keys n) 0 slot = Some (take slot (keys n) @ replicate (BPTREE_ORDER - slot) 0)"
    "arr_set (take slot (keys n) @ replicate (BPTREE_ORDER - slot) 0) slot k
      = Some (take slot (keys n) @ k # replicate (BPTREE_MAX_KEYS - slot) 0)"
    using img by (simp_all add: temp)
  have k2: "blit (take slot (keys n) @ k # replicate (BPTREE_MAX_KEYS - slot) 0) (Suc slot) (keys n) slot (BPTREE_MAX_KEYS - slot)
      = Some tk"
    unfolding tk_def e using temp(3)[of "keys n" k] img assms(5) by (simp add: take_map drop_map)
  have r1: "blit (replicate BPTREE_ORDER 0) 0 (row_indexes n) 0 slot
      = Some (take slot (row_indexes n) @ replicate (BPTREE_ORDER - slot) 0)"
    "arr_set (take slot (row_indexes n) @ replicate (BPTREE_ORDER - slot) 0) slot r
      = Some (take slot (row_indexes n) @ r # replicate (BPTREE_MAX_KEYS - slot) 0)"
    using img by (simp_all add: temp)
  have r2: "blit (take slot (row_indexes n) @ r # replicate (BPTREE_MAX_KEYS - slot) 0) (Suc slot) (row_indexes n) slot
      (BPTREE_MAX_KEYS - slot) = Some tr"
    unfolding tr_def e using temp(3)[of "row_indexes n" r] img assms(5) by (simp add: take_map drop_map)
  let ?z = "zeroed_node True"
  let ?n1 = "n\<lparr>key_count := m, keys := take m tk @ drop m (keys n),
    row_indexes := take m tr @ drop m (row_indexes n), next_node := Some (brk p)\<rparr>"
  let ?n2 = "?z\<lparr>key_count := BPTREE_ORDER - m, keys := drop m tk @ drop (BPTREE_ORDER - m) (keys ?z),
    row_indexes := drop m tr @ drop (BPTREE_ORDER - m) (row_indexes ?z), next_node := next_node n\<rparr>"
  have hd: "(drop m tk @ drop (BPTREE_ORDER - m) (keys ?z)) ! 0 = fst (es' ! m)"
    using len order_facts by (simp add: tk_def m_def nth_append drop_map)
  have m: "m \<le> BPTREE_MAX_KEYS" "m < BPTREE_ORDER" "BPTREE_ORDER - m \<le> BPTREE_MAX_KEYS" "0 < BPTREE_ORDER - m"
    using order_facts by (simp_all add: m_def)
  have "bptree_insert_into_leaf p a k r =
      Some (p\<lparr>cells := (cells p)(brk p \<mapsto> ?n2, a \<mapsto> ?n1), brk := Suc (brk p)\<rparr>, Inr (Some (fst (es' ! m), brk p)))"
    using assms(1,6,7) missing img(1-3) m lens hd
    by (simp add: bptree_insert_into_leaf_def bptree_node_create_def k1 k2 r1 r2 prefix_fill Let_def
        m_def[symmetric] write_cell_def zeroed_node_def fun_upd_twist del: replicate_Suc)
  moreover have "leaf_image ?n1 (take m es')" "leaf_image ?n2 (drop m es')"
    using assms(2) m len by (simp_all add: leaf_image_def node_arrays_def tk_def tr_def take_map drop_map zeroed_node_def)
  ultimately show ?thesis by (intro exI[of _ ?n1] exI[of _ ?n2]) simp
qed

lemma insert_into_leaf_full:
  assumes "cells p a = Some n" "leaf_image n es" "sorted_wrt (<) (map fst es)" "k \<notin> fst ` set es"
    and "length es = BPTREE_MAX_KEYS" "limit p \<le> brk p"
  shows "bptree_insert_into_leaf p a k r = Some (p, fail ''failed to allocate B+ tree node'')"
  using assms(2,3)
proof (cases rule: bptree_leaf_search_cases[where key = k])
  case (found slot)
  then show ?thesis using assms(4) by simp
next
  case (missing slot)
  have slot: "slot \<le> BPTREE_MAX_KEYS" using missing(2) assms(5) by simp
  note fill = temp_fill[OF slot _ order_facts(1)]
  show ?thesis
    using assms missing
    by (simp add: bptree_insert_into_leaf_def bptree_node_create_def leaf_image_def node_arrays_def fill)
qed

lemma absorb_room:
  assumes "cells p a = Some n" "inner_image n ks as" "i \<le> length ks" "length ks < BPTREE_MAX_KEYS"
  shows "\<exists>n'. bptree_absorb_split p a i (Inr (Some (k, c))) = Some (write_cell a n' p, Inr None) \<and>
    inner_image n' (take i ks @ k # drop i ks) (take (Suc i) as @ c # drop (Suc i) as)"
proof -
  let ?m = "length ks"
  define ki where "ki = (take (Suc i) (keys n) @ take (?m - i) (drop i (keys n)) @ drop (Suc ?m) (keys n))[i := k]"
  define ci where "ci = (take (Suc (Suc i)) (children n) @ take (Suc ?m - Suc i) (drop (Suc i) (children n))
    @ drop (Suc (Suc ?m)) (children n))[Suc i := Some c]"
  let ?n = "n\<lparr>keys := ki, children := ci, key_count := Suc ?m\<rparr>"
  have img: "length (keys n) = BPTREE_MAX_KEYS" "length (children n) = Suc BPTREE_ORDER" "key_count n = ?m"
    "take ?m (keys n) = ks" "take (Suc ?m) (children n) = map Some as" "length as = Suc ?m"
    using assms(2) by (simp_all add: inner_image_def node_arrays_def)
  have "Suc ?m < length (children n)" using img(2) assms(4) order_facts(1) by simp
  then have "bptree_absorb_split p a i (Inr (Some (k, c))) = Some (write_cell a ?n p, Inr None)"
    using assms(1,3,4) img(1-3)
    by (simp add: bptree_absorb_split_def shift_up_eq ki_def ci_def)
  moreover have "take (Suc ?m) ki = take i ks @ k # drop i ks"
    unfolding ki_def using assms(3,4) img by (simp add: take_shifted)
  moreover have "take (Suc (Suc ?m)) ci = map Some (take (Suc i) as @ c # drop (Suc i) as)"
    unfolding ci_def using assms(3,4) img order_facts(1)
    by (subst take_shifted) (simp_all add: take_map drop_map)
  moreover have "length ki = BPTREE_MAX_KEYS" "length ci = Suc BPTREE_ORDER"
    using img(1,2) assms(3,4) order_facts(1) by (simp_all add: ki_def ci_def)
  ultimately have "inner_image ?n (take i ks @ k # drop i ks) (take (Suc i) as @ c # drop (Suc i) as)"
    using assms img by (simp add: inner_image_def node_arrays_def)
  with \<open>bptree_absorb_split p a i (Inr (Some (k, c))) = _\<close> show ?thesis by blast
qed

lemma absorb_split:
  fixes k :: int and c :: addr
  assumes "cells p a = Some n" "inner_image n ks as" "i \<le> length ks" "length ks = BPTREE_MAX_KEYS"
    and "brk p < limit p" "a \<noteq> brk p"
  defines "ks' \<equiv> take i ks @ k # drop i ks" and "as' \<equiv> take (Suc i) as @ c # drop (Suc i) as"
    and "m \<equiv> BPTREE_ORDER div 2"
  shows "\<exists>n1 n2. bptree_absorb_split p a i (Inr (Some (k, c))) =
      Some (p\<lparr>cells := (cells p)(brk p \<mapsto> n2, a \<mapsto> n1), brk := Suc (brk p)\<rparr>, Inr (Some (ks' ! m, brk p))) \<and>
    inner_image n1 (take m ks') (take (Suc m) as') \<and> inner_image n2 (drop (Suc m) ks') (drop (Suc m) as')"
proof -
  have img: "length (keys n) = BPTREE_MAX_KEYS" "length (children n) = Suc BPTREE_ORDER"
    "key_count n = BPTREE_MAX_KEYS" "keys n = ks" "length as = BPTREE_ORDER"
    "take BPTREE_ORDER (children n) = map Some as"
    using assms(2,4) order_facts(1) by (auto simp: inner_image_def node_arrays_def)
  have lens: "length ks' = BPTREE_ORDER" "length as' = Suc BPTREE_ORDER"
    using assms(3,4) img(5) order_facts(1) by (simp_all add: ks'_def as'_def)
  have m: "m \<le> BPTREE_MAX_KEYS" "m < BPTREE_ORDER" "BPTREE_ORDER - m \<le> BPTREE_MAX_KEYS" "0 < BPTREE_ORDER - m"
    using order_facts by (simp_all add: m_def)
  have as: "take (Suc i) (take BPTREE_ORDER (children n)) @ Some c # drop (Suc i) (take BPTREE_ORDER (children n))
      = map Some as'"
    unfolding as'_def img(6) by (simp add: take_map drop_map)
  have i: "i \<le> BPTREE_MAX_KEYS" "Suc i \<le> BPTREE_ORDER" using assms(3,4) order_facts(1) by simp_all
  note temp = temp_fill[OF i(1) _ order_facts(1), where z = 0]
  have k1: "blit (replicate BPTREE_ORDER 0) 0 (keys n) 0 i = Some (take i (keys n) @ replicate (BPTREE_ORDER - i) 0)"
    "arr_set (take i (keys n) @ replicate (BPTREE_ORDER - i) 0) i k
      = Some (take i (keys n) @ k # replicate (BPTREE_MAX_KEYS - i) 0)"
    using img by (simp_all add: temp)
  have k2: "blit (take i (keys n) @ k # replicate (BPTREE_MAX_KEYS - i) 0) (Suc i) (keys n) i (BPTREE_MAX_KEYS - i)
      = Some ks'"
    unfolding ks'_def using temp(3)[of "keys n" k] img assms(4) by simp
  have c1: "blit (replicate (Suc BPTREE_ORDER) None) 0 (children n) 0 (Suc i)
      = Some (take (Suc i) (children n) @ replicate (BPTREE_ORDER - i) None)"
    using temp_fill(1)[OF i(2) _ refl, of "children n" None] img(2) by simp
  have oi: "BPTREE_ORDER - Suc i = BPTREE_MAX_KEYS - i" using order_facts(1) by simp
  have c2: "arr_set (take (Suc i) (children n) @ replicate (BPTREE_ORDER - i) None) (Suc i) (Some c)
      = Some (take (Suc i) (children n) @ Some c # replicate (BPTREE_MAX_KEYS - i) None)"
    using temp_fill(2)[OF i(2) _ refl, of "children n" None "Some c"] img(2) by (simp add: oi)
  have c3: "blit (take (Suc i) (children n) @ Some c # replicate (BPTREE_MAX_KEYS - i) None) (Suc (Suc i))
      (children n) (Suc i) (BPTREE_MAX_KEYS - i) = Some (map Some as')"
    using temp_fill(3)[OF i(2) _ refl, of "children n" "Some c" None] img(2) as by (simp add: oi)
  let ?z = "zeroed_node False"
  let ?r = "BPTREE_ORDER - m - 1"
  let ?n1 = "n\<lparr>key_count := m, keys := take m ks' @ drop m (keys n),
    children := (take m (map Some as') @ drop m (children n))[m := Some (as' ! m)]\<rparr>"
  let ?n2 = "?z\<lparr>key_count := ?r, keys := drop (Suc m) ks' @ drop ?r (keys ?z),
    children := (take ?r (drop (Suc m) (map Some as')) @ drop ?r (children ?z))[?r := Some (as' ! BPTREE_ORDER)]\<rparr>"
  have "bptree_absorb_split p a i (Inr (Some (k, c))) =
      Some (p\<lparr>cells := (cells p)(brk p \<mapsto> ?n2, a \<mapsto> ?n1), brk := Suc (brk p)\<rparr>, Inr (Some (ks' ! m, brk p)))"
    using assms(1,5,6) img(1-3) m lens i
    by (simp add: bptree_absorb_split_def bptree_node_create_def k1 k2 c1 c2 c3
        k1(2)[THEN arr_set_eq] c2[THEN arr_set_eq] prefix_fill Let_def
        m_def[symmetric] write_cell_def zeroed_node_def fun_upd_twist less_Suc_eq_le del: replicate_Suc)
  moreover have "take (Suc m) ((take m (map Some as') @ drop m (children n))[m := Some (as' ! m)]) = map Some (take (Suc m) as')"
    using m lens img(2) by (simp add: list_update_append take_Suc_conv_app_nth take_map nth_append)
  moreover have "take (Suc ?r) ((take ?r (drop (Suc m) (map Some as')) @ drop ?r (children ?z))[?r := Some (as' ! BPTREE_ORDER)])
      = map Some (drop (Suc m) as')"
  proof -
    have "map Some (drop (Suc m) as') = take ?r (drop (Suc m) (map Some as')) @ [Some (as' ! BPTREE_ORDER)]"
      using m lens take_Suc_conv_app_nth[of ?r "drop (Suc m) (map Some as')"] by (simp add: drop_map)
    then show ?thesis
      using m lens by (subst take_Suc_update) (simp_all add: zeroed_node_def)
  qed
  ultimately show ?thesis
    using assms(2) m lens by (intro exI[of _ ?n1] exI[of _ ?n2]) (auto simp: inner_image_def node_arrays_def zeroed_node_def)
qed

end
