(* ===== verification/Bptree_Insert.thy ===== *)
theory Bptree_Insert
  imports Bptree_Refine
begin

text \<open>
  The recursion of \<open>bptree_insert_recursive\<close>: a well-formed subtree is turned into a well-formed
  subtree, or into two with the promoted key between them, and nothing outside the subtree and
  the freshly allocated cells is touched.
\<close>

section \<open>Subtrees and forests in the pool\<close>

definition pool_ok :: "node_pool \<Rightarrow> bool" where
  "pool_ok p \<longleftrightarrow> (\<forall>a\<ge>brk p. cells p a = None)"

definition subtree :: "node_pool \<Rightarrow> int \<Rightarrow> ptree \<Rightarrow> int \<Rightarrow> nat \<Rightarrow> bool \<Rightarrow> addr option \<Rightarrow> bool" where
  "subtree p lo t hi n r z \<longleftrightarrow>
     represents (cells p) t \<and> distinct (addrs t) \<and> ordered lo t hi \<and> balanced n t \<and> sized r t \<and>
     linked (cells p) (leaf_addrs t) z"

definition all_addrs :: "ptree list \<Rightarrow> addr list" where
  "all_addrs ts = concat (map addrs ts)"

definition all_leaves :: "ptree list \<Rightarrow> addr list" where
  "all_leaves ts = concat (map leaf_addrs ts)"

definition all_entries :: "ptree list \<Rightarrow> (int \<times> int) list" where
  "all_entries ts = concat (map entries ts)"

definition forest :: "node_pool \<Rightarrow> ptree list \<Rightarrow> nat \<Rightarrow> addr option \<Rightarrow> bool" where
  "forest p ts n z \<longleftrightarrow>
     (\<forall>t\<in>set ts. represents (cells p) t \<and> balanced n t \<and> sized False t) \<and>
     distinct (all_addrs ts) \<and> linked (cells p) (all_leaves ts) z"

definition pool_frame :: "node_pool \<Rightarrow> node_pool \<Rightarrow> addr set \<Rightarrow> bool" where
  "pool_frame p p' as \<longleftrightarrow>
     (\<forall>a. a \<notin> as \<and> a < brk p \<longrightarrow> cells p' a = cells p a) \<and> brk p \<le> brk p' \<and> limit p' = limit p \<and> pool_ok p'"

text \<open>After an allocation failure in the middle of a split the search order may be lost, but what is
  reachable from the node is still a tree of allocated cells.\<close>

definition salvaged :: "node_pool \<Rightarrow> ptree \<Rightarrow> node_pool \<Rightarrow> bool" where
  "salvaged p t p' \<longleftrightarrow> (\<exists>t'. represents (cells p') t' \<and> distinct (addrs t') \<and> ptree_addr t' = ptree_addr t \<and>
     set (addrs t') \<subseteq> set (addrs t) \<union> {brk p..<brk p'})"

text \<open>What an insertion of \<open>(k, row)\<close> below \<open>t\<close> leaves behind.\<close>

definition insert_outcome ::
  "node_pool \<Rightarrow> int \<Rightarrow> ptree \<Rightarrow> int \<Rightarrow> nat \<Rightarrow> bool \<Rightarrow> addr option \<Rightarrow> int \<Rightarrow> int \<Rightarrow> node_pool \<Rightarrow> insert_result \<Rightarrow> bool" where
  "insert_outcome p lo t hi n r z k row p' res \<longleftrightarrow>
     (if k \<in> fst ` set (entries t) then p' = p \<and> res = fail (''duplicate id: '' @ show_int k)
      else pool_frame p p' (set (addrs t)) \<and> brk p' \<le> brk p + n + 1 \<and>
       (case res of
          Inl e \<Rightarrow> limit p \<le> brk p + n \<and> salvaged p t p' \<and> e = sql_set_error 0 0 ''failed to allocate B+ tree node''
        | Inr None \<Rightarrow>
            (\<exists>t'. subtree p' lo t' hi n r z \<and> ptree_addr t' = ptree_addr t \<and>
               hd (leaf_addrs t') = hd (leaf_addrs t) \<and> entries t' = entry_insert k row (entries t) \<and>
               set (addrs t') = set (addrs t) \<union> {brk p..<brk p'})
        | Inr (Some (pk, ra)) \<Rightarrow>
            (\<exists>t1 t2. subtree p' lo t1 pk n False (Some (hd (leaf_addrs t2))) \<and> subtree p' pk t2 hi n False z \<and>
               ptree_addr t1 = ptree_addr t \<and> ptree_addr t2 = ra \<and>
               hd (leaf_addrs t1) = hd (leaf_addrs t) \<and> entries t1 @ entries t2 = entry_insert k row (entries t) \<and>
               set (addrs t1) \<union> set (addrs t2) = set (addrs t) \<union> {brk p..<brk p'} \<and>
               set (addrs t1) \<inter> set (addrs t2) = {})))"

section \<open>Locality\<close>

lemma all_simps [simp]:
  "all_addrs [] = []" "all_addrs (t # ts) = addrs t @ all_addrs ts" "all_addrs (ts @ us) = all_addrs ts @ all_addrs us"
  "all_leaves [] = []" "all_leaves (t # ts) = leaf_addrs t @ all_leaves ts"
  "all_leaves (ts @ us) = all_leaves ts @ all_leaves us"
  "all_entries [] = []" "all_entries (t # ts) = entries t @ all_entries ts"
  "all_entries (ts @ us) = all_entries ts @ all_entries us"
  by (simp_all add: all_addrs_def all_leaves_def all_entries_def)

lemma node_all [simp]:
  "addrs (PNode a ks ts) = a # all_addrs ts" "leaf_addrs (PNode a ks ts) = all_leaves ts"
  "entries (PNode a ks ts) = all_entries ts"
  by (simp_all add: all_addrs_def all_leaves_def all_entries_def)

declare addrs.simps(2) [simp del] leaf_addrs.simps(2) [simp del] entries.simps(2) [simp del]

lemma head_or_simps [simp]: "head_or [] z = z" "head_or (a # as) z = Some a"
  by (simp_all add: head_or_def)

lemma head_or_app [simp]: "head_or (as @ bs) z = head_or as (head_or bs z)"
  by (cases as) auto

lemma head_or_hd: "as \<noteq> [] \<Longrightarrow> head_or as z = Some (hd as)"
  by (cases as) auto

lemma linked_app [simp]: "linked c (xs @ ys) z \<longleftrightarrow> linked c xs (head_or ys z) \<and> linked c ys z"
  by (induction xs) auto

lemma linked_cong: "(\<And>a. a \<in> set as \<Longrightarrow> c' a = c a) \<Longrightarrow> linked c' as z = linked c as z"
  by (induction as) auto

lemma represents_cong: "(\<And>a. a \<in> set (addrs t) \<Longrightarrow> c' a = c a) \<Longrightarrow> represents c' t = represents c t"
proof (induction t)
  case (PNode a ks ts)
  then have "\<forall>t\<in>set ts. represents c' t = represents c t" by (force simp: all_addrs_def)
  with PNode.prems[of a] show ?case by simp
qed simp

lemma leaf_addrs_subset: "set (leaf_addrs t) \<subseteq> set (addrs t)"
  by (induction t) (force simp: all_addrs_def all_leaves_def)+

lemma all_leaves_subset: "set (all_leaves ts) \<subseteq> set (all_addrs ts)"
  using leaf_addrs_subset by (force simp: all_addrs_def all_leaves_def)

lemma represents_allocated: "represents c t \<Longrightarrow> a \<in> set (addrs t) \<Longrightarrow> c a \<noteq> None"
proof (induction t)
  case (PNode b ks ts)
  then show ?case by (auto simp: all_addrs_def)
qed auto

lemma sized_nonempty: "sized r t \<Longrightarrow> leaf_addrs t \<noteq> [] \<and> entries t \<noteq> []"
proof (induction t arbitrary: r)
  case (PLeaf a es)
  then show ?case using order_facts by (auto split: if_splits)
next
  case (PNode a ks ts)
  then obtain t ts' where "ts = t # ts'" by (cases ts) auto
  with PNode show ?case by auto
qed

lemma forest_cong:
  "(\<And>a. a \<in> set (all_addrs ts) \<Longrightarrow> cells p' a = cells p a) \<Longrightarrow> forest p' ts n z = forest p ts n z"
proof -
  assume eq: "\<And>a. a \<in> set (all_addrs ts) \<Longrightarrow> cells p' a = cells p a"
  have "represents (cells p') t = represents (cells p) t" if "t \<in> set ts" for t
    using eq that by (intro represents_cong) (auto simp: all_addrs_def)
  moreover have "linked (cells p') (all_leaves ts) z = linked (cells p) (all_leaves ts) z"
    using eq all_leaves_subset by (intro linked_cong) blast
  ultimately show ?thesis by (auto simp: forest_def)
qed

lemma forest_app:
  "forest p (ts @ us) n z \<longleftrightarrow>
     forest p ts n (head_or (all_leaves us) z) \<and> forest p us n z \<and> set (all_addrs ts) \<inter> set (all_addrs us) = {}"
  by (auto simp: forest_def)

lemma forest_allocated:
  "forest p ts n z \<Longrightarrow> pool_ok p \<Longrightarrow> a \<in> set (all_addrs ts) \<Longrightarrow> a < brk p"
proof (rule ccontr)
  assume f: "forest p ts n z" and ok: "pool_ok p" and a: "a \<in> set (all_addrs ts)" and "\<not> a < brk p"
  then have "cells p a = None" by (simp add: pool_ok_def)
  moreover from a obtain t where "t \<in> set ts" "a \<in> set (addrs t)" by (auto simp: all_addrs_def)
  ultimately show False using f represents_allocated[of "cells p" t a] by (auto simp: forest_def)
qed

lemma forest_single:
  "forest p [t] n z \<longleftrightarrow> represents (cells p) t \<and> balanced n t \<and> sized False t \<and> distinct (addrs t) \<and>
     linked (cells p) (leaf_addrs t) z"
  by (auto simp: forest_def)

lemma subtree_forest: "subtree p lo t hi n False z \<longleftrightarrow> forest p [t] n z \<and> ordered lo t hi"
  by (auto simp: subtree_def forest_single)

lemma subtree_node:
  "subtree p lo (PNode a ks ts) hi n r z \<longleftrightarrow>
     (\<exists>m. n = Suc m \<and> forest p ts m z) \<and> a \<notin> set (all_addrs ts) \<and> ordered_list lo ks ts hi \<and>
     (if r then 1 else min_inner) \<le> length ks \<and> length ks \<le> BPTREE_MAX_KEYS \<and>
     (\<exists>nd. cells p a = Some nd \<and> inner_image nd ks (map ptree_addr ts))"
  by (cases n) (auto simp: subtree_def forest_def dest: ordered_list_length)

text \<open>Replacing one tree of a forest by the trees an insertion made of it.\<close>

lemma forest_replace:
  assumes f: "forest p (xs @ c # ys) n z" and ok: "pool_ok p"
    and u: "forest p' us n (head_or (all_leaves ys) z)"
    and hd: "\<And>w. head_or (all_leaves us) w = head_or (leaf_addrs c) w"
    and as: "set (all_addrs us) = set (addrs c) \<union> {brk p..<brk p'}"
    and fr: "pool_frame p p' (set (addrs c))"
  shows "forest p' (xs @ us @ ys) n z"
    and "set (all_addrs (xs @ us @ ys)) = set (all_addrs (xs @ c # ys)) \<union> {brk p..<brk p'}"
proof -
  have split: "forest p xs n (head_or (leaf_addrs c) (head_or (all_leaves ys) z))" "forest p ys n z"
    and disj: "set (all_addrs xs) \<inter> (set (addrs c) \<union> set (all_addrs ys)) = {}"
      "set (addrs c) \<inter> set (all_addrs ys) = {}"
    using f forest_app[of p xs "c # ys" n z] forest_app[of p "[c]" ys n z] by auto
  have lt: "a < brk p" if "a \<in> set (all_addrs xs) \<union> set (all_addrs ys)" for a
    using forest_allocated[OF split(1) ok] forest_allocated[OF split(2) ok] that by auto
  have same: "cells p' a = cells p a" if "a \<in> set (all_addrs xs) \<union> set (all_addrs ys)" for a
    using fr lt[OF that] that disj by (auto simp: pool_frame_def)
  have "forest p' xs n (head_or (leaf_addrs c) (head_or (all_leaves ys) z))" "forest p' ys n z"
    using split forest_cong[of xs p' p] forest_cong[of ys p' p] same by auto
  moreover have "set (all_addrs xs) \<inter> set (all_addrs us) = {}" "set (all_addrs us) \<inter> set (all_addrs ys) = {}"
    using as disj lt by (auto simp: atLeastLessThan_def atLeast_def) (meson leD UnI1 UnI2)+
  ultimately show "forest p' (xs @ us @ ys) n z"
    using u disj hd by (auto simp: forest_app)
  show "set (all_addrs (xs @ us @ ys)) = set (all_addrs (xs @ c # ys)) \<union> {brk p..<brk p'}"
    using as by auto
qed

section \<open>One step of the recursion\<close>

lemma absorb_full:
  assumes "cells p a = Some n" "inner_image n ks as" "i \<le> length ks" "length ks = BPTREE_MAX_KEYS" "limit p \<le> brk p"
  shows "bptree_absorb_split p a i (Inr (Some (k, c))) = Some (p, fail ''failed to allocate B+ tree node'')"
proof -
  have img: "length (keys n) = BPTREE_MAX_KEYS" "length (children n) = Suc BPTREE_ORDER" "key_count n = BPTREE_MAX_KEYS"
    using assms(2,4) by (simp_all add: inner_image_def node_arrays_def)
  have i: "i \<le> BPTREE_MAX_KEYS" "i < BPTREE_ORDER" using assms(3,4) order_facts(1) by simp_all
  show ?thesis
    using assms(1,5) img i order_facts(1)
    by (simp add: bptree_absorb_split_def bptree_node_create_def blit_eq del: replicate_Suc)
qed

lemma insert_outcome_keep:
  assumes "k \<notin> fst ` set (entries t)" "pool_frame p p' (set (addrs t))" "brk p' \<le> brk p + n + 1"
    and "subtree p' lo t' hi n r z" "ptree_addr t' = ptree_addr t" "hd (leaf_addrs t') = hd (leaf_addrs t)"
    and "entries t' = entry_insert k row (entries t)" "set (addrs t') = set (addrs t) \<union> {brk p..<brk p'}"
  shows "insert_outcome p lo t hi n r z k row p' (Inr None)"
  using assms by (auto simp: insert_outcome_def)

lemma insert_outcome_split:
  assumes "k \<notin> fst ` set (entries t)" "pool_frame p p' (set (addrs t))" "brk p' \<le> brk p + n + 1"
    and "subtree p' lo t1 pk n False (Some (hd (leaf_addrs t2)))" "subtree p' pk t2 hi n False z"
    and "ptree_addr t1 = ptree_addr t" "ptree_addr t2 = ra" "hd (leaf_addrs t1) = hd (leaf_addrs t)"
    and "entries t1 @ entries t2 = entry_insert k row (entries t)"
    and "set (addrs t1) \<union> set (addrs t2) = set (addrs t) \<union> {brk p..<brk p'}" "set (addrs t1) \<inter> set (addrs t2) = {}"
  shows "insert_outcome p lo t hi n r z k row p' (Inr (Some (pk, ra)))"
  using assms unfolding insert_outcome_def by simp blast

lemma insert_outcome_fail:
  assumes "k \<notin> fst ` set (entries t)" "pool_frame p p' (set (addrs t))" "brk p' \<le> brk p + n + 1" "limit p \<le> brk p + n"
    and "salvaged p t p'"
  shows "insert_outcome p lo t hi n r z k row p' (fail ''failed to allocate B+ tree node'')"
  using assms by (simp add: insert_outcome_def)

lemma leaf_insert_outcome:
  assumes "subtree p lo (PLeaf a es) hi n r z" "pool_ok p" "lo \<le> k" "k < hi"
  shows "\<exists>p' res. bptree_insert_into_leaf p a k row = Some (p', res) \<and>
    insert_outcome p lo (PLeaf a es) hi n r z k row p' res"
proof -
  from assms(1) obtain nd where nd: "cells p a = Some nd" "leaf_image nd es" and n: "n = 0"
    and srt: "sorted_wrt (<) (map fst es)" and rng: "\<forall>e\<in>set es. lo \<le> fst e \<and> fst e < hi"
    and size: "(if r then 1 else min_leaf) \<le> length es" "length es \<le> BPTREE_MAX_KEYS" and z: "next_node nd = z"
    by (auto simp: subtree_def)
  have a: "a < brk p" using nd(1) assms(2) by (metis not_le option.distinct(1) pool_ok_def)
  let ?es = "entry_insert k row es"
  consider (dup) "k \<in> fst ` set es" | (room) "k \<notin> fst ` set es" "length es < BPTREE_MAX_KEYS"
    | (split) "k \<notin> fst ` set es" "length es = BPTREE_MAX_KEYS" "brk p < limit p"
    | (full) "k \<notin> fst ` set es" "length es = BPTREE_MAX_KEYS" "limit p \<le> brk p"
    using size(2) by fastforce
  then show ?thesis
  proof cases
    case dup
    then show ?thesis using insert_into_leaf_duplicate[OF nd srt dup] by (simp add: insert_outcome_def)
  next
    case room
    then obtain nd' where ins: "bptree_insert_into_leaf p a k row = Some (write_cell a nd' p, Inr None)"
      and img: "leaf_image nd' ?es" "next_node nd' = next_node nd"
      using insert_into_leaf_room[OF nd srt] by blast
    have "ordered lo (PLeaf a ?es) hi"
      using entry_insert_sorted[OF srt] set_entry_insert[OF room(1)] rng assms(3,4) by simp
    then have "subtree (write_cell a nd' p) lo (PLeaf a ?es) hi n r z"
      using img z n size room length_entry_insert[OF room(1), of row] by (auto simp: subtree_def)
    then have "insert_outcome p lo (PLeaf a es) hi n r z k row (write_cell a nd' p) (Inr None)"
      using room a assms(2) by (intro insert_outcome_keep) (auto simp: pool_frame_def pool_ok_def)
    then show ?thesis using ins by blast
  next
    case split
    let ?m = "BPTREE_ORDER div 2"
    let ?k = "fst (?es ! ?m)"
    obtain n1 n2 where ins: "bptree_insert_into_leaf p a k row =
        Some (p\<lparr>cells := (cells p)(brk p \<mapsto> n2, a \<mapsto> n1), brk := Suc (brk p)\<rparr>, Inr (Some (?k, brk p)))"
      and img: "leaf_image n1 (take ?m ?es)" "leaf_image n2 (drop ?m ?es)"
        "next_node n1 = Some (brk p)" "next_node n2 = next_node nd"
      using insert_into_leaf_split[OF nd srt split(1,2,3), of row] a by auto
    let ?p = "p\<lparr>cells := (cells p)(brk p \<mapsto> n2, a \<mapsto> n1), brk := Suc (brk p)\<rparr>"
    have len: "length ?es = BPTREE_ORDER"
      using length_entry_insert[OF split(1), of row] split(2) order_facts(1) by simp
    have srt': "sorted_wrt (<) (map fst ?es)" using srt by (rule entry_insert_sorted)
    have rng': "\<forall>e\<in>set ?es. lo \<le> fst e \<and> fst e < hi"
      using set_entry_insert[OF split(1)] rng assms(3,4) by simp
    have m: "?m < length ?es" using len order_facts by simp
    have "?es ! ?m \<in> set ?es" using m by simp
    then have pk: "lo \<le> ?k" "?k \<le> hi" using rng' by (auto simp: less_imp_le)
    have "sorted_wrt (<) (map fst (take ?m ?es @ ?es ! ?m # drop (Suc ?m) ?es))"
      using srt' id_take_nth_drop[OF m] by simp
    then have lower: "\<forall>e\<in>set (take ?m ?es). fst e < ?k" and upper: "\<forall>e\<in>set (drop ?m ?es). ?k \<le> fst e"
      using m by (auto simp: sorted_wrt_append Cons_nth_drop_Suc[symmetric] less_imp_le)
    have ord: "ordered lo (PLeaf a (take ?m ?es)) ?k" "ordered ?k (PLeaf (brk p) (drop ?m ?es)) hi"
      using srt' rng' pk lower upper set_take_subset[of ?m ?es] set_drop_subset[of ?m ?es]
      by (auto simp: take_map[symmetric] drop_map[symmetric] sorted_wrt_take sorted_wrt_drop)
    have "subtree ?p lo (PLeaf a (take ?m ?es)) ?k n False (Some (brk p))"
      "subtree ?p ?k (PLeaf (brk p) (drop ?m ?es)) hi n False z"
      using ord img n z a len order_facts by (auto simp: subtree_def)
    moreover have "pool_frame p ?p {a}" using assms(2) a by (auto simp: pool_frame_def pool_ok_def)
    ultimately have "insert_outcome p lo (PLeaf a es) hi n r z k row ?p (Inr (Some (?k, brk p)))"
      using split a
      by (intro insert_outcome_split[where ?t1.0 = "PLeaf a (take ?m ?es)" and ?t2.0 = "PLeaf (brk p) (drop ?m ?es)"]) auto
    then show ?thesis using ins by blast
  next
    case full
    have "salvaged p (PLeaf a es) p" using nd by (auto simp: salvaged_def intro: exI[of _ "PLeaf a es"])
    with full show ?thesis
      using insert_into_leaf_full[OF nd srt full(1,2,3), of row] assms(2) n
      by (auto simp: pool_frame_def intro!: insert_outcome_fail)
  qed
qed

text \<open>The children of an inner node after the insertion below the chosen one.\<close>

lemma children_replaced:
  assumes f: "forest p ts n z" and ord: "ordered_list lo ks ts hi" and ok: "pool_ok p"
    and i: "i \<le> length ks" "\<forall>j<i. ks ! j \<le> k" "i < length ks \<longrightarrow> k < ks ! i" and k: "lo \<le> k" "k < hi"
    and fr: "pool_frame p p1 (set (addrs (ts ! i)))"
    and u: "forest p1 us n (head_or (all_leaves (drop (Suc i) ts)) z)"
    and o: "ordered_list (if i = 0 then lo else ks ! (i - 1)) ks' us (if i < length ks then ks ! i else hi)"
    and hd: "\<And>w. head_or (all_leaves us) w = head_or (leaf_addrs (ts ! i)) w"
    and es: "all_entries us = entry_insert k row (entries (ts ! i))"
    and as: "set (all_addrs us) = set (addrs (ts ! i)) \<union> {brk p..<brk p1}"
  defines "ts' \<equiv> take i ts @ us @ drop (Suc i) ts"
  shows "forest p1 ts' n z" "ordered_list lo (take i ks @ ks' @ drop i ks) ts' hi"
    and "all_entries ts' = entry_insert k row (all_entries ts)"
    and "set (all_addrs ts') = set (all_addrs ts) \<union> {brk p..<brk p1}"
    and "\<And>w. head_or (all_leaves ts') w = head_or (all_leaves ts) w"
proof -
  have len: "length ts = Suc (length ks)" using ord by (rule ordered_list_length)
  have ts: "ts = take i ts @ ts ! i # drop (Suc i) ts" using i len by (intro id_take_nth_drop) simp
  then have f': "forest p (take i ts @ ts ! i # drop (Suc i) ts) n z" using f by simp
  show "forest p1 ts' n z" unfolding ts'_def using forest_replace(1)[OF f' ok u hd as fr] .
  show "set (all_addrs ts') = set (all_addrs ts) \<union> {brk p..<brk p1}"
    unfolding ts'_def using forest_replace(2)[OF f' ok u hd as fr] ts by simp
  show "ordered_list lo (take i ks @ ks' @ drop i ks) ts' hi"
    unfolding ts'_def using ord i(1) o by (rule ordered_list_replace)
  note sides = ordered_list_child(4,5)[OF ord i(1) k i(2) i(3)[rule_format], folded all_entries_def]
  have "all_entries ts = all_entries (take i ts) @ entries (ts ! i) @ all_entries (drop (Suc i) ts)"
    by (subst ts) simp
  then show "all_entries ts' = entry_insert k row (all_entries ts)"
    unfolding ts'_def by (simp add: es entry_insert_app[OF sides])
  have "all_leaves ts = all_leaves (take i ts) @ leaf_addrs (ts ! i) @ all_leaves (drop (Suc i) ts)"
    by (subst ts) simp
  then show "head_or (all_leaves ts') w = head_or (all_leaves ts) w" for w
    unfolding ts'_def by (simp add: hd)
qed

lemma head_or_eq_hd:
  assumes "\<And>w. head_or as w = head_or bs w"
  shows "hd as = hd bs"
  using assms[of None] by (cases as; cases bs) auto

text \<open>The step at an inner node when the child was not split.\<close>

lemma node_keep_outcome:
  assumes st: "subtree p lo (PNode a ks ts) hi (Suc n) r z" and ok: "pool_ok p"
    and i: "i \<le> length ks" "\<forall>j<i. ks ! j \<le> k" "i < length ks \<longrightarrow> k < ks ! i" and k: "lo \<le> k" "k < hi"
    and new: "k \<notin> fst ` set (entries (PNode a ks ts))" "k \<notin> fst ` set (entries (ts ! i))"
    and child: "insert_outcome p (if i = 0 then lo else ks ! (i - 1)) (ts ! i) (if i < length ks then ks ! i else hi)
        n False (head_or (all_leaves (drop (Suc i) ts)) z) k row p1 (Inr None)"
  shows "insert_outcome p lo (PNode a ks ts) hi (Suc n) r z k row p1 (Inr None)"
proof -
  let ?l = "if i = 0 then lo else ks ! (i - 1)" and ?u = "if i < length ks then ks ! i else hi"
  let ?w = "head_or (all_leaves (drop (Suc i) ts)) z"
  from st obtain nd where f: "forest p ts n z" and a: "a \<notin> set (all_addrs ts)" and ord: "ordered_list lo ks ts hi"
    and size: "(if r then 1 else min_inner) \<le> length ks" "length ks \<le> BPTREE_MAX_KEYS"
    and nd: "cells p a = Some nd" "inner_image nd ks (map ptree_addr ts)"
    by (auto simp: subtree_node)
  from child new(2) obtain c' where fr: "pool_frame p p1 (set (addrs (ts ! i)))" and grow: "brk p1 \<le> brk p + n + 1"
    and c': "subtree p1 ?l c' ?u n False ?w" "ptree_addr c' = ptree_addr (ts ! i)"
      "hd (leaf_addrs c') = hd (leaf_addrs (ts ! i))" "entries c' = entry_insert k row (entries (ts ! i))"
      "set (addrs c') = set (addrs (ts ! i)) \<union> {brk p..<brk p1}"
    unfolding insert_outcome_def by (auto simp del: split_paired_Ex)
  have len: "length ts = Suc (length ks)" using ord by (rule ordered_list_length)
  then have mem: "ts ! i \<in> set ts" using i(1) by simp
  then have ne: "leaf_addrs (ts ! i) \<noteq> []" "leaf_addrs c' \<noteq> []"
    using f c'(1) sized_nonempty by (auto simp: forest_def subtree_def)
  have sub: "set (addrs (ts ! i)) \<subseteq> set (all_addrs ts)" using mem by (auto simp: all_addrs_def)
  have alt: "a < brk p" using nd(1) ok by (metis not_le option.distinct(1) pool_ok_def)
  have nd1: "cells p1 a = Some nd" using fr a sub alt nd(1) by (auto simp: pool_frame_def)
  let ?ts = "take i ts @ [c'] @ drop (Suc i) ts"
  have "forest p1 [c'] n ?w" "ordered_list ?l [] [c'] ?u" using c'(1) by (simp_all add: subtree_forest)
  note rep = children_replaced[OF f ord ok i k fr this, where row = row]
  have new_ts: "forest p1 ?ts n z" "ordered_list lo (take i ks @ [] @ drop i ks) ?ts hi"
    "all_entries ?ts = entry_insert k row (all_entries ts)"
    "set (all_addrs ?ts) = set (all_addrs ts) \<union> {brk p..<brk p1}"
    "\<And>w. head_or (all_leaves ?ts) w = head_or (all_leaves ts) w"
    using rep c' ne by (simp_all add: head_or_hd)
  have "map ptree_addr ?ts = map ptree_addr ts"
    using c'(2) mem len i(1) by (subst (2) id_take_nth_drop[of i ts]) auto
  then have "subtree p1 lo (PNode a ks ?ts) hi (Suc n) r z"
    using new_ts a alt size nd1 nd(2) by (auto simp: subtree_node)
  then show ?thesis
    using new(1) fr grow sub new_ts head_or_eq_hd[OF new_ts(5)]
    by (intro insert_outcome_keep) (auto simp: pool_frame_def)
qed

text \<open>The node itself after one of its children was split: there is room for the promoted key, or
  the node is split too, or no cell is left for its right half.\<close>

lemma grown_node_frame:
  assumes "pool_frame p p1 as" "as \<subseteq> set (addrs (PNode a ks ts))" "a < brk p1"
  shows "pool_frame p p1 (set (addrs (PNode a ks ts)))" "pool_frame p (write_cell a nd p1) (set (addrs (PNode a ks ts)))"
    and "pool_frame p (p1\<lparr>cells := (cells p1)(brk p1 \<mapsto> n2, a \<mapsto> n1), brk := Suc (brk p1)\<rparr>) (set (addrs (PNode a ks ts)))"
  using assms by (auto simp: pool_frame_def pool_ok_def)

lemma all_split:
  "all_addrs ts = all_addrs (take m ts) @ all_addrs (drop m ts)"
  "all_leaves ts = all_leaves (take m ts) @ all_leaves (drop m ts)"
  "all_entries ts = all_entries (take m ts) @ all_entries (drop m ts)"
  by (simp_all flip: all_simps)

lemma split_node_subtrees:
  fixes n1 n2 :: BPTreeNode
  assumes f: "forest p ts n z" and ok: "pool_ok p" and ord: "ordered_list lo ks ts hi"
    and len: "length ks = BPTREE_ORDER" and a: "a \<notin> set (all_addrs ts)" "a < brk p"
  defines "m \<equiv> BPTREE_ORDER div 2" and "p' \<equiv> p\<lparr>cells := (cells p)(brk p \<mapsto> n2, a \<mapsto> n1), brk := Suc (brk p)\<rparr>"
  defines "t1 \<equiv> PNode a (take m ks) (take (Suc m) ts)" and "t2 \<equiv> PNode (brk p) (drop (Suc m) ks) (drop (Suc m) ts)"
  assumes img: "inner_image n1 (take m ks) (map ptree_addr (take (Suc m) ts))"
    "inner_image n2 (drop (Suc m) ks) (map ptree_addr (drop (Suc m) ts))"
  shows "subtree p' lo t1 (ks ! m) (Suc n) False (Some (hd (leaf_addrs t2)))"
    and "subtree p' (ks ! m) t2 hi (Suc n) False z" and "set (addrs t1) \<inter> set (addrs t2) = {}"
proof -
  have lt: "b < brk p" if "b \<in> set (all_addrs ts)" for b using forest_allocated[OF f ok that] .
  then have "forest p' ts n z"
    using f a by (subst forest_cong[where p = p]) (auto simp: p'_def)
  then have fs: "forest p' (take (Suc m) ts) n (head_or (all_leaves (drop (Suc m) ts)) z)" "forest p' (drop (Suc m) ts) n z"
    and dis: "set (all_addrs (take (Suc m) ts)) \<inter> set (all_addrs (drop (Suc m) ts)) = {}"
    using forest_app[of p' "take (Suc m) ts" "drop (Suc m) ts" n z] by simp_all
  have m: "m < length ks" "min_inner \<le> m" "m \<le> BPTREE_MAX_KEYS" "min_inner \<le> length ks - Suc m"
    "length ks - Suc m \<le> BPTREE_MAX_KEYS" using len order_facts by (simp_all add: m_def)
  have out: "a \<notin> set (all_addrs (take (Suc m) ts))" "a \<notin> set (all_addrs (drop (Suc m) ts))"
    "brk p \<notin> set (all_addrs (take (Suc m) ts))" "brk p \<notin> set (all_addrs (drop (Suc m) ts))"
    using a lt all_split(1)[of ts "Suc m"] by auto
  note os = ordered_list_split[OF ord m(1)]
  show t2: "subtree p' (ks ! m) t2 hi (Suc n) False z"
    using fs(2) out os(2) m img(2) a by (auto simp: subtree_node t2_def p'_def)
  then have "leaf_addrs t2 \<noteq> []" using sized_nonempty[of False t2] by (simp add: subtree_def)
  then have "head_or (all_leaves (drop (Suc m) ts)) z = Some (hd (leaf_addrs t2))" by (simp add: t2_def head_or_hd)
  then show "subtree p' lo t1 (ks ! m) (Suc n) False (Some (hd (leaf_addrs t2)))"
    using fs(1) out os(1) m img(1) a by (auto simp: subtree_node t1_def p'_def)
  show "set (addrs t1) \<inter> set (addrs t2) = {}" using dis out a by (auto simp: t1_def t2_def)
qed

lemma salvaged_absorb:
  assumes nd: "cells p1 a = Some nd" "inner_image nd ks (map ptree_addr ts)" and f: "forest p1 ts' n z"
    and ad: "set (all_addrs ts') = set (all_addrs ts) \<union> {brk p..<brk p1}" "a \<notin> set (all_addrs ts')" "a < brk p1"
    and ts': "map ptree_addr ts' = take (Suc i) (map ptree_addr ts) @ ra # drop (Suc i) (map ptree_addr ts)"
    and i: "i \<le> length ks"
  shows "salvaged p (PNode a ks ts) p1"
proof -
  let ?us = "take (Suc i) ts' @ drop (Suc (Suc i)) ts'"
  have "length ts = Suc (length ks)" using nd(2) by (simp add: inner_image_def)
  then have len: "length (take (Suc i) (map ptree_addr ts)) = Suc i" using i by simp
  have "map ptree_addr ?us = map ptree_addr ts"
    unfolding map_append take_map[symmetric] drop_map[symmetric] ts' using len by simp
  moreover have "all_addrs ts' = all_addrs (take (Suc i) ts') @ all_addrs (drop (Suc i) ts')"
    by (rule all_split)
  moreover have "all_addrs (drop (Suc i) ts') = all_addrs (take 1 (drop (Suc i) ts')) @ all_addrs (drop (Suc (Suc i)) ts')"
    using all_split(1)[of "drop (Suc i) ts'" 1] by simp
  ultimately show ?thesis
    using nd f ad unfolding salvaged_def
    by (intro exI[of _ "PNode a ks ?us"]) (auto simp: forest_def dest: in_set_takeD in_set_dropD)
qed

lemma absorb_outcome:
  assumes nd: "cells p1 a = Some nd" "inner_image nd ks (map ptree_addr ts)"
    and size: "(if r then 1 else min_inner) \<le> length ks" "length ks \<le> BPTREE_MAX_KEYS" and i: "i \<le> length ks"
    and new: "k \<notin> fst ` set (entries (PNode a ks ts))"
    and fr: "pool_frame p p1 as" "as \<subseteq> set (addrs (PNode a ks ts))" "brk p1 \<le> brk p + n + 1"
    and f: "forest p1 ts' n z" and ord: "ordered_list lo ks' ts' hi"
    and es: "all_entries ts' = entry_insert k row (all_entries ts)"
    and ad: "set (all_addrs ts') = set (all_addrs ts) \<union> {brk p..<brk p1}" "a \<notin> set (all_addrs ts')" "a < brk p1"
    and hd: "\<And>w. head_or (all_leaves ts') w = head_or (all_leaves ts) w"
    and ks': "ks' = take i ks @ pk # drop i ks"
    and ts': "map ptree_addr ts' = take (Suc i) (map ptree_addr ts) @ ra # drop (Suc i) (map ptree_addr ts)"
  shows "\<exists>p2 res. bptree_absorb_split p1 a i (Inr (Some (pk, ra))) = Some (p2, res) \<and>
    insert_outcome p lo (PNode a ks ts) hi (Suc n) r z k row p2 res"
proof -
  note frame = grown_node_frame[OF fr(1,2) ad(3)]
  have grow: "brk p \<le> brk p1" "limit p1 = limit p" "pool_ok p1" using fr(1) by (auto simp: pool_frame_def)
  consider (room) "length ks < BPTREE_MAX_KEYS" | (split) "length ks = BPTREE_MAX_KEYS" "brk p1 < limit p1"
    | (full) "length ks = BPTREE_MAX_KEYS" "limit p1 \<le> brk p1" using size(2) by linarith
  then show ?thesis
  proof cases
    case room
    then obtain n' where ins: "bptree_absorb_split p1 a i (Inr (Some (pk, ra))) = Some (write_cell a n' p1, Inr None)"
      and img: "inner_image n' ks' (map ptree_addr ts')"
      using absorb_room[OF nd i] unfolding ks' ts' by blast
    have "forest (write_cell a n' p1) ts' n z"
      using f ad(2) by (subst forest_cong[where p = p1]) auto
    then have "subtree (write_cell a n' p1) lo (PNode a ks' ts') hi (Suc n) r z"
      using ad(2) ord size room img i by (auto simp: subtree_node ks')
    then have "insert_outcome p lo (PNode a ks ts) hi (Suc n) r z k row (write_cell a n' p1) (Inr None)"
      using new frame fr(3) es ad hd head_or_eq_hd[OF hd] by (intro insert_outcome_keep) auto
    then show ?thesis using ins by blast
  next
    case split
    let ?m = "BPTREE_ORDER div 2"
    obtain n1 n2 where ins: "bptree_absorb_split p1 a i (Inr (Some (pk, ra))) =
        Some (p1\<lparr>cells := (cells p1)(brk p1 \<mapsto> n2, a \<mapsto> n1), brk := Suc (brk p1)\<rparr>, Inr (Some (ks' ! ?m, brk p1)))"
      and img: "inner_image n1 (take ?m ks') (map ptree_addr (take (Suc ?m) ts'))"
        "inner_image n2 (drop (Suc ?m) ks') (map ptree_addr (drop (Suc ?m) ts'))"
      using absorb_split[OF nd i split, of pk ra] ad(3) unfolding ks' ts' take_map[symmetric] drop_map[symmetric] by auto
    let ?p = "p1\<lparr>cells := (cells p1)(brk p1 \<mapsto> n2, a \<mapsto> n1), brk := Suc (brk p1)\<rparr>"
    let ?t1 = "PNode a (take ?m ks') (take (Suc ?m) ts')" and ?t2 = "PNode (brk p1) (drop (Suc ?m) ks') (drop (Suc ?m) ts')"
    have len: "length ks' = BPTREE_ORDER" using split(1) i order_facts(1) by (simp add: ks')
    note halves = split_node_subtrees[OF f grow(3) ord len ad(2,3) img]
    have "leaf_addrs ?t1 \<noteq> []" "entries ?t1 @ entries ?t2 = all_entries ts'"
      "set (addrs ?t1) \<union> set (addrs ?t2) = {a, brk p1} \<union> set (all_addrs ts')" "all_leaves ts' = leaf_addrs ?t1 @ leaf_addrs ?t2"
      using sized_nonempty[of False ?t1] halves(1) all_split[of ts' "Suc ?m"] by (auto simp: subtree_def)
    then have "insert_outcome p lo (PNode a ks ts) hi (Suc n) r z k row ?p (Inr (Some (ks' ! ?m, brk p1)))"
      using new frame(3) fr(3) halves grow(1) es ad head_or_eq_hd[OF hd]
      by (intro insert_outcome_split[where ?t1.0 = ?t1 and ?t2.0 = ?t2]) auto
    then show ?thesis using ins by blast
  next
    case full
    have "insert_outcome p lo (PNode a ks ts) hi (Suc n) r z k row p1 (fail ''failed to allocate B+ tree node'')"
      using new frame(1) fr(3) grow full(2) salvaged_absorb[OF nd f ad ts' i] by (intro insert_outcome_fail) auto
    then show ?thesis using absorb_full[OF nd i full] by blast
  qed
qed

lemma node_split_outcome:
  assumes st: "subtree p lo (PNode a ks ts) hi (Suc n) r z" and ok: "pool_ok p"
    and i: "i \<le> length ks" "\<forall>j<i. ks ! j \<le> k" "i < length ks \<longrightarrow> k < ks ! i" and k: "lo \<le> k" "k < hi"
    and new: "k \<notin> fst ` set (entries (PNode a ks ts))" "k \<notin> fst ` set (entries (ts ! i))"
    and child: "insert_outcome p (if i = 0 then lo else ks ! (i - 1)) (ts ! i) (if i < length ks then ks ! i else hi)
        n False (head_or (all_leaves (drop (Suc i) ts)) z) k row p1 (Inr (Some (pk, ra)))"
  shows "\<exists>p2 res. bptree_absorb_split p1 a i (Inr (Some (pk, ra))) = Some (p2, res) \<and>
    insert_outcome p lo (PNode a ks ts) hi (Suc n) r z k row p2 res"
proof -
  let ?l = "if i = 0 then lo else ks ! (i - 1)" and ?u = "if i < length ks then ks ! i else hi"
  let ?w = "head_or (all_leaves (drop (Suc i) ts)) z"
  from st obtain nd where f: "forest p ts n z" and a: "a \<notin> set (all_addrs ts)" and ord: "ordered_list lo ks ts hi"
    and size: "(if r then 1 else min_inner) \<le> length ks" "length ks \<le> BPTREE_MAX_KEYS"
    and nd: "cells p a = Some nd" "inner_image nd ks (map ptree_addr ts)"
    by (auto simp: subtree_node)
  from child new(2) obtain c1 c2 where fr: "pool_frame p p1 (set (addrs (ts ! i)))" and grow: "brk p1 \<le> brk p + n + 1"
    and c: "subtree p1 ?l c1 pk n False (Some (hd (leaf_addrs c2)))" "subtree p1 pk c2 ?u n False ?w"
      "ptree_addr c1 = ptree_addr (ts ! i)" "ptree_addr c2 = ra" "hd (leaf_addrs c1) = hd (leaf_addrs (ts ! i))"
      "entries c1 @ entries c2 = entry_insert k row (entries (ts ! i))"
      "set (addrs c1) \<union> set (addrs c2) = set (addrs (ts ! i)) \<union> {brk p..<brk p1}" "set (addrs c1) \<inter> set (addrs c2) = {}"
    unfolding insert_outcome_def by (auto simp del: split_paired_Ex)
  have len: "length ts = Suc (length ks)" using ord by (rule ordered_list_length)
  then have mem: "ts ! i \<in> set ts" using i(1) by simp
  then have ne: "leaf_addrs (ts ! i) \<noteq> []" "leaf_addrs c1 \<noteq> []" "leaf_addrs c2 \<noteq> []"
    using f c(1,2) sized_nonempty by (auto simp: forest_def subtree_def)
  have sub: "set (addrs (ts ! i)) \<subseteq> set (all_addrs ts)" using mem by (auto simp: all_addrs_def)
  have alt: "a < brk p" using nd(1) ok by (metis not_le option.distinct(1) pool_ok_def)
  have nd1: "cells p1 a = Some nd" "a < brk p1" using fr a sub alt nd(1) by (auto simp: pool_frame_def)
  let ?ts = "take i ts @ [c1, c2] @ drop (Suc i) ts"
  have "forest p1 [c1, c2] n ?w" using c ne forest_app[of p1 "[c1]" "[c2]" n ?w] by (simp add: subtree_forest head_or_hd)
  moreover have "ordered_list ?l [pk] [c1, c2] ?u" using c by (simp add: subtree_def)
  ultimately have new_ts: "forest p1 ?ts n z" "ordered_list lo (take i ks @ [pk] @ drop i ks) ?ts hi"
    "all_entries ?ts = entry_insert k row (all_entries ts)"
    "set (all_addrs ?ts) = set (all_addrs ts) \<union> {brk p..<brk p1}"
    "\<And>w. head_or (all_leaves ?ts) w = head_or (all_leaves ts) w"
    using children_replaced[OF f ord ok i k fr, of "[c1, c2]" "[pk]" row] c ne by (simp_all add: head_or_hd)
  have "map ptree_addr ?ts = take (Suc i) (map ptree_addr ts) @ ra # drop (Suc i) (map ptree_addr ts)"
    using c(3,4) len i(1) by (simp add: take_map drop_map take_Suc_conv_app_nth)
  then show ?thesis
    using new_ts alt a sub
    by (intro absorb_outcome[OF nd1(1) nd(2) size i(1) new(1) fr _ grow new_ts(1) new_ts(2)]) (auto simp: nd1)
qed

text \<open>The child an insertion or a search descends to holds the key, or no entry of the node does.\<close>

lemma child_key:
  assumes "ordered_list lo ks ts hi" and "i \<le> length ks" "\<forall>j<i. ks ! j \<le> k" "i < length ks \<longrightarrow> k < ks ! i"
    and "lo \<le> k" "k < hi"
  shows "k \<in> fst ` set (all_entries ts) \<longleftrightarrow> k \<in> fst ` set (entries (ts ! i))"
    and "map_of (all_entries ts) k = map_of (entries (ts ! i)) k"
proof -
  have "length ts = Suc (length ks)" using assms(1) by (rule ordered_list_length)
  then have ts: "ts = take i ts @ ts ! i # drop (Suc i) ts" using assms(2) by (intro id_take_nth_drop) simp
  have es: "all_entries ts = all_entries (take i ts) @ entries (ts ! i) @ all_entries (drop (Suc i) ts)"
    by (subst ts) simp
  have "\<forall>e\<in>set (all_entries (take i ts)). fst e < k" "\<forall>e\<in>set (all_entries (drop (Suc i) ts)). k < fst e"
    using ordered_list_child(4,5)[OF assms(1,2,5,6,3)] assms(4) by (simp_all add: all_entries_def)
  then have no: "k \<notin> fst ` set (all_entries (take i ts))" "k \<notin> fst ` set (all_entries (drop (Suc i) ts))" by auto
  then show "k \<in> fst ` set (all_entries ts) \<longleftrightarrow> k \<in> fst ` set (entries (ts ! i))"
    unfolding es by (simp add: image_Un)
  from no have "map_of (all_entries (take i ts)) k = None" "map_of (all_entries (drop (Suc i) ts)) k = None"
    by (simp_all add: map_of_eq_None_iff)
  then show "map_of (all_entries ts) k = map_of (entries (ts ! i)) k"
    unfolding es by (auto simp: map_add_def split: option.splits)
qed

lemma inner_image_child:
  assumes "inner_image nd ks as" "i \<le> length ks"
  shows "arr_get (children nd) i = Some (Some (as ! i))"
proof -
  have img: "length (children nd) = Suc BPTREE_ORDER" "take (Suc (length ks)) (children nd) = map Some as"
    "length as = Suc (length ks)"
    using assms(1) by (simp_all add: inner_image_def node_arrays_def)
  then have "length ks \<le> BPTREE_ORDER" by (metis Suc_le_mono length_map length_take min.absorb_iff2)
  moreover have "children nd ! i = take (Suc (length ks)) (children nd) ! i" using assms(2) by simp
  ultimately show ?thesis using img assms(2) by simp
qed

lemma salvaged_child:
  assumes st: "subtree p lo (PNode a ks ts) hi (Suc n) r z" and ok: "pool_ok p" and i: "i \<le> length ks"
    and sal: "salvaged p (ts ! i) p1" and fr: "pool_frame p p1 (set (addrs (ts ! i)))"
  shows "salvaged p (PNode a ks ts) p1"
proof -
  from st obtain nd where f: "forest p ts n z" and a: "a \<notin> set (all_addrs ts)" and ord: "ordered_list lo ks ts hi"
    and nd: "cells p a = Some nd" "inner_image nd ks (map ptree_addr ts)"
    by (auto simp: subtree_node)
  from sal obtain c where c: "represents (cells p1) c" "distinct (addrs c)" "ptree_addr c = ptree_addr (ts ! i)"
    "set (addrs c) \<subseteq> set (addrs (ts ! i)) \<union> {brk p..<brk p1}" by (auto simp: salvaged_def)
  have i': "i < length ts" using ordered_list_length[OF ord] i by simp
  let ?xs = "take i ts" and ?ys = "drop (Suc i) ts"
  have ts: "ts = ?xs @ ts ! i # ?ys" using i' by (rule id_take_nth_drop)
  then have as: "all_addrs ts = all_addrs ?xs @ addrs (ts ! i) @ all_addrs ?ys" by (metis all_simps(2,3))
  have lt: "b < brk p" if "b \<in> set (all_addrs ts)" for b using forest_allocated[OF f ok that] .
  have dis: "distinct (all_addrs ts)" using f by (simp add: forest_def)
  have alt: "a < brk p" using nd(1) ok by (metis not_le option.distinct(1) pool_ok_def)
  have "represents (cells p1) t" if t: "t \<in> set ?xs \<union> set ?ys" for t
  proof -
    from t have "set (addrs t) \<subseteq> set (all_addrs ?xs) \<union> set (all_addrs ?ys)" by (auto simp: all_addrs_def)
    then have "b \<notin> set (addrs (ts ! i)) \<and> b < brk p" if "b \<in> set (addrs t)" for b
      using that dis as lt[of b] by auto
    then have "cells p1 b = cells p b" if "b \<in> set (addrs t)" for b
      using that fr by (simp add: pool_frame_def)
    moreover from t have "represents (cells p) t" using f by (auto simp: forest_def dest: in_set_takeD in_set_dropD)
    ultimately show ?thesis using represents_cong by blast
  qed
  moreover have "map ptree_addr (?xs @ c # ?ys) = map ptree_addr ts" using c(3) by (subst (3) ts) simp
  moreover have "cells p1 a = Some nd" using fr a as alt nd(1) by (auto simp: pool_frame_def)
  moreover have "distinct (a # all_addrs (?xs @ c # ?ys))" using a as dis lt c(2,4) alt by fastforce
  moreover have "set (all_addrs (?xs @ c # ?ys)) \<subseteq> set (all_addrs ts) \<union> {brk p..<brk p1}" using as c(4) by auto
  ultimately show ?thesis
    using nd(2) c(1) unfolding salvaged_def by (intro exI[of _ "PNode a ks (?xs @ c # ?ys)"]) auto
qed

lemma node_insert_outcome:
  assumes st: "subtree p lo (PNode a ks ts) hi (Suc n) r z" and ok: "pool_ok p"
    and i: "i \<le> length ks" "\<forall>j<i. ks ! j \<le> k" "i < length ks \<longrightarrow> k < ks ! i" and k: "lo \<le> k" "k < hi"
    and child: "insert_outcome p (if i = 0 then lo else ks ! (i - 1)) (ts ! i) (if i < length ks then ks ! i else hi)
        n False (head_or (all_leaves (drop (Suc i) ts)) z) k row p1 res"
  shows "\<exists>p2 res'. bptree_absorb_split p1 a i res = Some (p2, res') \<and>
    insert_outcome p lo (PNode a ks ts) hi (Suc n) r z k row p2 res'"
proof (cases "k \<in> fst ` set (entries (PNode a ks ts))")
  case True
  then have "k \<in> fst ` set (entries (ts ! i))" using child_key(1)[OF _ i k] st by (auto simp: subtree_node)
  then show ?thesis using child True by (auto simp: insert_outcome_def bptree_absorb_split_def)
next
  case False
  have ord: "ordered_list lo ks ts hi" using st by (simp add: subtree_node)
  then have new: "k \<notin> fst ` set (entries (ts ! i))" using False child_key(1)[OF ord i k] by simp
  have "ts ! i \<in> set ts" using ordered_list_length[OF ord] i(1) by simp
  then have sub: "set (addrs (ts ! i)) \<subseteq> set (addrs (PNode a ks ts))" by (auto simp: all_addrs_def)
  show ?thesis
  proof (cases res)
    case (Inl e)
    with child new have "salvaged p (ts ! i) p1" "pool_frame p p1 (set (addrs (ts ! i)))" by (auto simp: insert_outcome_def)
    with st ok i(1) have "salvaged p (PNode a ks ts) p1" by (rule salvaged_child)
    then show ?thesis
      using Inl child new False sub by (auto simp: insert_outcome_def bptree_absorb_split_def pool_frame_def)
  next
    case (Inr promoted)
    show ?thesis
    proof (cases promoted)
      case None
      then show ?thesis
        using node_keep_outcome[OF st ok i k False new] child Inr by (simp add: bptree_absorb_split_def)
    next
      case (Some kr)
      then show ?thesis
        using node_split_outcome[OF st ok i k False new] child Inr by (cases kr) simp
    qed
  qed
qed

lemma insert_recursive_outcome:
  assumes "subtree p lo t hi n r z" "pool_ok p" "lo \<le> k" "k < hi"
  shows "\<exists>p' res. bptree_insert_recursive p (ptree_addr t) k row = Some (p', res) \<and>
    insert_outcome p lo t hi n r z k row p' res"
  using assms
proof (induction t arbitrary: lo hi n r z)
  case (PLeaf a es)
  from PLeaf.prems(1) obtain nd where "cells p a = Some nd" "is_leaf nd" by (auto simp: subtree_def leaf_image_def)
  then show ?case
    using leaf_insert_outcome[OF PLeaf.prems, of row] by (simp add: bptree_insert_recursive.simps)
next
  case (PNode a ks ts)
  from PNode.prems(1) obtain nd m where nd: "cells p a = Some nd" "inner_image nd ks (map ptree_addr ts)" and n: "n = Suc m"
    and f: "forest p ts m z" and ord: "ordered_list lo ks ts hi"
    by (auto simp: subtree_node)
  obtain i where ci: "bptree_child_index nd k = Some i"
    and i: "i \<le> length ks" "\<forall>j<i. ks ! j \<le> k" "i < length ks \<longrightarrow> k < ks ! i"
    using bptree_child_index_spec[OF nd(2)] by blast
  let ?l = "if i = 0 then lo else ks ! (i - 1)" and ?u = "if i < length ks then ks ! i else hi"
  have len: "length ts = Suc (length ks)" using ord by (rule ordered_list_length)
  have bounds: "ordered ?l (ts ! i) ?u" "?l \<le> k" "k < ?u"
    using ordered_list_child(1-3)[OF ord i(1) PNode.prems(3,4) i(2)] i(3) by simp_all
  have ts: "ts = take i ts @ ts ! i # drop (Suc i) ts" using i(1) len by (intro id_take_nth_drop) simp
  have "forest p (take i ts @ [ts ! i] @ drop (Suc i) ts) m z" using f ts by simp
  then have "forest p [ts ! i] m (head_or (all_leaves (drop (Suc i) ts)) z)" unfolding forest_app by blast
  then have "subtree p ?l (ts ! i) ?u m False (head_or (all_leaves (drop (Suc i) ts)) z)"
    using bounds(1) by (simp add: subtree_forest)
  moreover have "ts ! i \<in> set ts" using i(1) len by simp
  ultimately obtain p1 res where rec: "bptree_insert_recursive p (ptree_addr (ts ! i)) k row = Some (p1, res)"
    and out: "insert_outcome p ?l (ts ! i) ?u m False (head_or (all_leaves (drop (Suc i) ts)) z) k row p1 res"
    using PNode.IH[OF _ _ PNode.prems(2) bounds(2,3)] by blast
  have "arr_get (children nd) i = Some (Some (ptree_addr (ts ! i)))"
    using inner_image_child[OF nd(2)] i(1) len by simp
  moreover have "\<not> is_leaf nd" using nd(2) by (simp add: inner_image_def)
  ultimately show ?case
    using node_insert_outcome[OF PNode.prems(1)[unfolded n] PNode.prems(2) i PNode.prems(3,4) out] nd(1) ci rec n
    by (subst bptree_insert_recursive.simps) simp
qed

end
