(* ===== verification/Bptree_Index.thy ===== *)
theory Bptree_Index
  imports Bptree_Insert
begin

text \<open>
  The B+ tree as an index: the representation invariant of a whole tree, the behaviour of
  \<open>bptree_insert\<close>, \<open>bptree_search\<close>, \<open>bptree_collect_keys\<close> and \<open>bptree_destroy\<close> in terms of the sorted
  list of its entries, the height bound, and the interface \<open>ordered_index\<close> its clients rely on.
\<close>

section \<open>The representation invariant\<close>

definition bptree_rep :: "BPTree \<Rightarrow> (int \<times> int) list \<Rightarrow> bool" where
  "bptree_rep T es \<longleftrightarrow> pool_ok (pool T) \<and>
     (case root T of
        None \<Rightarrow> es = [] \<and> dom (cells (pool T)) = {}
      | Some r \<Rightarrow> \<exists>t n. ptree_addr t = r \<and> subtree (pool T) INT_MIN t (INT_MAX + 1) n True None \<and>
          entries t = es \<and> dom (cells (pool T)) = set (addrs t))"

text \<open>What is left of the invariant when an insertion failed for lack of memory.\<close>

definition bptree_safe :: "BPTree \<Rightarrow> bool" where
  "bptree_safe T \<longleftrightarrow>
     (case root T of
        None \<Rightarrow> True
      | Some r \<Rightarrow> \<exists>t. ptree_addr t = r \<and> represents (cells (pool T)) t \<and> distinct (addrs t))"

lemma rep_safe: "bptree_rep T es \<Longrightarrow> bptree_safe T"
  by (auto simp: bptree_rep_def bptree_safe_def subtree_def split: option.splits)

lemma rep_create: "bptree_create True lim = Some T \<Longrightarrow> bptree_rep T []"
  by (auto simp: bptree_create_def bptree_rep_def pool_ok_def)

lemma rep_sorted:
  assumes "bptree_rep T es"
  shows "sorted_wrt (<) (map fst es)" and "e \<in> set es \<Longrightarrow> int32 (fst e)"
proof -
  have "sorted_wrt (<) (map fst es) \<and> (\<forall>e\<in>set es. INT_MIN \<le> fst e \<and> fst e < INT_MAX + 1)"
    using assms by (auto simp: bptree_rep_def subtree_def split: option.splits dest: ordered_sorted ordered_bounds)
  then show "sorted_wrt (<) (map fst es)" "e \<in> set es \<Longrightarrow> int32 (fst e)" by (auto simp: int32_def)
qed

section \<open>Height\<close>

lemma sum_list_lower: "(\<And>x. x \<in> set xs \<Longrightarrow> c \<le> f x) \<Longrightarrow> length xs * c \<le> sum_list (map f xs)" for c :: nat
  by (induction xs) (auto intro: add_mono)

lemma all_entries_length: "length (all_entries ts) = sum_list (map (length \<circ> entries) ts)"
  by (simp add: all_entries_def length_concat)

lemma sized_entries:
  "balanced n t \<Longrightarrow> sized False t \<Longrightarrow> min_leaf * Suc min_inner ^ n \<le> length (entries t)"
proof (induction t arbitrary: n)
  case (PNode a ks ts)
  then obtain m where n: "n = Suc m" by (cases n) auto
  have "min_leaf * Suc min_inner ^ m \<le> (length \<circ> entries) t" if "t \<in> set ts" for t
    using PNode that n by simp
  then have "length ts * (min_leaf * Suc min_inner ^ m) \<le> length (all_entries ts)"
    unfolding all_entries_length by (rule sum_list_lower)
  moreover have "Suc min_inner \<le> length ts" using PNode.prems by simp
  then have "Suc min_inner * (min_leaf * Suc min_inner ^ m) \<le> length ts * (min_leaf * Suc min_inner ^ m)"
    by (rule mult_le_mono1)
  ultimately show ?case using n by (simp add: algebra_simps)
qed simp

lemma root_entries:
  assumes "balanced (Suc n) t" "sized True t"
  shows "2 * (min_leaf * Suc min_inner ^ n) \<le> length (entries t)"
proof (cases t)
  case (PNode a ks ts)
  have "length ts * (min_leaf * Suc min_inner ^ n) \<le> length (all_entries ts)"
    unfolding all_entries_length using assms PNode by (intro sum_list_lower) (simp add: sized_entries)
  moreover have "2 \<le> length ts" using assms PNode by simp
  then have "2 * (min_leaf * Suc min_inner ^ n) \<le> length ts * (min_leaf * Suc min_inner ^ n)" by (rule mult_le_mono1)
  ultimately show ?thesis unfolding PNode node_all by linarith
qed (use assms in simp)

lemma int32_card: "distinct xs \<Longrightarrow> (\<And>x. x \<in> set xs \<Longrightarrow> int32 x) \<Longrightarrow> length xs \<le> 2 ^ 32"
proof -
  assume d: "distinct xs" and "\<And>x. x \<in> set xs \<Longrightarrow> int32 x"
  then have "set xs \<subseteq> {INT_MIN..INT_MAX}" by (auto simp: int32_def)
  then have "card (set xs) \<le> card {INT_MIN..INT_MAX}" by (intro card_mono) auto
  then show ?thesis using distinct_card[OF d] by simp
qed

lemma height_bound:
  assumes "subtree p INT_MIN t (INT_MAX + 1) n True z"
  shows "n \<le> 5"
proof (rule ccontr)
  assume "\<not> n \<le> 5"
  then obtain m where n: "n = Suc m" "5 \<le> m" by (cases n) auto
  have srt: "sorted_wrt (<) (map fst (entries t))" and rng: "\<forall>e\<in>set (entries t). INT_MIN \<le> fst e \<and> fst e < INT_MAX + 1"
    using assms by (auto simp: subtree_def dest: ordered_sorted ordered_bounds)
  have "2 * (min_leaf * Suc min_inner ^ m) \<le> length (entries t)"
    using assms n by (intro root_entries) (simp_all add: subtree_def)
  moreover have "length (map fst (entries t)) \<le> 2 ^ 32"
    using srt rng by (intro int32_card) (auto simp: strict_sorted_iff int32_def)
  moreover have "(50 :: nat) ^ 5 \<le> 50 ^ m" using n(2) by (intro power_increasing) auto
  ultimately show False by (simp add: min_leaf_def min_inner_def BPTREE_ORDER_def)
qed

section \<open>Insertion\<close>

lemma rep_root:
  assumes "bptree_rep T es" "root T = Some r"
  obtains t n where "ptree_addr t = r" "subtree (pool T) INT_MIN t (INT_MAX + 1) n True None" "entries t = es"
    "dom (cells (pool T)) = set (addrs t)" "pool_ok (pool T)" "n \<le> 5"
  using assms height_bound by (auto simp: bptree_rep_def)

lemma rep_insert_duplicate:
  assumes "bptree_rep T es" "k \<in> fst ` set es"
  shows "bptree_insert (Some T) k row = Some (Some T, fail (''duplicate id: '' @ show_int k))"
proof -
  obtain r where r: "root T = Some r" using assms by (auto simp: bptree_rep_def split: option.splits)
  from assms(1) r obtain t n where t: "ptree_addr t = r" "subtree (pool T) INT_MIN t (INT_MAX + 1) n True None"
    "entries t = es" "pool_ok (pool T)" by (rule rep_root)
  have "int32 k" using rep_sorted(2)[OF assms(1)] assms(2) by auto
  then show ?thesis
    using insert_recursive_outcome[OF t(2,4), of k row] r t(1,3) assms(2)
    by (auto simp: insert_outcome_def bptree_insert_def int32_def)
qed

lemma rep_insert_empty:
  assumes "bptree_rep T es" "root T = None" "int32 k" "0 < limit (pool T) - brk (pool T)"
  shows "\<exists>T'. bptree_insert (Some T) k row = Some (Some T', Inr ()) \<and> bptree_rep T' [(k, row)] \<and>
    limit (pool T') = limit (pool T) \<and> brk (pool T') = Suc (brk (pool T))"
proof -
  let ?p = "pool T"
  have es: "es = []" "cells ?p = Map.empty" "pool_ok ?p" using assms(1,2) by (auto simp: bptree_rep_def)
  obtain i where i: "BPTREE_MAX_KEYS = Suc i" by (simp add: BPTREE_MAX_KEYS_def BPTREE_ORDER_def)
  let ?nd = "(zeroed_node True)\<lparr>keys := (keys (zeroed_node True))[0 := k],
    row_indexes := (row_indexes (zeroed_node True))[0 := row], key_count := 1\<rparr>"
  let ?T = "T\<lparr>root := Some (brk ?p), pool := write_cell (brk ?p) ?nd
    (?p\<lparr>cells := (cells ?p)(brk ?p \<mapsto> zeroed_node True), brk := Suc (brk ?p)\<rparr>)\<rparr>"
  have "leaf_image ?nd [(k, row)]"
    by (simp add: leaf_image_def node_arrays_def zeroed_node_def i)
  then have "subtree (pool ?T) INT_MIN (PLeaf (brk ?p) [(k, row)]) (INT_MAX + 1) 0 True None"
    using assms(3) by (simp add: subtree_def int32_def zeroed_node_def i)
  then have "bptree_rep ?T [(k, row)]"
    using es unfolding bptree_rep_def
    by (auto simp: pool_ok_def write_cell_def intro!: exI[of _ "PLeaf (brk ?p) [(k, row)]"] exI[of _ 0])
  moreover have "bptree_insert (Some T) k row = Some (Some ?T, Inr ())"
    using assms(2,4) by (simp add: bptree_insert_def bptree_node_create_def zeroed_node_def i)
  ultimately show ?thesis by (intro exI[of _ ?T]) (simp add: write_cell_def)
qed

text \<open>A root that was split gets a new root with the two halves as children.\<close>

lemma new_root_subtree:
  assumes "subtree p INT_MIN t1 pk n False (Some (hd (leaf_addrs t2)))" "subtree p pk t2 (INT_MAX + 1) n False None"
    and "set (addrs t1) \<inter> set (addrs t2) = {}" "pool_ok p"
  defines "nd \<equiv> (zeroed_node False)\<lparr>keys := (keys (zeroed_node False))[0 := pk],
    children := (children (zeroed_node False))[0 := Some (ptree_addr t1), 1 := Some (ptree_addr t2)], key_count := 1\<rparr>"
  shows "subtree (p\<lparr>cells := (cells p)(brk p \<mapsto> nd), brk := Suc (brk p)\<rparr>) INT_MIN (PNode (brk p) [pk] [t1, t2])
    (INT_MAX + 1) (Suc n) True None"
proof -
  obtain i where i: "BPTREE_MAX_KEYS = Suc i" "BPTREE_ORDER = Suc (Suc i)" by (simp add: BPTREE_MAX_KEYS_def BPTREE_ORDER_def)
  have ne: "leaf_addrs t2 \<noteq> []" using assms(2) sized_nonempty by (auto simp: subtree_def)
  then have f: "forest p [t1, t2] n None"
    using assms(1-3) forest_app[of p "[t1]" "[t2]" n None] by (simp add: subtree_forest head_or_hd)
  have out: "brk p \<notin> set (all_addrs [t1, t2])" using forest_allocated[OF f assms(4)] by blast
  have "forest (p\<lparr>cells := (cells p)(brk p \<mapsto> nd), brk := Suc (brk p)\<rparr>) [t1, t2] n None"
    using f out by (subst forest_cong[where p = p]) auto
  moreover have "inner_image nd [pk] (map ptree_addr [t1, t2])"
    by (simp add: inner_image_def node_arrays_def nd_def zeroed_node_def i)
  moreover have "ordered_list INT_MIN [pk] [t1, t2] (INT_MAX + 1)" using assms(1,2) by (simp add: subtree_def)
  ultimately show ?thesis using out by (simp add: subtree_node i)
qed

text \<open>Room for seven more nodes is enough for any insertion: the tree is at most five levels above
  its leaves.\<close>

definition index_room :: "BPTree \<Rightarrow> nat" where
  "index_room T = limit (pool T) - brk (pool T)"

definition alloc_failed :: "BPTree \<Rightarrow> BPTree \<Rightarrow> unit result \<Rightarrow> bool" where
  "alloc_failed T T' res \<longleftrightarrow> index_room T < 7 \<and> res = fail ''failed to allocate B+ tree node'' \<and> bptree_safe T'"

lemma subtree_dom: "subtree p lo t hi n r z \<Longrightarrow> set (addrs t) \<subseteq> dom (cells p)"
  using represents_allocated by (fastforce simp: subtree_def)

lemma outcome_dom:
  assumes "pool_frame p p' (set (addrs t))" "dom (cells p) = set (addrs t)"
  shows "dom (cells p') \<subseteq> set (addrs t) \<union> {brk p..<brk p'}"
proof
  fix a assume a: "a \<in> dom (cells p')"
  then have "a < brk p'" using assms(1) by (auto simp: pool_frame_def pool_ok_def not_le[symmetric])
  moreover have "a \<in> set (addrs t)" if "a < brk p"
  proof (rule ccontr)
    assume "a \<notin> set (addrs t)"
    with assms(1) that have "cells p' a = cells p a" by (simp add: pool_frame_def)
    with a assms(2) \<open>a \<notin> set (addrs t)\<close> show False by (metis domIff)
  qed
  ultimately show "a \<in> set (addrs t) \<union> {brk p..<brk p'}" by fastforce
qed

lemma new_root_outcome:
  assumes h: "subtree p INT_MIN t1 pk n False (Some (hd (leaf_addrs t2)))" "subtree p pk t2 (INT_MAX + 1) n False None"
      "set (addrs t1) \<inter> set (addrs t2) = {}"
    and p: "pool_ok p" "dom (cells p) = set (addrs t1) \<union> set (addrs t2)"
    and r: "root T = Some r" "ptree_addr t1 = r" "ptree_addr t2 = ra"
    and rec: "bptree_insert_recursive (pool T) r k row = Some (p, Inr (Some (pk, ra)))"
    and grow: "limit p = limit (pool T)" "brk (pool T) \<le> brk p" "brk p \<le> brk (pool T) + 6"
  shows "\<exists>T' res. bptree_insert (Some T) k row = Some (Some T', res) \<and> index_room T \<le> index_room T' + 7 \<and>
    (res = Inr () \<and> bptree_rep T' (entries t1 @ entries t2) \<or> alloc_failed T T' res)"
proof (cases "brk p < limit p")
  case True
  obtain i where i: "BPTREE_MAX_KEYS = Suc i" "BPTREE_ORDER = Suc (Suc i)" by (simp add: BPTREE_MAX_KEYS_def BPTREE_ORDER_def)
  let ?z = "zeroed_node False"
  define nd where "nd = ?z\<lparr>keys := (keys ?z)[0 := pk],
    children := (children ?z)[0 := Some (ptree_addr t1), 1 := Some (ptree_addr t2)], key_count := 1\<rparr>"
  let ?p = "p\<lparr>cells := (cells p)(brk p \<mapsto> nd), brk := Suc (brk p)\<rparr>"
  let ?T = "T\<lparr>root := Some (brk p), pool := ?p\<rparr>" and ?t = "PNode (brk p) [pk] [t1, t2]"
  have "bptree_insert (Some T) k row = Some (Some ?T, Inr ())"
    using r rec True by (simp add: bptree_insert_def bptree_node_create_def write_cell_def zeroed_node_def i nd_def)
  moreover have "subtree ?p INT_MIN ?t (INT_MAX + 1) (Suc n) True None"
    unfolding nd_def using h p(1) by (rule new_root_subtree)
  then have "bptree_rep ?T (entries t1 @ entries t2)"
    using p unfolding bptree_rep_def by (auto simp: pool_ok_def intro!: exI[of _ ?t] exI[of _ "Suc n"])
  ultimately show ?thesis using grow by (intro exI[of _ ?T]) (auto simp: index_room_def)
next
  case False
  have "bptree_insert (Some T) k row = Some (Some (T\<lparr>pool := p\<rparr>), fail ''failed to allocate B+ tree node'')"
    using r rec False by (simp add: bptree_insert_def bptree_node_create_def)
  moreover have "bptree_safe (T\<lparr>pool := p\<rparr>)" using r h(1) by (auto simp: bptree_safe_def subtree_def)
  ultimately show ?thesis using False grow by (auto simp: alloc_failed_def index_room_def)
qed

lemma rep_insert_root:
  assumes t: "ptree_addr t = r" "subtree (pool T) INT_MIN t (INT_MAX + 1) n True None" "entries t = es"
      "dom (cells (pool T)) = set (addrs t)" "pool_ok (pool T)" "n \<le> 5" and r: "root T = Some r"
    and k: "int32 k" "k \<notin> fst ` set es"
  shows "\<exists>T' res. bptree_insert (Some T) k row = Some (Some T', res) \<and> index_room T \<le> index_room T' + 7 \<and>
    (res = Inr () \<and> bptree_rep T' (entry_insert k row es) \<or> alloc_failed T T' res)"
proof -
  obtain p1 res where rec: "bptree_insert_recursive (pool T) r k row = Some (p1, res)"
    and out: "insert_outcome (pool T) INT_MIN t (INT_MAX + 1) n True None k row p1 res"
    using insert_recursive_outcome[OF t(2,5), of k row] k(1) t(1) by (auto simp: int32_def)
  from out k(2) t(3) have fr: "pool_frame (pool T) p1 (set (addrs t))" and grow: "brk p1 \<le> brk (pool T) + n + 1"
    by (auto simp: insert_outcome_def)
  then have frame: "brk (pool T) \<le> brk p1" "limit p1 = limit (pool T)" "pool_ok p1" by (auto simp: pool_frame_def)
  consider (failed) e where "res = Inl e" | (keep) "res = Inr None" | (split) pk ra where "res = Inr (Some (pk, ra))"
    by (cases res; cases "projr res") auto
  then show ?thesis
  proof cases
    case failed
    let ?T = "T\<lparr>pool := p1\<rparr>"
    have "bptree_safe ?T" using out k(2) t(1,3) r failed by (auto simp: insert_outcome_def salvaged_def bptree_safe_def)
    moreover have "bptree_insert (Some T) k row = Some (Some ?T, Inl e)" using rec r failed by (simp add: bptree_insert_def)
    ultimately show ?thesis
      using out k(2) t(3,6) failed grow frame by (auto simp: insert_outcome_def alloc_failed_def index_room_def)
  next
    case keep
    then obtain t' where t': "subtree p1 INT_MIN t' (INT_MAX + 1) n True None" "ptree_addr t' = ptree_addr t"
        "entries t' = entry_insert k row es" "set (addrs t') = set (addrs t) \<union> {brk (pool T)..<brk p1}"
      using out k(2) t(3) by (auto simp: insert_outcome_def)
    have "dom (cells p1) = set (addrs t')" using outcome_dom[OF fr t(4)] subtree_dom[OF t'(1)] t'(4) by blast
    then have "bptree_rep (T\<lparr>pool := p1\<rparr>) (entry_insert k row es)"
      using frame t(1) r t' by (auto simp: bptree_rep_def)
    then show ?thesis using rec r keep grow t(6) frame by (simp add: bptree_insert_def index_room_def)
  next
    case split
    then obtain t1 t2 where h: "subtree p1 INT_MIN t1 pk n False (Some (hd (leaf_addrs t2)))"
        "subtree p1 pk t2 (INT_MAX + 1) n False None" "set (addrs t1) \<inter> set (addrs t2) = {}"
        "ptree_addr t1 = r" "ptree_addr t2 = ra" "entries t1 @ entries t2 = entry_insert k row es"
        "set (addrs t1) \<union> set (addrs t2) = set (addrs t) \<union> {brk (pool T)..<brk p1}"
      using out k(2) t(1,3) by (auto simp: insert_outcome_def)
    have "dom (cells p1) = set (addrs t1) \<union> set (addrs t2)"
      using outcome_dom[OF fr t(4)] subtree_dom[OF h(1)] subtree_dom[OF h(2)] h(7) by blast
    then show ?thesis
      using new_root_outcome[OF h(1-3) frame(3) _ r h(4,5) rec[unfolded split] frame(2,1)] grow t(6) h(6) by simp
  qed
qed

lemma rep_insert_new:
  assumes "bptree_rep T es" "int32 k" "k \<notin> fst ` set es"
  shows "\<exists>T' res. bptree_insert (Some T) k row = Some (Some T', res) \<and> index_room T \<le> index_room T' + 7 \<and>
    (res = Inr () \<and> bptree_rep T' (entry_insert k row es) \<or> alloc_failed T T' res)"
proof (cases "root T")
  case None
  then have es: "es = []" using assms(1) by (simp add: bptree_rep_def)
  show ?thesis
  proof (cases "0 < index_room T")
    case True
    then show ?thesis
      using rep_insert_empty[OF assms(1) None assms(2), of row] es by (auto simp: index_room_def entry_insert_def)
  next
    case False
    then have "bptree_insert (Some T) k row = Some (Some T, fail ''failed to allocate B+ tree node'')"
      using None by (simp add: bptree_insert_def bptree_node_create_def index_room_def)
    then show ?thesis using False rep_safe[OF assms(1)] by (simp add: alloc_failed_def)
  qed
next
  case (Some r)
  from assms(1) Some obtain t n where "ptree_addr t = r" "subtree (pool T) INT_MIN t (INT_MAX + 1) n True None" "entries t = es"
    "dom (cells (pool T)) = set (addrs t)" "pool_ok (pool T)" "n \<le> 5" by (rule rep_root)
  then show ?thesis using Some assms(2,3) by (rule rep_insert_root)
qed

section \<open>Search\<close>

lemma descend_spec:
  assumes "represents (cells p) t" "ordered lo t hi" "lo \<le> k" "k < hi"
  shows "\<exists>nd es. bptree_descend p (ptree_addr t) k = Some nd \<and> leaf_image nd es \<and>
    sorted_wrt (<) (map fst es) \<and> map_of (entries t) k = map_of es k"
  using assms
proof (induction t arbitrary: lo hi)
  case (PLeaf a es)
  then obtain nd where nd: "cells p a = Some nd" "leaf_image nd es" by auto
  then have "bptree_descend p a k = Some nd" by (simp add: bptree_descend.simps leaf_image_def)
  then show ?case using PLeaf.prems(2) nd(2) by auto
next
  case (PNode a ks ts)
  then obtain nd where nd: "cells p a = Some nd" "inner_image nd ks (map ptree_addr ts)" and ord: "ordered_list lo ks ts hi"
    by auto
  obtain i where ci: "bptree_child_index nd k = Some i"
    and i: "i \<le> length ks" "\<forall>j<i. ks ! j \<le> k" "i < length ks \<longrightarrow> k < ks ! i"
    using bptree_child_index_spec[OF nd(2)] by blast
  have len: "i < length ts" using ordered_list_length[OF ord] i(1) by simp
  then have mem: "ts ! i \<in> set ts" by simp
  note b = ordered_list_child(1-3)[OF ord i(1) PNode.prems(3,4) i(2) i(3)[rule_format]]
  obtain lf es where "bptree_descend p (ptree_addr (ts ! i)) k = Some lf" "leaf_image lf es"
    "sorted_wrt (<) (map fst es)" "map_of (entries (ts ! i)) k = map_of es k"
    using PNode.IH[OF mem _ b] PNode.prems(1) mem by auto
  moreover have "bptree_descend p a k = bptree_descend p (ptree_addr (ts ! i)) k"
    using nd ci inner_image_child[OF nd(2) i(1)] len
    by (subst bptree_descend.simps) (simp add: inner_image_def)
  ultimately show ?case using child_key(2)[OF ord i PNode.prems(3,4)] by auto
qed

lemma map_of_nth_sorted:
  "sorted_wrt (<) (map fst es) \<Longrightarrow> i < length es \<Longrightarrow> fst (es ! i) = k \<Longrightarrow> map_of es k = Some (snd (es ! i))"
  for k :: int
  by (intro map_of_is_SomeI) (auto simp: strict_sorted_iff in_set_conv_nth prod_eq_iff)

definition search_result :: "int option \<Rightarrow> bool \<times> int" where
  "search_result r = (case r of None \<Rightarrow> (False, -1) | Some row \<Rightarrow> (True, row))"

lemma leaf_search_result:
  assumes "leaf_image nd es" "sorted_wrt (<) (map fst es)"
  shows "do { (found, slot) \<leftarrow> bptree_leaf_search nd k;
              if \<not> found then Some (False, -1)
              else do { row \<leftarrow> arr_get (row_indexes nd) slot; Some (True, row) } }
         = Some (search_result (map_of es k))"
  using assms
proof (cases rule: bptree_leaf_search_cases[where key = k])
  case (found slot)
  have img: "length (row_indexes nd) = BPTREE_MAX_KEYS" "take (length es) (row_indexes nd) = map snd es"
    "length es \<le> BPTREE_MAX_KEYS" using assms(1) by (simp_all add: leaf_image_def node_arrays_def)
  then have "row_indexes nd ! slot = snd (es ! slot)"
    using found(2) by (metis nth_map nth_take)
  then show ?thesis
    using found img map_of_nth_sorted[OF assms(2) found(2,3)] by (simp add: search_result_def arr_get_def)
next
  case (missing slot)
  then have "map_of es k = None" by (simp add: map_of_eq_None_iff)
  then show ?thesis using missing by (simp add: search_result_def)
qed

lemma rep_search:
  assumes "bptree_rep T es" "int32 k"
  shows "bptree_search (Some T) k = Some (search_result (map_of es k))"
proof (cases "root T")
  case None
  then show ?thesis using assms(1) by (simp add: bptree_rep_def bptree_search_def search_result_def)
next
  case (Some r)
  from assms(1) Some obtain t n where t: "ptree_addr t = r" "subtree (pool T) INT_MIN t (INT_MAX + 1) n True None" "entries t = es"
    by (rule rep_root)
  then obtain nd es' where "bptree_descend (pool T) r k = Some nd" "leaf_image nd es'"
    "sorted_wrt (<) (map fst es')" "map_of es k = map_of es' k"
    using descend_spec[of "pool T" t INT_MIN "INT_MAX + 1" k] assms(2) by (auto simp: subtree_def int32_def)
  then show ?thesis using Some leaf_search_result by (simp add: bptree_search_def)
qed

section \<open>Enumeration of the keys\<close>

lemma leftmost_spec:
  assumes "represents (cells p) t" "sized r t"
  shows "bptree_leftmost p (ptree_addr t) = Some (hd (leaf_addrs t))"
  using assms
proof (induction t arbitrary: r)
  case (PLeaf a es)
  then show ?case by (auto simp: bptree_leftmost.simps leaf_image_def)
next
  case (PNode a ks ts)
  then obtain nd where nd: "cells p a = Some nd" "inner_image nd ks (map ptree_addr ts)" by auto
  from PNode.prems(2) obtain t us where ts: "ts = t # us" by (cases ts) auto
  have "leaf_addrs t \<noteq> []" using PNode.prems(2) sized_nonempty by (auto simp: ts)
  moreover have "bptree_leftmost p (ptree_addr t) = Some (hd (leaf_addrs t))" using PNode by (auto simp: ts)
  ultimately show ?case
    using nd inner_image_child[OF nd(2), of 0] by (subst bptree_leftmost.simps) (simp add: ts inner_image_def)
qed

lemma collect_leaf_spec:
  "collect_leaf ks cap out =
     (if ks = [] \<or> int (length out + length ks) \<le> cap then Inr (out @ ks)
      else Inl (take (max (nat cap) (length out)) (out @ ks)))"
proof (induction ks cap out rule: collect_leaf.induct)
  case (2 k ks cap out)
  show ?case
  proof (cases "int (length out) \<ge> cap")
    case False
    then have "max (nat cap) (length (out @ [k])) = nat cap" "max (nat cap) (length out) = nat cap" by auto
    with 2[OF False] False show ?thesis by auto
  qed auto
qed simp

lemma collect_chain_spec:
  assumes "list_all2 (\<lambda>a ks. \<exists>nd. cells p a = Some nd \<and> key_count nd = length ks \<and> take (length ks) (keys nd) = ks) as kss"
    and "linked (cells p) as None" "int (length out) \<le> max 0 cap"
  shows "collect_chain p (head_or as None) cap out =
    Some (if concat kss = [] \<or> int (length out + length (concat kss)) \<le> cap then Inr (out @ concat kss)
          else Inl (take (nat cap) (out @ concat kss)))"
  using assms
proof (induction as kss arbitrary: out rule: list_all2_induct)
  case Nil
  then show ?case by (simp add: collect_chain.simps)
next
  case (Cons a as ks kss)
  then obtain nd where nd: "cells p a = Some nd" "key_count nd = length ks" "take (length ks) (keys nd) = ks"
    "next_node nd = head_or as None" by auto
  then have "length ks \<le> length (keys nd)" by (metis length_take min.absorb_iff1 nat_le_linear)
  then have step: "collect_chain p (Some a) cap out = (case collect_leaf ks cap out of
      Inl out' \<Rightarrow> Some (Inl out') | Inr out' \<Rightarrow> collect_chain p (head_or as None) cap out')"
    using nd by (subst collect_chain.simps) (simp cong: sum.case_cong)
  show ?case
  proof (cases "ks = [] \<or> int (length out + length ks) \<le> cap")
    case True
    then have "int (length (out @ ks)) \<le> max 0 cap" using Cons.prems(2) by auto
    then show ?thesis using True Cons.IH[of "out @ ks"] Cons.prems(1) step
      by (cases "concat kss = []") (auto simp: collect_leaf_spec simp del: concat_eq_Nil_conv)
  next
    case False
    then have "nat cap < length (out @ ks)" by (cases "0 \<le> cap") (auto simp: nat_less_iff)
    moreover have "max (nat cap) (length out) = nat cap" using Cons.prems(2) by auto
    ultimately show ?thesis using False step by (auto simp: collect_leaf_spec)
  qed
qed

text \<open>The keys of the leaves of a tree, leaf by leaf.\<close>

fun leaf_keys :: "ptree \<Rightarrow> int list list" where
  "leaf_keys (PLeaf a es) = [map fst es]"
| "leaf_keys (PNode a ks ts) = concat (map leaf_keys ts)"

lemma leaf_keys_entries: "concat (leaf_keys t) = map fst (entries t)"
proof (induction t)
  case (PNode a ks ts)
  then have "concat (concat (map leaf_keys ts)) = map fst (all_entries ts)"
    by (induction ts) (auto simp: all_entries_def)
  then show ?case by simp
qed simp

lemma leaf_keys_cells:
  assumes "represents (cells p) t"
  shows "list_all2 (\<lambda>a ks. \<exists>nd. cells p a = Some nd \<and> key_count nd = length ks \<and> take (length ks) (keys nd) = ks)
    (leaf_addrs t) (leaf_keys t)"
  using assms
proof (induction t)
  case (PLeaf a es)
  then show ?case by (auto simp: leaf_image_def)
next
  case (PNode a ks ts)
  let ?R = "\<lambda>a ks. \<exists>nd. cells p a = Some nd \<and> key_count nd = length ks \<and> take (length ks) (keys nd) = ks"
  have "\<forall>t\<in>set ts. list_all2 ?R (leaf_addrs t) (leaf_keys t)" using PNode by auto
  then have "list_all2 ?R (all_leaves ts) (concat (map leaf_keys ts))"
    by (induction ts) (auto intro!: list_all2_appendI)
  then show ?case by simp
qed

lemma rep_collect_keys:
  assumes "bptree_rep T es"
  shows "bptree_collect_keys (Some T) cap =
    Some (if es = [] \<or> int (length es) \<le> cap then (True, map fst es, length es) else (False, take (nat cap) (map fst es), 0))"
proof (cases "root T")
  case None
  then show ?thesis using assms by (simp add: bptree_rep_def bptree_collect_keys_def)
next
  case (Some r)
  from assms Some obtain t n where t: "ptree_addr t = r" "subtree (pool T) INT_MIN t (INT_MAX + 1) n True None" "entries t = es"
    by (rule rep_root)
  let ?p = "pool T"
  have st: "represents (cells ?p) t" "sized True t" "linked (cells ?p) (leaf_addrs t) None" using t(2) by (simp_all add: subtree_def)
  have "bptree_leftmost ?p r = Some (hd (leaf_addrs t))" "head_or (leaf_addrs t) None = Some (hd (leaf_addrs t))"
    using leftmost_spec[OF st(1,2)] sized_nonempty[OF st(2)] t(1) by (simp_all add: head_or_hd)
  then show ?thesis
    using Some collect_chain_spec[OF leaf_keys_cells[OF st(1)] st(3), of "[]" cap] t(3)
    by (simp add: bptree_collect_keys_def leaf_keys_entries del: concat_eq_Nil_conv)
qed

section \<open>Destruction\<close>

definition drop_cells :: "addr set \<Rightarrow> node_pool \<Rightarrow> node_pool" where
  "drop_cells as p = p\<lparr>cells := (cells p) |` (- as)\<rparr>"

lemma drop_cells_simps [simp]:
  "cells (drop_cells as p) = (cells p) |` (- as)" "drop_cells as (drop_cells bs p) = drop_cells (as \<union> bs) p"
  by (auto simp: drop_cells_def restrict_map_def fun_eq_iff)

lemma destroy_list:
  assumes "\<And>t p rest. t \<in> set ts \<Longrightarrow> represents (cells p) t \<Longrightarrow> distinct (addrs t) \<Longrightarrow>
      bptree_node_destroy p (Destroy (Some (ptree_addr t)) # rest) = bptree_node_destroy (drop_cells (set (addrs t)) p) rest"
    and "\<forall>t\<in>set ts. represents (cells p) t" "distinct (all_addrs ts)"
  shows "bptree_node_destroy p (map (Destroy \<circ> Some \<circ> ptree_addr) ts @ rest)
    = bptree_node_destroy (drop_cells (set (all_addrs ts)) p) rest"
  using assms
proof (induction ts arbitrary: p)
  case Nil
  have "cells p |` UNIV = cells p" by (simp add: restrict_map_def fun_eq_iff)
  then show ?case by (simp add: drop_cells_def)
next
  case (Cons t ts)
  have "represents (cells (drop_cells (set (addrs t)) p)) u" if u: "u \<in> set ts" for u
  proof -
    have "set (addrs u) \<subseteq> set (all_addrs ts)" using u by (auto simp: all_addrs_def)
    then have "set (addrs u) \<inter> set (addrs t) = {}" using Cons.prems(3) by auto
    then have "represents (cells (drop_cells (set (addrs t)) p)) u = represents (cells p) u"
      by (intro represents_cong) (auto simp: restrict_map_def)
    then show ?thesis using Cons.prems(2) u by simp
  qed
  then show ?case using Cons.prems Cons.IH[of "drop_cells (set (addrs t)) p"] by (simp add: Un_commute)
qed

lemma destroy_tree:
  "represents (cells p) t \<Longrightarrow> distinct (addrs t) \<Longrightarrow>
     bptree_node_destroy p (Destroy (Some (ptree_addr t)) # rest) = bptree_node_destroy (drop_cells (set (addrs t)) p) rest"
proof (induction t arbitrary: p rest)
  case (PLeaf a es)
  then obtain nd where nd: "cells p a = Some nd" "is_leaf nd" by (auto simp: leaf_image_def)
  have "p\<lparr>cells := (cells p)(a := None)\<rparr> = drop_cells {a} p"
    by (simp add: drop_cells_def restrict_map_def fun_upd_def fun_eq_iff)
  then show ?case
    using nd by (subst bptree_node_destroy.simps) (simp, subst bptree_node_destroy.simps, simp add: free_cell_def)
next
  case (PNode a ks ts)
  then obtain nd where nd: "cells p a = Some nd" "inner_image nd ks (map ptree_addr ts)" by auto
  then have img: "\<not> is_leaf nd" "key_count nd < length (children nd)"
    "take (Suc (key_count nd)) (children nd) = map (Some \<circ> ptree_addr) ts"
    using order_facts(1) by (simp_all add: inner_image_def node_arrays_def)
  let ?q = "drop_cells (set (all_addrs ts)) p"
  have "bptree_node_destroy p (Destroy (Some a) # rest) = bptree_node_destroy p (map (Destroy \<circ> Some \<circ> ptree_addr) ts @ Free a # rest)"
    using nd(1) img by (subst bptree_node_destroy.simps) (simp add: comp_assoc)
  also have "\<dots> = bptree_node_destroy ?q (Free a # rest)"
    using PNode by (intro destroy_list) auto
  also have "\<dots> = bptree_node_destroy (drop_cells (set (addrs (PNode a ks ts))) p) rest"
  proof -
    have "cells ?q a = Some nd" using nd(1) PNode.prems(2) by simp
    moreover have "?q\<lparr>cells := (cells ?q)(a := None)\<rparr> = drop_cells (set (addrs (PNode a ks ts))) p"
      by (auto simp: drop_cells_def restrict_map_def fun_eq_iff)
    ultimately show ?thesis by (subst bptree_node_destroy.simps) (simp add: free_cell_def)
  qed
  finally show ?case by simp
qed

lemma safe_destroy: "bptree_safe T \<Longrightarrow> bptree_destroy (Some T) \<noteq> None"
  using destroy_tree[of "pool T" _ "[]"]
  by (auto simp: bptree_safe_def bptree_destroy_def bptree_node_destroy.simps[of _ "[]"] bptree_node_destroy.simps[of _ "[Destroy None]"]
      split: option.splits)

lemma rep_destroy:
  assumes "bptree_rep T es"
  shows "\<exists>p. bptree_destroy (Some T) = Some p \<and> cells p = Map.empty"
proof (cases "root T")
  case None
  then show ?thesis using assms
    by (simp add: bptree_rep_def bptree_destroy_def bptree_node_destroy.simps[of _ "[]"] bptree_node_destroy.simps[of _ "[Destroy None]"])
next
  case (Some r)
  from assms Some obtain t n where t: "ptree_addr t = r" "subtree (pool T) INT_MIN t (INT_MAX + 1) n True None"
    "dom (cells (pool T)) = set (addrs t)" by (rule rep_root)
  then have "cells (drop_cells (set (addrs t)) (pool T)) = Map.empty" by (auto simp: restrict_map_def fun_eq_iff)
  then show ?thesis
    using Some destroy_tree[of "pool T" t "[]"] t
    by (simp add: bptree_destroy_def subtree_def bptree_node_destroy.simps[of _ "[]"])
qed

section \<open>The interface of an index\<close>

text \<open>Inserting the keys \<open>ks\<close> one after the other, with consecutive row numbers from \<open>i\<close>, until one
  insertion fails: what every client of an index does when it loads a table.\<close>

primrec insert_rows ::
  "('t \<Rightarrow> int \<Rightarrow> int \<Rightarrow> ('t \<times> unit result) option) \<Rightarrow> 't \<Rightarrow> int list \<Rightarrow> int \<Rightarrow> ('t \<times> unit result) option" where
  "insert_rows ins t [] i = Some (t, Inr ())"
| "insert_rows ins t (k # ks) i = do {
     (t', res) \<leftarrow> ins t k i;
     (case res of Inl e \<Rightarrow> Some (t', Inl e) | Inr _ \<Rightarrow> insert_rows ins t' ks (i + 1))
   }"

definition row_numbers :: "int list \<Rightarrow> int \<Rightarrow> (int \<times> int) list" where
  "row_numbers ks i = zip ks (map (\<lambda>j. i + int j) [0..<length ks])"

lemma row_numbers_Cons [simp]: "row_numbers (k # ks) i = (k, i) # row_numbers ks (i + 1)"
proof -
  have "map (\<lambda>j. i + int j) [0..<Suc (length ks)] = i # map (\<lambda>j. i + 1 + int j) [0..<length ks]"
    by (simp add: upt_conv_Cons map_Suc_upt[symmetric] comp_def add.assoc add.commute del: upt_Suc)
  then show ?thesis by (simp add: row_numbers_def)
qed

lemma row_numbers_simps [simp]: "row_numbers [] i = []" "map fst (row_numbers ks i) = ks"
  by (simp_all add: row_numbers_def)

lemma row_numbers_dom: "dom (map_of (row_numbers ks i)) = set ks"
  by (metis dom_map_of_conv_image_fst list.set_map row_numbers_simps(2))

lemma insert_rows_app:
  "insert_rows ins t (xs @ ys) i = do {
     (t', res) \<leftarrow> insert_rows ins t xs i;
     (case res of Inl e \<Rightarrow> Some (t', Inl e) | Inr _ \<Rightarrow> insert_rows ins t' ys (i + int (length xs)))
   }"
proof (induction xs arbitrary: t i)
  case (Cons x xs)
  then show ?case by (cases "ins t x i") (auto split: sum.splits simp: add.assoc)
qed simp

text \<open>
  What \<open>db_context\<close> and the executor rely on. \<open>rep\<close> relates an index to its entries in key order,
  \<open>cost\<close> is the number of cells an insertion may need and \<open>room\<close> the number of cells left.
\<close>

locale ordered_index =
  fixes ins :: "'t \<Rightarrow> int \<Rightarrow> int \<Rightarrow> ('t \<times> unit result) option"
    and lookup :: "'t \<Rightarrow> int \<Rightarrow> (bool \<times> int) option"
    and rep :: "'t \<Rightarrow> (int \<times> int) list \<Rightarrow> bool"
    and room :: "'t \<Rightarrow> nat"
    and cost :: nat
  assumes sorted: "rep t es \<Longrightarrow> sorted_wrt (<) (map fst es)"
    and lookup: "rep t es \<Longrightarrow> int32 k \<Longrightarrow> lookup t k = Some (search_result (map_of es k))"
    and ins_old: "rep t es \<Longrightarrow> k \<in> fst ` set es \<Longrightarrow> ins t k row = Some (t, fail (''duplicate id: '' @ show_int k))"
    and ins_new: "rep t es \<Longrightarrow> int32 k \<Longrightarrow> k \<notin> fst ` set es \<Longrightarrow> cost \<le> room t \<Longrightarrow>
      \<exists>t'. ins t k row = Some (t', Inr ()) \<and> rep t' (entry_insert k row es) \<and> room t \<le> room t' + cost"
begin

lemma map_after_insert:
  "rep t es \<Longrightarrow> k \<notin> fst ` set es \<Longrightarrow> map_of (entry_insert k row es) = (map_of es)(k \<mapsto> row)"
  by (rule map_of_entry_insert[OF _ sorted])

lemma lookup_after_insert:
  assumes "rep t es" "int32 k" "int32 k'" "k \<notin> fst ` set es" "cost \<le> room t"
  shows "\<exists>t'. ins t k row = Some (t', Inr ()) \<and> lookup t' k' = (if k' = k then Some (True, row) else lookup t k')"
proof -
  obtain t' where "ins t k row = Some (t', Inr ())" "rep t' (entry_insert k row es)"
    using ins_new[OF assms(1,2,4,5)] by blast
  then show ?thesis
    using lookup[OF assms(1,3)] lookup[of t' _ k'] assms(3) map_after_insert[OF assms(1,4), of row]
    by (auto simp: search_result_def)
qed

lemma insert_rows_rep:
  assumes "rep t es" "distinct ks" "\<forall>k\<in>set ks. int32 k \<and> k \<notin> fst ` set es" "length ks * cost \<le> room t"
  shows "\<exists>t' es'. insert_rows ins t ks i = Some (t', Inr ()) \<and> rep t' es' \<and>
    map_of es' = map_of es ++ map_of (row_numbers ks i) \<and> fst ` set es' = fst ` set es \<union> set ks \<and>
    room t \<le> room t' + length ks * cost"
  using assms
proof (induction ks arbitrary: t es i)
  case (Cons k ks)
  obtain t1 where t1: "ins t k i = Some (t1, Inr ())" "rep t1 (entry_insert k i es)" "room t \<le> room t1 + cost"
    using ins_new[OF Cons.prems(1), of k i] Cons.prems by auto
  have new: "k \<notin> fst ` set es" using Cons.prems(3) by simp
  then have keys: "fst ` set (entry_insert k i es) = insert k (fst ` set es)" by (simp add: set_entry_insert)
  then obtain t' es' where "insert_rows ins t1 ks (i + 1) = Some (t', Inr ())" "rep t' es'"
    "map_of es' = map_of (entry_insert k i es) ++ map_of (row_numbers ks (i + 1))"
    "fst ` set es' = insert k (fst ` set es) \<union> set ks" "room t1 \<le> room t' + length ks * cost"
    using Cons.IH[OF t1(2), of "i + 1"] Cons.prems t1(3) by auto
  moreover have "(map_of es)(k \<mapsto> i) ++ map_of (row_numbers ks (i + 1)) = map_of es ++ map_of (row_numbers (k # ks) i)"
    using Cons.prems(2) by (simp add: map_add_upd_left row_numbers_dom)
  ultimately show ?case
    using t1(1,3) map_after_insert[OF Cons.prems(1) new, of i] by (auto simp del: row_numbers_Cons)
next
  case Nil
  then show ?case by (intro exI[of _ t] exI[of _ es]) simp
qed

text \<open>A repeated key stops the loading with an error that names it.\<close>

lemma insert_rows_duplicate:
  assumes "rep t es" "distinct ks" "\<forall>k\<in>set ks. int32 k \<and> k \<notin> fst ` set es" "length ks * cost \<le> room t"
    and "k \<in> set ks \<or> k \<in> fst ` set es"
  shows "\<exists>t'. insert_rows ins t (ks @ k # rest) i = Some (t', fail (''duplicate id: '' @ show_int k))"
proof -
  obtain t' es' where "insert_rows ins t ks i = Some (t', Inr ())" "rep t' es'" "fst ` set es' = fst ` set es \<union> set ks"
    using insert_rows_rep[OF assms(1-4)] by blast
  moreover from this have "k \<in> fst ` set es'" using assms(5) by auto
  ultimately show ?thesis using ins_old[of t' es' k] by (simp add: insert_rows_app)
qed

lemma lookup_loaded:
  assumes "rep t []" "distinct ks" "\<forall>k\<in>set ks. int32 k" "length ks * cost \<le> room t" "int32 k"
  shows "\<exists>t'. insert_rows ins t ks i = Some (t', Inr ()) \<and> lookup t' k = Some (search_result (map_of (row_numbers ks i) k))"
  using insert_rows_rep[OF assms(1,2), of i] assms(3-5) lookup by fastforce

end

text \<open>
  An index whose insertion is total: it always returns, and when it fails the index can still be
  destroyed, which is all its clients do with it then.
\<close>

locale guarded_index = ordered_index +
  fixes safe :: "'t \<Rightarrow> bool"
  assumes rep_safe: "rep t es \<Longrightarrow> safe t"
    and ins_total: "rep t es \<Longrightarrow> int32 k \<Longrightarrow> \<exists>t' res. ins t k row = Some (t', res) \<and>
      (if res = Inr () then k \<notin> fst ` set es \<and> rep t' (entry_insert k row es) else safe t')"
begin

lemma insert_rows_total:
  assumes "rep t es" "\<forall>k\<in>set ks. int32 k"
  shows "\<exists>t' res. insert_rows ins t ks i = Some (t', res) \<and> safe t' \<and>
    (res = Inr () \<longrightarrow> distinct ks \<and> set ks \<inter> fst ` set es = {} \<and>
      (\<exists>es'. rep t' es' \<and> map_of es' = map_of es ++ map_of (row_numbers ks i)))"
  using assms
proof (induction ks arbitrary: t es i)
  case Nil
  then show ?case using rep_safe by auto
next
  case (Cons k ks)
  obtain t1 res where t1: "ins t k i = Some (t1, res)"
    "if res = Inr () then k \<notin> fst ` set es \<and> rep t1 (entry_insert k i es) else safe t1"
    using ins_total[OF Cons.prems(1), of k i] Cons.prems(2) by auto
  show ?case
  proof (cases "res = Inr ()")
    case False
    then show ?thesis using t1 by (cases res) auto
  next
    case True
    then have new: "k \<notin> fst ` set es" "rep t1 (entry_insert k i es)" using t1(2) by simp_all
    have keys: "fst ` set (entry_insert k i es) = insert k (fst ` set es)" by (simp add: set_entry_insert[OF new(1)])
    have "\<forall>k\<in>set ks. int32 k" using Cons.prems(2) by simp
    then obtain t' res' where t': "insert_rows ins t1 ks (i + 1) = Some (t', res')" "safe t'"
      and ok: "res' = Inr () \<longrightarrow> distinct ks \<and> set ks \<inter> insert k (fst ` set es) = {} \<and>
        (\<exists>es'. rep t' es' \<and> map_of es' = (map_of es)(k \<mapsto> i) ++ map_of (row_numbers ks (i + 1)))"
      using Cons.IH[OF new(2), of "i + 1", unfolded keys map_after_insert[OF Cons.prems(1) new(1)]] by blast
    have "(map_of es)(k \<mapsto> i) ++ map_of (row_numbers ks (i + 1)) = map_of es ++ map_of (row_numbers (k # ks) i)" if "k \<notin> set ks"
      using that by (simp add: map_add_upd_left row_numbers_dom)
    then show ?thesis using t1(1) True t' ok new(1) by (auto simp del: row_numbers_Cons)
  qed
qed

end

text \<open>The B+ tree is such an index.\<close>

definition index_rep :: "BPTree option \<Rightarrow> (int \<times> int) list \<Rightarrow> bool" where
  "index_rep tree es \<longleftrightarrow> (\<exists>T. tree = Some T \<and> bptree_rep T es)"

definition tree_room :: "BPTree option \<Rightarrow> nat" where
  "tree_room tree = (case tree of None \<Rightarrow> 0 | Some T \<Rightarrow> index_room T)"

definition insertion_cost :: nat where
  "insertion_cost = 7"

interpretation bt: ordered_index bptree_insert bptree_search index_rep tree_room insertion_cost
proof
  fix t es k row
  assume "index_rep t es" "int32 k" "k \<notin> fst ` set es" "insertion_cost \<le> tree_room t"
  then show "\<exists>t'. bptree_insert t k row = Some (t', Inr ()) \<and> index_rep t' (entry_insert k row es) \<and>
    tree_room t \<le> tree_room t' + insertion_cost"
    using rep_insert_new[of _ es k row] by (fastforce simp: index_rep_def tree_room_def insertion_cost_def alloc_failed_def)
next
  fix t es k row
  assume "index_rep t es" and k: "k \<in> fst ` set es"
  then obtain T where "t = Some T" "bptree_rep T es" by (auto simp: index_rep_def)
  then show "bptree_insert t k row = Some (t, fail (''duplicate id: '' @ show_int k))"
    using rep_insert_duplicate[OF _ k, of T row] by simp
qed (auto simp: index_rep_def rep_sorted rep_search)

definition tree_safe :: "BPTree option \<Rightarrow> bool" where
  "tree_safe tree \<longleftrightarrow> (\<forall>T. tree = Some T \<longrightarrow> bptree_safe T)"

interpretation bg: guarded_index bptree_insert bptree_search index_rep tree_room insertion_cost tree_safe
proof
  fix t es k row
  assume "index_rep t es" and k: "int32 k"
  then obtain T where T: "t = Some T" "bptree_rep T es" by (auto simp: index_rep_def)
  show "\<exists>t' res. bptree_insert t k row = Some (t', res) \<and>
    (if res = Inr () then k \<notin> fst ` set es \<and> index_rep t' (entry_insert k row es) else tree_safe t')"
  proof (cases "k \<in> fst ` set es")
    case True
    then show ?thesis using rep_insert_duplicate[OF T(2) True, of row] T rep_safe[OF T(2)] by (simp add: tree_safe_def)
  next
    case False
    then obtain T' res where "bptree_insert (Some T) k row = Some (Some T', res)"
      "res = Inr () \<and> bptree_rep T' (entry_insert k row es) \<or> alloc_failed T T' res"
      using rep_insert_new[OF T(2) k] by blast
    then show ?thesis using T(1) False by (auto simp: alloc_failed_def tree_safe_def index_rep_def)
  qed
qed (auto simp: index_rep_def tree_safe_def rep_safe)

section \<open>Properties of the index\<close>

lemma addrs_nonempty: "set (addrs t) \<noteq> {}"
  by (cases t) auto

lemma rep_nonempty: "bptree_rep T es \<Longrightarrow> es \<noteq> [] \<Longrightarrow> cells (pool T) \<noteq> Map.empty"
  using addrs_nonempty by (fastforce simp: bptree_rep_def split: option.splits)

lemma single_entry_tree: "int32 k \<Longrightarrow> \<exists>T. bptree_rep T [(k, row)] \<and> index_room T = 19"
  using rep_insert_empty[of "\<lparr>root = None, pool = \<lparr>cells = Map.empty, brk = 0, limit = 20\<rparr>\<rparr>" "[]" k row]
  by (auto simp: bptree_rep_def pool_ok_def index_room_def)

text \<open>
  C2. \<open>bptree_insert\<close> on a well-formed tree returns on every input. An existing key leaves the tree
  as it was and reports the duplicate. A new key gives a well-formed tree whose entries are the old
  ones with the new one at its place in key order, unless fewer than seven nodes can be allocated;
  then the error is reported and what is left can still be walked and freed.
\<close>

theorem bptree_insert_correct:
  assumes "bptree_rep T es" "int32 key"
  shows "if key \<in> fst ` set es
    then bptree_insert (Some T) key row = Some (Some T, fail (''duplicate id: '' @ show_int key))
    else \<exists>T' res. bptree_insert (Some T) key row = Some (Some T', res) \<and>
      (if 7 \<le> index_room T then res = Inr () else res = Inr () \<or> res = fail ''failed to allocate B+ tree node'') \<and>
      (if res = Inr () then bptree_rep T' (entry_insert key row es) else bptree_safe T')"
proof (cases "key \<in> fst ` set es")
  case True
  then show ?thesis using rep_insert_duplicate[OF assms(1)] by simp
next
  case False
  then obtain T' res where "bptree_insert (Some T) key row = Some (Some T', res)"
    "res = Inr () \<and> bptree_rep T' (entry_insert key row es) \<or> alloc_failed T T' res"
    using rep_insert_new[OF assms] by blast
  then show ?thesis using False by (auto simp: alloc_failed_def simp del: split_paired_Ex)
qed

theorem bptree_insert_correct_witness:
  "\<exists>T. bptree_rep T [(4, 0)] \<and> 7 \<le> index_room T \<and>
     bptree_insert (Some T) 4 1 = Some (Some T, fail ''duplicate id: 4'') \<and>
     (\<exists>T'. bptree_insert (Some T) 3 1 = Some (Some T', Inr ()) \<and> bptree_rep T' [(3, 1), (4, 0)])"
proof -
  obtain T where T: "bptree_rep T [(4, 0)]" "index_room T = 19"
    using single_entry_tree[of 4 0] by (auto simp: int32_def)
  have "show_int 4 = ''4''" by code_simp
  then have "bptree_insert (Some T) 4 1 = Some (Some T, fail ''duplicate id: 4'')"
    using bptree_insert_correct[OF T(1), of 4 1] by (simp add: int32_def)
  moreover have "\<exists>T'. bptree_insert (Some T) 3 1 = Some (Some T', Inr ()) \<and> bptree_rep T' [(3, 1), (4, 0)]"
    using bptree_insert_correct[OF T(1), of 3 1] T(2) by (auto simp: int32_def entry_insert_def)
  ultimately show ?thesis using T by auto
qed

text \<open>
  C14. \<open>bptree_search\<close> terminates without an invalid access on a well-formed tree and returns exactly
  the row of the key: \<open>1\<close> and the row when the key is an entry, \<open>0\<close> and \<open>-1\<close> when it is not.
\<close>

theorem bptree_search_correct:
  assumes "bptree_rep T es" "int32 key"
  shows "bptree_search (Some T) key = Some (case map_of es key of None \<Rightarrow> (False, -1) | Some row \<Rightarrow> (True, row))"
  using rep_search[OF assms] by (simp add: search_result_def)

theorem bptree_search_correct_witness:
  "\<exists>T. bptree_rep T [(4, 9)] \<and> bptree_search (Some T) 4 = Some (True, 9) \<and> bptree_search (Some T) 5 = Some (False, -1)"
proof -
  obtain T where T: "bptree_rep T [(4, 9)]" using single_entry_tree[of 4 9] by (auto simp: int32_def)
  then show ?thesis
    using bptree_search_correct[OF T, of 4] bptree_search_correct[OF T, of 5] by (auto simp: int32_def)
qed

text \<open>
  C15. Loading distinct keys into a new tree and then searching it: with seven nodes of memory per key
  the loading succeeds, \<open>bptree_search\<close> finds each key with the row it was inserted for and no other
  key, and \<open>bptree_collect_keys\<close> lists the keys in increasing order.
\<close>

theorem bptree_load_search_collect:
  assumes "distinct ks" "\<forall>k\<in>set ks. int32 k" "length ks * 7 \<le> lim"
  shows "\<exists>tree. insert_rows bptree_insert (bptree_create True lim) ks 0 = Some (tree, Inr ()) \<and>
    (\<forall>i<length ks. bptree_search tree (ks ! i) = Some (True, int i)) \<and>
    (\<forall>k. int32 k \<and> k \<notin> set ks \<longrightarrow> bptree_search tree k = Some (False, -1)) \<and>
    bptree_collect_keys tree (int (length ks)) = Some (True, sort ks, length ks)"
proof -
  have "index_rep (bptree_create True lim) []" "length ks * insertion_cost \<le> tree_room (bptree_create True lim)"
    using assms(3) rep_create[of lim]
    by (auto simp: index_rep_def bptree_create_def tree_room_def index_room_def insertion_cost_def)
  from bt.insert_rows_rep[OF this(1) assms(1) _ this(2), of 0] assms(2)
  obtain tree es where load: "insert_rows bptree_insert (bptree_create True lim) ks 0 = Some (tree, Inr ())"
    and rep: "index_rep tree es" and es: "map_of es = map_of (row_numbers ks 0)" "fst ` set es = set ks" by auto
  from rep obtain T where T: "tree = Some T" "bptree_rep T es" by (auto simp: index_rep_def)
  have look: "bptree_search tree k = Some (search_result (map_of (row_numbers ks 0) k))" if "int32 k" for k
    using bt.lookup[OF rep that] es(1) by simp
  have "map_of (row_numbers ks 0) (ks ! i) = Some (int i)" if "i < length ks" for i
    using that assms(1) by (simp add: row_numbers_def map_of_zip_nth)
  moreover have "map_of (row_numbers ks 0) k = None" if "k \<notin> set ks" for k
    using that row_numbers_dom[of ks 0] by auto
  moreover have keys: "map fst es = sort ks"
    using rep_sorted(1)[OF T(2)] es(2) assms(1)
    by (intro sorted_distinct_set_unique) (auto simp: strict_sorted_iff)
  moreover have "length es = length ks" using arg_cong[OF keys, of length] by simp
  ultimately show ?thesis
    using load look assms(2) rep_collect_keys[OF T(2), of "int (length ks)"] T(1) by (auto simp: search_result_def)
qed

theorem bptree_load_search_collect_witness:
  "\<exists>tree. insert_rows bptree_insert (bptree_create True 21) [7, -2, 5] 0 = Some (tree, Inr ()) \<and>
     bptree_search tree (-2) = Some (True, 1) \<and> bptree_search tree 6 = Some (False, -1) \<and>
     bptree_collect_keys tree 3 = Some (True, [-2, 5, 7], 3)"
proof -
  have "distinct [7, -2, 5 :: int]" "\<forall>k\<in>set [7, -2, 5]. int32 k" "length [7, -2, 5 :: int] * 7 \<le> 21"
    by (auto simp: int32_def)
  from bptree_load_search_collect[OF this] obtain tree where t:
    "insert_rows bptree_insert (bptree_create True 21) [7, -2, 5] 0 = Some (tree, Inr ())"
    "\<forall>i<3. bptree_search tree ([7, -2, 5] ! i) = Some (True, int i)"
    "\<forall>k. int32 k \<and> k \<notin> set [7, -2, 5] \<longrightarrow> bptree_search tree k = Some (False, -1)"
    "bptree_collect_keys tree 3 = Some (True, sort [7, -2, 5], 3)" by auto
  then show ?thesis using t(2)[rule_format, of 1] t(3)[rule_format, of 6] by (auto simp: int32_def)
qed

text \<open>
  C16. Destroying a tree frees every node exactly once and leaves none behind.
\<close>

theorem bptree_destroy_frees_all:
  assumes "bptree_rep T es"
  shows "\<exists>p. bptree_destroy (Some T) = Some p \<and> cells p = Map.empty"
  using assms by (rule rep_destroy)

theorem bptree_destroy_frees_all_witness:
  "\<exists>T p. bptree_rep T [(4, 9)] \<and> cells (pool T) \<noteq> Map.empty \<and> bptree_destroy (Some T) = Some p \<and> cells p = Map.empty"
proof -
  obtain T where T: "bptree_rep T [(4, 9)]" using single_entry_tree[of 4 9] by (auto simp: int32_def)
  then show ?thesis using bptree_destroy_frees_all[OF T] rep_nonempty[OF T] by auto
qed

end
