(* ===== verification/Storage.thy ===== *)
theory Storage
  imports Schema
begin

text \<open>
  \<^verbatim>\<open>src/storage/storage.c\<close> and \<^verbatim>\<open>include/storage.h\<close>: the CSV file of a table.

  The output stream of \<open>append_csv_row\<close> is the bytes accepted so far and the number of bytes \<open>fputc\<close>
  still accepts. The loop of \<open>parse_csv_line\<close> is a recursion on the rest of the line with its local
  variables as arguments. \<open>fgets\<close> reads at most 8191 bytes and stops after a newline; the code cannot
  tell a read error from the end of the file, and neither does the model.
\<close>

section \<open>Data\<close>

record Row =
  row_fields :: "string list"

record RowSet =
  rows :: "Row list"
  row_capacity :: nat
  rowset_column_count :: int

definition zeroed_rowset :: RowSet where
  "zeroed_rowset = \<lparr>rows = [], row_capacity = 0, rowset_column_count = 0\<rparr>"

definition build_table_path :: "string \<Rightarrow> string \<Rightarrow> string" where
  "build_table_path db_root table = path_buffer (db_root @ ''/tables/'' @ table @ ''.csv'')"

definition trim_field :: "string \<Rightarrow> string" where
  "trim_field text = trim text"

definition rowset_append :: "RowSet \<Rightarrow> string list \<Rightarrow> RowSet" where
  "rowset_append rowset fs =
     rowset\<lparr>row_capacity := (if length (rows rowset) = row_capacity rowset
                             then (if row_capacity rowset = 0 then 8 else row_capacity rowset * 2)
                             else row_capacity rowset),
            rows := rows rowset @ [\<lparr>row_fields = fs\<rparr>]\<rparr>"

definition free_rowset :: "RowSet \<Rightarrow> RowSet" where
  "free_rowset rowset = zeroed_rowset"

section \<open>Reading a line\<close>

definition append_field :: "string list \<Rightarrow> string \<Rightarrow> string list" where
  "append_field fs val = fs @ [val]"

fun csv_loop :: "bool \<Rightarrow> string \<Rightarrow> string list \<Rightarrow> string \<Rightarrow> string list result" where
  "csv_loop in_quotes buffer fs [] =
     (if in_quotes then fail ''unterminated quoted CSV field'' else Inr (append_field fs (trim_field buffer)))"
| "csv_loop in_quotes buffer fs (ch # line) =
     (if in_quotes
      then (if ch = DQUOTE
            then (case line of
                    d # line' \<Rightarrow> if d = DQUOTE then csv_loop True (buffer @ [DQUOTE]) fs line' else csv_loop False buffer fs line
                  | [] \<Rightarrow> csv_loop False buffer fs line)
            else csv_loop True (buffer @ [ch]) fs line)
      else if ch = DQUOTE then csv_loop True buffer fs line
      else if ch = CHR '','' then csv_loop False [] (append_field fs (trim_field buffer)) line
      else csv_loop False (buffer @ [ch]) fs line)"

definition parse_csv_line :: "string \<Rightarrow> int \<Rightarrow> string list result" where
  "parse_csv_line line expected_fields =
     (case csv_loop False [] [] line of
        Inl e \<Rightarrow> Inl e
      | Inr fs \<Rightarrow> if int (length fs) \<noteq> expected_fields then fail ''row field count mismatch'' else Inr fs)"

section \<open>Writing a row\<close>

record stream =
  written :: string
  space :: "nat option"

definition fputc :: "char \<Rightarrow> stream \<Rightarrow> stream \<times> bool" where
  "fputc c st =
     (case space st of
        None \<Rightarrow> (st\<lparr>written := written st @ [c]\<rparr>, True)
      | Some n \<Rightarrow> if n = 0 then (st, False) else (st\<lparr>written := written st @ [c], space := Some (n - 1)\<rparr>, True))"

fun write_csv_chars :: "string \<Rightarrow> stream \<Rightarrow> stream \<times> unit result" where
  "write_csv_chars [] st = (st, Inr ())"
| "write_csv_chars (c # cs) st =
     (if c = DQUOTE
      then (case fputc DQUOTE st of
              (st, False) \<Rightarrow> (st, fail ''failed to escape CSV quote'')
            | (st, True) \<Rightarrow>
                (case fputc DQUOTE st of
                   (st, False) \<Rightarrow> (st, fail ''failed to escape CSV quote'')
                 | (st, True) \<Rightarrow> write_csv_chars cs st))
      else (case fputc c st of
              (st, False) \<Rightarrow> (st, fail ''failed to write CSV field'')
            | (st, True) \<Rightarrow> write_csv_chars cs st))"

definition write_csv_field :: "string \<Rightarrow> stream \<Rightarrow> stream \<times> unit result" where
  "write_csv_field val st =
     (case fputc DQUOTE st of
        (st, False) \<Rightarrow> (st, fail ''failed to write CSV quote'')
      | (st, True) \<Rightarrow>
          (case write_csv_chars val st of
             (st, Inl e) \<Rightarrow> (st, Inl e)
           | (st, Inr _) \<Rightarrow>
               (case fputc DQUOTE st of
                  (st, False) \<Rightarrow> (st, fail ''failed to write CSV quote'')
                | (st, True) \<Rightarrow> (st, Inr ()))))"

text \<open>The loop over the fields; the result of \<open>fputc (',')\<close> is not looked at.\<close>

fun write_csv_fields :: "nat \<Rightarrow> string list \<Rightarrow> stream \<Rightarrow> stream \<times> unit result" where
  "write_csv_fields index [] st = (st, Inr ())"
| "write_csv_fields index (f # fs) st =
     (let st = (if index > 0 then fst (fputc (CHR '','') st) else st) in
      case write_csv_field f st of
        (st, Inl e) \<Rightarrow> (st, Inl e)
      | (st, Inr _) \<Rightarrow> write_csv_fields (Suc index) fs st)"

definition fopen_append :: "filesystem \<Rightarrow> string \<Rightarrow> stream option" where
  "fopen_append fs path = (if can_append fs path then Some \<lparr>written = [], space = accepts fs path\<rparr> else None)"

definition fclose :: "filesystem \<Rightarrow> string \<Rightarrow> stream \<Rightarrow> filesystem \<times> bool" where
  "fclose fs path st =
     (let bytes = (if close_fails fs path then take (flushed fs path) (written st) else written st);
          old = (case files fs path of None \<Rightarrow> [] | Some s \<Rightarrow> s)
      in (fs\<lparr>files := (files fs)(path \<mapsto> old @ bytes), accepts := (accepts fs)(path := space st)\<rparr>, \<not> close_fails fs path))"

definition append_csv_row ::
  "filesystem \<Rightarrow> string option \<Rightarrow> string option \<Rightarrow> string list \<Rightarrow> filesystem \<times> unit result" where
  "append_csv_row fs db_root table row =
     (if db_root = None \<or> table = None \<or> row = [] then (fs, fail ''append_csv_row received invalid arguments'')
      else (let path = build_table_path (the db_root) (the table) in
            case fopen_append fs path of
              None \<Rightarrow> (fs, fail (''failed to open table file: '' @ path))
            | Some st \<Rightarrow>
                (case write_csv_fields 0 row st of
                   (st, Inl e) \<Rightarrow> (fst (fclose fs path st), Inl e)
                 | (st, Inr _) \<Rightarrow>
                     (let (st, _) = fputc NEWLINE st; (fs, closed) = fclose fs path st in
                      if \<not> closed then (fs, fail (''failed to flush table file: '' @ path)) else (fs, Inr ())))))"

section \<open>Reading a table\<close>

text \<open>\<open>fgets\<close> with room for \<open>n\<close> bytes: what it stores and what is left of the file.\<close>

fun fgets :: "nat \<Rightarrow> string \<Rightarrow> string \<times> string" where
  "fgets 0 s = ([], s)"
| "fgets (Suc n) [] = ([], [])"
| "fgets (Suc n) (c # s) =
     (if c = NEWLINE then ([c], s) else (let (a, b) = fgets n s in (c # a, b)))"

definition LINE_BUFFER_SIZE :: nat where
  "LINE_BUFFER_SIZE = 8192"

definition strip_line_end :: "string \<Rightarrow> string" where
  "strip_line_end line = rev (dropWhile (\<lambda>c. c = NEWLINE \<or> c = RETURN) (rev line))"

function read_csv_loop :: "string \<Rightarrow> int \<Rightarrow> RowSet \<Rightarrow> RowSet result" where
  "read_csv_loop bytes expected_fields rowset =
     (if bytes = [] then Inr rowset
      else (let (chunk, rest) = fgets (LINE_BUFFER_SIZE - 1) bytes;
                line = strip_line_end (cstr chunk)
            in if line = [] then read_csv_loop rest expected_fields rowset
               else (case parse_csv_line line expected_fields of
                       Inl e \<Rightarrow> Inl e
                     | Inr fs \<Rightarrow> read_csv_loop rest expected_fields (rowset_append rowset fs))))"
  by pat_completeness auto
termination
proof -
  have le: "length (snd (fgets n s)) \<le> length s" for n s
    by (induction n s rule: fgets.induct) (auto split: prod.splits)
  have less: "length (snd (fgets n s)) < length s" if "s \<noteq> []" "0 < n" for n s
    using that le[of "n - 1" "tl s"] by (cases n; cases s) (auto split: prod.splits)
  have "0 < LINE_BUFFER_SIZE - 1" by (simp add: LINE_BUFFER_SIZE_def)
  then have "length rest < length bytes" if "bytes \<noteq> []" "(chunk, rest) = fgets (LINE_BUFFER_SIZE - 1) bytes" for chunk rest bytes
    using less[OF that(1)] that(2) by (metis snd_conv)
  then show ?thesis
    by (relation "measure (\<lambda>(bytes, n, rowset). length bytes)") auto
qed

declare read_csv_loop.simps [simp del]

definition read_csv_rows :: "filesystem \<Rightarrow> string \<Rightarrow> string \<Rightarrow> int \<Rightarrow> RowSet result" where
  "read_csv_rows fs db_root table expected_fields =
     (let path = build_table_path db_root table in
      case files fs path of
        None \<Rightarrow> fail (''failed to open table file: '' @ path)
      | Some bytes \<Rightarrow> read_csv_loop bytes expected_fields (zeroed_rowset\<lparr>rowset_column_count := expected_fields\<rparr>))"

section \<open>The text of a row\<close>

fun csv_escape :: "string \<Rightarrow> string" where
  "csv_escape [] = []"
| "csv_escape (c # cs) = (if c = DQUOTE then [DQUOTE, DQUOTE] else [c]) @ csv_escape cs"

definition csv_field :: "string \<Rightarrow> string" where
  "csv_field v = DQUOTE # csv_escape v @ [DQUOTE]"

fun csv_row :: "string list \<Rightarrow> string" where
  "csv_row [] = []"
| "csv_row [f] = csv_field f"
| "csv_row (f # fs) = csv_field f @ '','' @ csv_row fs"

text \<open>The rows that can be read back: no field holds a newline or a NUL, and the line fits the buffer.\<close>

definition storable :: "string list \<Rightarrow> bool" where
  "storable row \<longleftrightarrow> row \<noteq> [] \<and> (\<forall>f\<in>set row. cstring f \<and> NEWLINE \<notin> set f) \<and> length (csv_row row) + 1 < LINE_BUFFER_SIZE"

definition complete_lines :: "string \<Rightarrow> bool" where
  "complete_lines bytes \<longleftrightarrow> bytes = [] \<or> last bytes = NEWLINE"

section \<open>What the stream takes\<close>

definition emit :: "string \<Rightarrow> stream \<Rightarrow> stream" where
  "emit s st =
     (case space st of
        None \<Rightarrow> st\<lparr>written := written st @ s\<rparr>
      | Some n \<Rightarrow> st\<lparr>written := written st @ take n s, space := Some (n - length s)\<rparr>)"

definition fits :: "string \<Rightarrow> stream \<Rightarrow> bool" where
  "fits s st \<longleftrightarrow> (case space st of None \<Rightarrow> True | Some n \<Rightarrow> length s \<le> n)"

text \<open>\<open>writes text st w\<close>: the outcome \<open>w\<close> of a writing function is that the stream took of \<open>text\<close> what it
  could, and success is reported exactly when it took all of it.\<close>

definition writes :: "string \<Rightarrow> stream \<Rightarrow> stream \<times> unit result \<Rightarrow> bool" where
  "writes s st w \<longleftrightarrow> fst w = emit s st \<and> (snd w = Inr () \<longleftrightarrow> fits s st)"

lemma emit_Nil [simp]: "emit [] st = st" "fits [] st"
  by (simp_all add: emit_def fits_def split: option.splits)

lemma emit_app: "emit (s @ t) st = emit t (emit s st)" "fits (s @ t) st \<longleftrightarrow> fits s st \<and> fits t (emit s st)"
  by (auto simp: emit_def fits_def split: option.splits)

lemma emit_stuck: "\<not> fits s st \<Longrightarrow> emit t (emit s st) = emit s st \<and> (t \<noteq> [] \<longrightarrow> \<not> fits t (emit s st))"
  by (auto simp: emit_def fits_def split: option.splits)

lemma fputc_emit: "fputc c st = (emit [c] st, fits [c] st)"
  by (auto simp: fputc_def emit_def fits_def take_Cons' split: option.splits)

lemma emit_written: "\<exists>w. prefix w s \<and> written (emit s st) = written st @ w \<and> (fits s st \<longrightarrow> w = s)"
  by (auto simp: emit_def fits_def take_is_prefix split: option.splits)

lemma writes_fail: "\<not> fits s st \<Longrightarrow> writes (s @ t) st (emit s st, Inl e)"
  by (simp add: writes_def emit_app emit_stuck)

lemma write_csv_chars_writes: "writes (csv_escape v) st (write_csv_chars v st)"
proof (induction v arbitrary: st)
  case (Cons c v)
  let ?e = "if c = DQUOTE then [DQUOTE, DQUOTE] else [c]"
  show ?case
  proof (cases "fits ?e st")
    case True
    then have "write_csv_chars (c # v) st = write_csv_chars v (emit ?e st)"
      using emit_app[of "[DQUOTE]" "[DQUOTE]" st] by (auto simp: fputc_emit split: bool.splits)
    then show ?thesis using Cons[of "emit ?e st"] True by (simp add: writes_def emit_app)
  next
    case False
    then have "\<exists>e. write_csv_chars (c # v) st = (emit ?e st, Inl e)"
      using emit_app[of "[DQUOTE]" "[DQUOTE]" st] emit_stuck[of "[DQUOTE]" st]
      by (auto simp: fputc_emit split: bool.splits)
    then show ?thesis using writes_fail[OF False, of "csv_escape v"] by auto
  qed
qed (simp add: writes_def)

lemma write_csv_field_writes: "writes (csv_field v) st (write_csv_field v st)"
proof (cases "fits [DQUOTE] st")
  case False
  then show ?thesis
    using writes_fail[OF False, of "csv_escape v @ [DQUOTE]"] by (simp add: write_csv_field_def fputc_emit csv_field_def)
next
  case True
  let ?st = "emit [DQUOTE] st"
  obtain st1 r where w: "write_csv_chars v ?st = (st1, r)" by (cases "write_csv_chars v ?st")
  have c: "st1 = emit (csv_escape v) ?st" "r = Inr () \<longleftrightarrow> fits (csv_escape v) ?st"
    using write_csv_chars_writes[of v ?st] w by (simp_all add: writes_def)
  have split: "csv_field v = [DQUOTE] @ csv_escape v @ [DQUOTE]" by (simp add: csv_field_def)
  show ?thesis
    using True w c emit_stuck[of "csv_escape v" ?st "[DQUOTE]"]
    by (cases r) (auto simp: write_csv_field_def fputc_emit writes_def split emit_app simp del: append.simps split: bool.splits)
qed

lemma write_csv_fields_writes:
  "writes ((if index > 0 \<and> fs \<noteq> [] then '','' else []) @ csv_row fs) st (write_csv_fields index fs st)"
proof (induction fs arbitrary: index st)
  case (Cons f fs)
  define c where "c = (if index > 0 then '','' else [])"
  have row: "(if index > 0 \<and> f # fs \<noteq> [] then '','' else []) @ csv_row (f # fs)
      = (c @ csv_field f) @ (if Suc index > 0 \<and> fs \<noteq> [] then '','' else []) @ csv_row fs"
    by (cases fs) (simp_all add: c_def)
  have start: "(if index > 0 then fst (fputc (CHR '','') st) else st) = emit c st"
    by (simp add: c_def fputc_emit)
  obtain st1 r where w: "write_csv_field f (emit c st) = (st1, r)" by (cases "write_csv_field f (emit c st)")
  have f: "st1 = emit (c @ csv_field f) st" "r = Inr () \<longleftrightarrow> fits (csv_field f) (emit c st)"
    using write_csv_field_writes[of f "emit c st"] w by (simp_all add: writes_def emit_app)
  have "csv_field f \<noteq> []" by (simp add: csv_field_def)
  then have r: "r = Inr () \<longleftrightarrow> fits (c @ csv_field f) st"
    using f(2) emit_stuck[of c st "csv_field f"] by (auto simp: emit_app)
  show ?case
  proof (cases "fits (c @ csv_field f) st")
    case True
    then have "write_csv_fields index (f # fs) st = write_csv_fields (Suc index) fs (emit (c @ csv_field f) st)"
      using w r f(1) start by (simp add: Let_def)
    then show ?thesis
      using Cons[of "Suc index" "emit (c @ csv_field f) st"] True unfolding row by (simp add: writes_def emit_app)
  next
    case False
    then obtain e where "write_csv_fields index (f # fs) st = (emit (c @ csv_field f) st, Inl e)"
      using w r f(1) start by (cases r) (auto simp: Let_def)
    then show ?thesis unfolding row using writes_fail[OF False] by simp
  qed
qed (simp add: writes_def)

text \<open>\<open>append_csv_row\<close> adds a prefix of the row's text to the file, and all of it when it reports success
  and the newline was accepted too.\<close>

definition appended :: "filesystem \<Rightarrow> string \<Rightarrow> string \<Rightarrow> filesystem \<Rightarrow> bool" where
  "appended fs path bytes fs' \<longleftrightarrow>
     files fs' = (files fs)(path \<mapsto> (case files fs path of None \<Rightarrow> [] | Some s \<Rightarrow> s) @ bytes) \<and>
     read_fault_at fs' = read_fault_at fs \<and> can_append fs' = can_append fs \<and> close_fails fs' = close_fails fs \<and>
     flushed fs' = flushed fs \<and> (\<forall>p. p \<noteq> path \<longrightarrow> accepts fs' p = accepts fs p)"

lemma fclose_appended:
  "\<exists>fs'. fclose fs path st = (fs', \<not> close_fails fs path) \<and>
     appended fs path (if close_fails fs path then take (flushed fs path) (written st) else written st) fs'"
  by (simp add: fclose_def appended_def)

lemma append_csv_row_spec:
  fixes db_root table row and fs :: filesystem
  defines "path \<equiv> build_table_path db_root table" and "bytes \<equiv> csv_row row @ [NEWLINE]"
  defines "st \<equiv> \<lparr>written = [], space = accepts fs path\<rparr>"
  assumes "row \<noteq> []" "can_append fs path"
  shows "\<exists>fs' res w. append_csv_row fs (Some db_root) (Some table) row = (fs', res) \<and> appended fs path w fs' \<and>
    prefix w bytes \<and> (res = Inr () \<longleftrightarrow> fits (csv_row row) st \<and> \<not> close_fails fs path) \<and>
    (fits bytes st \<and> \<not> close_fails fs path \<longrightarrow> w = bytes)"
proof -
  obtain st1 r where wr: "write_csv_fields 0 row st = (st1, r)" by (cases "write_csv_fields 0 row st")
  have st1: "st1 = emit (csv_row row) st" and r: "r = Inr () \<longleftrightarrow> fits (csv_row row) st"
    using write_csv_fields_writes[of 0 row st] wr by (simp_all add: writes_def)
  define st2 where "st2 = (if r = Inr () then emit bytes st else st1)"
  have st2: "st2 = emit bytes st"
    using r emit_stuck[of "csv_row row" st "[NEWLINE]"] by (auto simp: st2_def st1 bytes_def emit_app)
  obtain w where w: "prefix w bytes" "written st2 = w" "fits bytes st \<longrightarrow> w = bytes"
    using emit_written[of bytes st] by (auto simp: st2 st_def)
  obtain fs' where close: "fclose fs path st2 = (fs', \<not> close_fails fs path)"
    and app: "appended fs path (if close_fails fs path then take (flushed fs path) w else w) fs'"
    using fclose_appended[of fs path st2] w(2) by auto
  have open': "fopen_append fs path = Some st" using assms(5) by (simp add: fopen_append_def st_def)
  obtain res where res: "append_csv_row fs (Some db_root) (Some table) row = (fs', res)"
      "res = Inr () \<longleftrightarrow> r = Inr () \<and> \<not> close_fails fs path"
    using assms(4) open' wr close st2_def
    by (cases r; cases "close_fails fs path") (auto simp: append_csv_row_def path_def[symmetric] Let_def fputc_emit st1 bytes_def emit_app)
  have "prefix (if close_fails fs path then take (flushed fs path) w else w) bytes"
    using w(1) by (auto intro: prefix_order.trans take_is_prefix)
  then show ?thesis
    using app r w(3) res
    by (intro exI[of _ fs'] exI[of _ res] exI[of _ "if close_fails fs path then take (flushed fs path) w else w"]) simp
qed

section \<open>Reading back what was written\<close>

lemma csv_loop_quoted:
  "peek r \<noteq> DQUOTE \<Longrightarrow> csv_loop True buf fs (csv_escape v @ DQUOTE # r) = csv_loop False (buf @ v) fs r"
proof (induction v arbitrary: buf)
  case Nil
  then show ?case by (cases r) auto
next
  case (Cons c v)
  then show ?case by (cases "csv_escape v") auto
qed

lemma csv_loop_row:
  "row \<noteq> [] \<Longrightarrow> csv_loop False [] fs (csv_row row) = Inr (fs @ map trim row)"
proof (induction row arbitrary: fs rule: csv_row.induct)
  case (2 f)
  then show ?case
    using csv_loop_quoted[of "[]" "[]" fs f] by (simp add: csv_field_def append_field_def trim_field_def)
next
  case (3 f g row)
  then show ?case
    using csv_loop_quoted[of "CHR '','' # csv_row (g # row)" "[]" fs f]
    by (simp add: csv_field_def append_field_def trim_field_def)
qed simp

lemma parse_csv_row: "row \<noteq> [] \<Longrightarrow> parse_csv_line (csv_row row) (int (length row)) = Inr (map trim row)"
  by (simp add: parse_csv_line_def csv_loop_row)

lemma set_csv_escape: "set (csv_escape v) \<subseteq> set v"
  by (induction v) auto

lemma set_csv_row: "set (csv_row row) \<subseteq> {DQUOTE, CHR '',''} \<union> (\<Union>f\<in>set row. set f)"
proof (induction row rule: csv_row.induct)
  case (2 f)
  then show ?case using set_csv_escape[of f] by (auto simp: csv_field_def)
next
  case (3 f g row)
  then show ?case using set_csv_escape[of f] by (auto simp: csv_field_def)
qed simp

lemma last_csv_row: "row \<noteq> [] \<Longrightarrow> csv_row row \<noteq> [] \<and> last (csv_row row) = DQUOTE"
  by (induction row rule: csv_row.induct) (auto simp: csv_field_def)

lemma fgets_line: "NEWLINE \<notin> set l \<Longrightarrow> length l < n \<Longrightarrow> fgets n (l @ NEWLINE # r) = (l @ [NEWLINE], r)"
proof (induction l arbitrary: n)
  case Nil
  then show ?case by (cases n) auto
next
  case (Cons c l)
  then show ?case by (cases n) auto
qed

lemma fgets_app:
  assumes "s \<noteq> []" "last s = NEWLINE" "fgets n s = (a, b)"
  shows "fgets n (s @ x) = (a, b @ x) \<and> complete_lines b"
  using assms
proof (induction n s arbitrary: a b rule: fgets.induct)
  case (3 n c s)
  then show ?case by (cases "c = NEWLINE"; cases "s = []") (auto simp: complete_lines_def split: prod.splits)
qed (simp_all add: complete_lines_def)

lemma strip_line_end_app: "l \<noteq> [] \<Longrightarrow> last l \<noteq> NEWLINE \<Longrightarrow> last l \<noteq> RETURN \<Longrightarrow> strip_line_end (l @ [NEWLINE]) = l"
  by (cases l rule: rev_cases) (auto simp: strip_line_end_def)

lemma read_one_row:
  assumes "storable row" "int (length row) = n"
  shows "read_csv_loop (csv_row row @ [NEWLINE]) n rs = Inr (rowset_append rs (map trim row))"
proof -
  have row: "row \<noteq> []" "length (csv_row row) < LINE_BUFFER_SIZE - 1" and fs: "\<forall>f\<in>set row. cstring f \<and> NEWLINE \<notin> set f"
    using assms(1) by (auto simp: storable_def)
  have clean: "NEWLINE \<notin> set (csv_row row)" "cstring (csv_row row)"
    using set_csv_row[of row] fs by (auto simp: cstring_def)
  have "fgets (LINE_BUFFER_SIZE - 1) (csv_row row @ [NEWLINE]) = (csv_row row @ [NEWLINE], [])"
    using clean(1) row(2) by (rule fgets_line)
  moreover have "strip_line_end (cstr (csv_row row @ [NEWLINE])) = csv_row row"
    using clean(2) last_csv_row[OF row(1)] by (simp add: strip_line_end_app)
  moreover have "parse_csv_line (csv_row row) n = Inr (map trim row)" using parse_csv_row[OF row(1)] assms(2) by simp
  ultimately show ?thesis
    using last_csv_row[OF row(1)] by (subst read_csv_loop.simps) (simp add: Let_def read_csv_loop.simps[of "[]"])
qed

text \<open>Induction over a successful reading, one case per kind of line.\<close>

lemma read_csv_loop_induct [consumes 1, case_names Done Blank Line]:
  assumes "read_csv_loop bytes n rs = Inr rs'"
    and stop: "\<And>rs. P [] rs rs"
    and blank: "\<And>bytes chunk rest rs rs'. bytes \<noteq> [] \<Longrightarrow> fgets (LINE_BUFFER_SIZE - 1) bytes = (chunk, rest) \<Longrightarrow>
      strip_line_end (cstr chunk) = [] \<Longrightarrow> read_csv_loop rest n rs = Inr rs' \<Longrightarrow> P rest rs rs' \<Longrightarrow> P bytes rs rs'"
    and line: "\<And>bytes chunk rest fs rs rs'. bytes \<noteq> [] \<Longrightarrow> fgets (LINE_BUFFER_SIZE - 1) bytes = (chunk, rest) \<Longrightarrow>
      strip_line_end (cstr chunk) \<noteq> [] \<Longrightarrow> parse_csv_line (strip_line_end (cstr chunk)) n = Inr fs \<Longrightarrow>
      read_csv_loop rest n (rowset_append rs fs) = Inr rs' \<Longrightarrow> P rest (rowset_append rs fs) rs' \<Longrightarrow> P bytes rs rs'"
  shows "P bytes rs rs'"
  using assms
proof (induction bytes n rs rule: read_csv_loop.induct[case_names Read])
  case (Read bytes n rs)
  note stop = Read.prems(2) and blank = Read.prems(3) and line = Read.prems(4)
  show ?case
  proof (cases "bytes = []")
    case True
    then show ?thesis using Read.prems(1) stop by (simp add: read_csv_loop.simps[of "[]"])
  next
    case False
    obtain chunk rest where g: "fgets (LINE_BUFFER_SIZE - 1) bytes = (chunk, rest)" by fastforce
    note step = Read.prems(1)[unfolded read_csv_loop.simps[of bytes]]
    show ?thesis
    proof (cases "strip_line_end (cstr chunk) = []")
      case True
      then show ?thesis using blank[OF False g True] Read.IH(1)[OF False refl g[symmetric] refl True _ Read.prems(2-4)] step False g by simp
    next
      case nonempty: False
      then obtain fs where fs: "parse_csv_line (strip_line_end (cstr chunk)) n = Inr fs"
        using step False g by (auto split: sum.splits)
      then show ?thesis using line[OF False g nonempty] Read.IH(2)[OF False refl g[symmetric] refl nonempty fs _ Read.prems(2-4)] step False g nonempty by simp
    qed
  qed
qed

lemma read_csv_append:
  assumes "read_csv_loop bytes n rs = Inr rs'" "complete_lines bytes" "storable row" "int (length row) = n"
  shows "read_csv_loop (bytes @ csv_row row @ [NEWLINE]) n rs = Inr (rowset_append rs' (map trim row))"
  using assms
proof (induction rule: read_csv_loop_induct)
  case (Done rs)
  then show ?case using read_one_row by simp
next
  case (Blank bytes chunk rest rs rs')
  have "fgets (LINE_BUFFER_SIZE - 1) (bytes @ csv_row row @ [NEWLINE]) = (chunk, rest @ csv_row row @ [NEWLINE])" "complete_lines rest"
    using fgets_app[OF Blank(1) _ Blank(2)] Blank(1,6) by (auto simp: complete_lines_def)
  then show ?case using Blank by (subst read_csv_loop.simps) simp
next
  case (Line bytes chunk rest fs rs rs')
  have "fgets (LINE_BUFFER_SIZE - 1) (bytes @ csv_row row @ [NEWLINE]) = (chunk, rest @ csv_row row @ [NEWLINE])" "complete_lines rest"
    using fgets_app[OF Line(1) _ Line(2)] Line(1,7) by (auto simp: complete_lines_def)
  then show ?case using Line by (subst read_csv_loop.simps) simp
qed

text \<open>Every row a table is read with has the expected number of fields.\<close>

lemma read_csv_loop_widths:
  assumes "read_csv_loop bytes n rs = Inr rs'" "\<forall>r\<in>set (rows rs). int (length (row_fields r)) = n"
  shows "\<forall>r\<in>set (rows rs'). int (length (row_fields r)) = n"
  using assms
proof (induction rule: read_csv_loop_induct)
  case (Line bytes chunk rest fs rs rs')
  moreover have "int (length fs) = n" using Line(4) by (auto simp: parse_csv_line_def split: sum.splits if_splits)
  ultimately show ?case by (simp add: rowset_append_def)
qed simp_all

section \<open>Properties of the table file\<close>

text \<open>
  C9. A row appended to a table file is read back: when the file is readable and ends with a complete
  line and the device takes the whole line, \<open>append_csv_row\<close> succeeds and \<open>read_csv_rows\<close> then returns the
  old rows followed by the new one, its fields with the white space around them removed. Quotes and
  commas inside the fields survive.
\<close>

theorem append_then_read:
  assumes "files fs (build_table_path db_root table) = Some bytes" "complete_lines bytes"
    and "read_csv_rows fs db_root table n = Inr rs" "storable row" "int (length row) = n"
    and "can_append fs (build_table_path db_root table)" "accepts fs (build_table_path db_root table) = None"
      "\<not> close_fails fs (build_table_path db_root table)"
  shows "\<exists>fs'. append_csv_row fs (Some db_root) (Some table) row = (fs', Inr ()) \<and>
    read_csv_rows fs' db_root table n = Inr (rowset_append rs (map trim row)) \<and>
    files fs' (build_table_path db_root table) = Some (bytes @ csv_row row @ [NEWLINE])"
proof -
  let ?p = "build_table_path db_root table"
  have "row \<noteq> []" using assms(4) by (simp add: storable_def)
  from append_csv_row_spec[OF this assms(6)] obtain fs' res w where
    a: "append_csv_row fs (Some db_root) (Some table) row = (fs', res)" "appended fs ?p w fs'"
      "res = Inr () \<longleftrightarrow> fits (csv_row row) \<lparr>written = [], space = accepts fs ?p\<rparr> \<and> \<not> close_fails fs ?p"
      "fits (csv_row row @ [NEWLINE]) \<lparr>written = [], space = accepts fs ?p\<rparr> \<and> \<not> close_fails fs ?p \<longrightarrow> w = csv_row row @ [NEWLINE]"
    by blast
  then have w: "res = Inr ()" "files fs' ?p = Some (bytes @ csv_row row @ [NEWLINE])"
    using assms(1,7,8) by (simp_all add: fits_def appended_def)
  have "read_csv_loop bytes n (zeroed_rowset\<lparr>rowset_column_count := n\<rparr>) = Inr rs"
    using assms(1,3) by (simp add: read_csv_rows_def)
  from read_csv_append[OF this assms(2,4,5)] show ?thesis
    using a(1) w by (auto simp: read_csv_rows_def)
qed

theorem append_then_read_witness:
  "\<exists>fs'. append_csv_row (sample_fs []\<lparr>files := [''db/tables/t.csv'' \<mapsto> []]\<rparr>) (Some ''db'') (Some ''t'')
        [''1'', ''a,b'' @ [DQUOTE]] = (fs', Inr ()) \<and>
     read_csv_rows fs' ''db'' ''t'' 2 =
       Inr (rowset_append (zeroed_rowset\<lparr>rowset_column_count := 2\<rparr>) [''1'', ''a,b'' @ [DQUOTE]])"
proof -
  let ?fs = "sample_fs []\<lparr>files := [''db/tables/t.csv'' \<mapsto> []]\<rparr>" and ?row = "[''1'', ''a,b'' @ [DQUOTE]]"
  have path: "build_table_path ''db'' ''t'' = ''db/tables/t.csv''" by code_simp
  have "storable ?row" "map trim ?row = ?row" by code_simp+
  moreover have "read_csv_rows ?fs ''db'' ''t'' 2 = Inr (zeroed_rowset\<lparr>rowset_column_count := 2\<rparr>)"
    using path by (simp add: read_csv_rows_def read_csv_loop.simps[of "[]"])
  ultimately show ?thesis
    using append_then_read[of ?fs "''db''" "''t''" "[]" 2 "zeroed_rowset\<lparr>rowset_column_count := 2\<rparr>" ?row] path
    by (auto simp: complete_lines_def sample_fs_def)
qed

text \<open>
  C21. Whatever the device does, \<open>append_csv_row\<close> only ever adds a prefix of the row's own line to the
  table file and touches no other file; it reports success exactly when every byte of the fields was
  accepted and the file was closed without an error.
\<close>

theorem append_csv_row_only_appends:
  assumes "row \<noteq> []" "can_append fs (build_table_path db_root table)"
  shows "\<exists>fs' res w. append_csv_row fs (Some db_root) (Some table) row = (fs', res) \<and>
    files fs' = (files fs)(build_table_path db_root table \<mapsto>
      (case files fs (build_table_path db_root table) of None \<Rightarrow> [] | Some s \<Rightarrow> s) @ w) \<and>
    prefix w (csv_row row @ [NEWLINE]) \<and>
    (res = Inr () \<longleftrightarrow> \<not> close_fails fs (build_table_path db_root table) \<and>
       (\<forall>n. accepts fs (build_table_path db_root table) = Some n \<longrightarrow> length (csv_row row) \<le> n))"
  using append_csv_row_spec[OF assms] by (fastforce simp: appended_def fits_def split: option.splits)

theorem append_csv_row_only_appends_witness:
  "\<exists>fs' w. append_csv_row (sample_fs []\<lparr>accepts := (\<lambda>p. Some 2)\<rparr>) (Some ''db'') (Some ''t'') [''abc''] = (fs', fail ''failed to write CSV field'') \<and>
     prefix w (csv_row [''abc''] @ [NEWLINE]) \<and> files fs' ''db/tables/t.csv'' = Some w"
proof -
  let ?fs = "sample_fs []\<lparr>accepts := (\<lambda>p. Some 2)\<rparr>"
  have path: "build_table_path ''db'' ''t'' = ''db/tables/t.csv''" by code_simp
  have "files ?fs ''db/tables/t.csv'' = None" by (simp add: sample_fs_def)
  moreover have "snd (append_csv_row ?fs (Some ''db'') (Some ''t'') [''abc'']) = fail ''failed to write CSV field''" by code_simp
  ultimately show ?thesis
    using append_csv_row_only_appends[of "[''abc'']" ?fs "''db''" "''t''"] path by (auto simp: sample_fs_def)
qed

text \<open>
  A field with a newline is written and acknowledged, but the file can then not be read any more: the
  reader takes the file line by line and finds an unterminated quote.
\<close>

theorem newline_field_unreadable:
  "let fs = sample_fs []\<lparr>files := [''db/tables/t.csv'' \<mapsto> []]\<rparr>;
       (fs', res) = append_csv_row fs (Some ''db'') (Some ''t'') [''a'' @ [NEWLINE] @ ''b'']
   in res = Inr () \<and> read_csv_rows fs' ''db'' ''t'' 1 = fail ''unterminated quoted CSV field''"
  by code_simp

text \<open>
  The result of writing the newline is not checked: when the device takes every byte of the fields and
  not the newline, the row is acknowledged, the next row is appended to the same line, and the two rows
  are read back as one row that neither of them is.
\<close>

theorem lost_newline_merges_rows:
  "let fs = sample_fs []\<lparr>files := [''db/tables/t.csv'' \<mapsto> []], accepts := (\<lambda>p. Some 3)\<rparr>;
       (fs1, res1) = append_csv_row fs (Some ''db'') (Some ''t'') [''1''];
       (fs2, res2) = append_csv_row (fs1\<lparr>accepts := (\<lambda>p. None)\<rparr>) (Some ''db'') (Some ''t'') [''2'']
   in res1 = Inr () \<and> res2 = Inr () \<and>
      read_csv_rows fs2 ''db'' ''t'' 1 = Inr (rowset_append (zeroed_rowset\<lparr>rowset_column_count := 1\<rparr>) [''1'' @ [DQUOTE] @ ''2''])"
  by code_simp

end
