(* ===== verification/Db_Context.thy ===== *)
theory Db_Context
  imports Bptree_Index Storage
begin

text \<open>
  \<^verbatim>\<open>src/index/db_context.c\<close> and \<^verbatim>\<open>include/db_context.h\<close>: the tables held in memory.

  A \<open>TableState *\<close> into the array of tables is the position in \<open>ctx_tables\<close>. The results are wrapped in
  an \<open>option\<close>: \<open>None\<close> is undefined behaviour (a field read outside its row, the freed text a bad schema
  line is reported from, the overflow of the next id, or one of the accesses the B+ tree model excludes).
  \<open>allocator\<close> says which of the allocations of this component and of the executor are granted, and how many
  nodes a tree may have; the copies of strings and the rows read from a file are taken to be allocated.
\<close>

section \<open>Data\<close>

record allocator =
  context_granted :: bool
  tables_granted :: bool
  tree_granted :: bool
  node_limit :: nat
  rows_granted :: bool
  row_granted :: bool
  insert_granted :: bool

record TableState =
  ts_name :: string
  ts_schema :: Schema
  ts_rowset :: RowSet
  ts_index :: "BPTree option"
  ts_next_id :: int

record DbContext =
  ctx_db_root :: string
  ctx_tables :: "TableState list"

definition zeroed_table :: TableState where
  "zeroed_table = \<lparr>ts_name = [], ts_schema = zeroed_schema, ts_rowset = zeroed_rowset, ts_index = None, ts_next_id = 0\<rparr>"

section \<open>Validation of persisted values\<close>

definition skip_sign :: "string \<Rightarrow> string" where
  "skip_sign s = (if peek s = CHR ''-'' \<or> peek s = CHR ''+'' then tl s else s)"

fun digits_loop :: "string \<Rightarrow> bool" where
  "digits_loop [] = True"
| "digits_loop (c # s) = (if \<not> isdigit c then False else digits_loop s)"

definition is_integer_string :: "string \<Rightarrow> bool" where
  "is_integer_string s = (let s = skip_sign s in if peek s = NUL then False else digits_loop s)"

fun float_loop :: "string \<Rightarrow> bool \<Rightarrow> bool \<Rightarrow> bool" where
  "float_loop [] saw_digit saw_dot = saw_digit"
| "float_loop (c # s) saw_digit saw_dot =
     (if isdigit c then float_loop s True saw_dot
      else if c = CHR ''.'' \<and> \<not> saw_dot then float_loop s saw_digit True
      else False)"

definition is_float_string :: "string \<Rightarrow> bool" where
  "is_float_string s = float_loop (skip_sign s) False False"

definition validate_loaded_value :: "ColumnDef \<Rightarrow> string \<Rightarrow> unit result" where
  "validate_loaded_value col val =
     (if column_type col = COLUMN_TYPE_INT \<and> \<not> is_integer_string val
      then fail (''invalid persisted int for column '' @ column_name col @ '': '' @ val)
      else if column_type col = COLUMN_TYPE_FLOAT \<and> \<not> is_float_string val
      then fail (''invalid persisted float for column '' @ column_name col @ '': '' @ val)
      else Inr ())"

text \<open>The inner loop of \<open>validate_loaded_rowset\<close>; the row has as many fields as there are columns.\<close>

fun validate_loaded_fields :: "ColumnDef list \<Rightarrow> string list \<Rightarrow> unit result" where
  "validate_loaded_fields (c # cs) (v # vs) =
     (case validate_loaded_value c v of Inl e \<Rightarrow> Inl e | Inr _ \<Rightarrow> validate_loaded_fields cs vs)"
| "validate_loaded_fields cs vs = Inr ()"

fun validate_loaded_rows :: "Schema \<Rightarrow> Row list \<Rightarrow> unit result" where
  "validate_loaded_rows schema [] = Inr ()"
| "validate_loaded_rows schema (r # rs) =
     (if int (length (row_fields r)) \<noteq> column_count schema then fail ''persisted row field count does not match schema''
      else (case validate_loaded_fields (columns schema) (row_fields r) of
              Inl e \<Rightarrow> Inl e
            | Inr _ \<Rightarrow> validate_loaded_rows schema rs))"

definition validate_loaded_rowset :: "Schema \<Rightarrow> RowSet \<Rightarrow> unit result" where
  "validate_loaded_rowset schema rowset = validate_loaded_rows schema (rows rowset)"

section \<open>Loading a table\<close>

definition table_state_destroy :: "TableState \<Rightarrow> TableState option" where
  "table_state_destroy table = do {
     _ \<leftarrow> bptree_destroy (ts_index table);
     Some (table\<lparr>ts_schema := free_schema (ts_schema table), ts_rowset := free_rowset (ts_rowset table),
                 ts_index := None, ts_next_id := 0\<rparr>)
   }"

text \<open>The loop of \<open>table_state_load\<close> that fills the index: the tree, and the largest id or the error.\<close>

fun index_loaded_rows ::
  "BPTree option \<Rightarrow> Row list \<Rightarrow> int \<Rightarrow> int \<Rightarrow> int \<Rightarrow> (BPTree option \<times> int result) option" where
  "index_loaded_rows tree [] pk row_index max_id = Some (tree, Inr max_id)"
| "index_loaded_rows tree (r # rs) pk row_index max_id = do {
     field \<leftarrow> arr_get (row_fields r) (nat pk);
     (tree, res) \<leftarrow> bptree_insert tree (atoi field) row_index;
     (case res of
        Inl e \<Rightarrow> Some (tree, Inl e)
      | Inr _ \<Rightarrow> index_loaded_rows tree rs pk (row_index + 1) (if atoi field > max_id then atoi field else max_id))
   }"

text \<open>\<open>max_id + 1\<close> overflows for the largest \<open>int\<close>: \<open>None\<close>.\<close>

definition table_state_load :: "allocator \<Rightarrow> filesystem \<Rightarrow> string \<Rightarrow> string \<Rightarrow> TableState result option" where
  "table_state_load al fs db_root name =
     (let table = zeroed_table\<lparr>ts_name := take 255 name\<rparr> in
      case load_schema fs db_root (Some name) (Some (ts_schema table)) of
        None \<Rightarrow> None
      | Some (Inl e) \<Rightarrow> do { _ \<leftarrow> table_state_destroy table; Some (Inl e) }
      | Some (Inr schema) \<Rightarrow>
          (let table = table\<lparr>ts_schema := schema\<rparr> in
           case read_csv_rows fs db_root name (column_count schema) of
             Inl e \<Rightarrow> do { _ \<leftarrow> table_state_destroy table; Some (Inl e) }
           | Inr rowset \<Rightarrow>
               (let table = table\<lparr>ts_rowset := rowset\<rparr> in
                case validate_loaded_rowset schema rowset of
                  Inl e \<Rightarrow> do { _ \<leftarrow> table_state_destroy table; Some (Inl e) }
                | Inr _ \<Rightarrow>
                    if primary_key_index schema < 0
                    then do { _ \<leftarrow> table_state_destroy table;
                              Some (fail (''table '' @ name @ '' is missing a valid primary key'')) }
                    else (case bptree_create (tree_granted al) (node_limit al) of
                            None \<Rightarrow> do { _ \<leftarrow> table_state_destroy table; Some (fail ''failed to allocate B+ tree'') }
                          | Some tree \<Rightarrow> do {
                              (tree, res) \<leftarrow> index_loaded_rows (Some tree) (rows rowset) (primary_key_index schema) 0 0;
                              (case res of
                                 Inl e \<Rightarrow> do { _ \<leftarrow> table_state_destroy (table\<lparr>ts_index := tree\<rparr>); Some (Inl e) }
                               | Inr max_id \<Rightarrow>
                                   if max_id = INT_MAX then None
                                   else (let next_id = max_id + 1 in
                                         Some (Inr (table\<lparr>ts_index := tree, ts_next_id := (if next_id \<le> 0 then 1 else next_id)\<rparr>)))) }))))"

section \<open>The context\<close>

definition db_context_create :: "allocator \<Rightarrow> string option \<Rightarrow> DbContext result" where
  "db_context_create al db_root =
     (case db_root of
        None \<Rightarrow> fail ''db_root must not be null''
      | Some r \<Rightarrow>
          if \<not> context_granted al then fail ''failed to allocate db context''
          else Inr \<lparr>ctx_db_root = take (SQL_PATH_BUFFER_SIZE - 1) r, ctx_tables = []\<rparr>)"

fun destroy_tables :: "TableState list \<Rightarrow> unit option" where
  "destroy_tables [] = Some ()"
| "destroy_tables (t # ts) = do { _ \<leftarrow> table_state_destroy t; destroy_tables ts }"

definition db_context_destroy :: "DbContext option \<Rightarrow> unit option" where
  "db_context_destroy ctx = (case ctx of None \<Rightarrow> Some () | Some c \<Rightarrow> destroy_tables (ctx_tables c))"

fun find_table :: "TableState list \<Rightarrow> string \<Rightarrow> nat \<Rightarrow> nat option" where
  "find_table [] name i = None"
| "find_table (t # ts) name i = (if ts_name t = name then Some i else find_table ts name (Suc i))"

definition db_context_get_table ::
  "allocator \<Rightarrow> filesystem \<Rightarrow> DbContext \<Rightarrow> string option \<Rightarrow> (DbContext \<times> nat result) option" where
  "db_context_get_table al fs ctx name =
     (case name of
        None \<Rightarrow> Some (ctx, fail ''db_context_get_table received invalid arguments'')
      | Some n \<Rightarrow>
          (case find_table (ctx_tables ctx) n 0 of
             Some i \<Rightarrow> Some (ctx, Inr i)
           | None \<Rightarrow>
               if \<not> tables_granted al then Some (ctx, fail ''failed to expand db context tables'')
               else do {
                 res \<leftarrow> table_state_load al fs (ctx_db_root ctx) n;
                 (case res of
                    Inl e \<Rightarrow> Some (ctx, Inl e)
                  | Inr table \<Rightarrow> Some (ctx\<lparr>ctx_tables := ctx_tables ctx @ [table]\<rparr>, Inr (length (ctx_tables ctx)))) }))"

definition db_context_reload_table ::
  "allocator \<Rightarrow> filesystem \<Rightarrow> DbContext \<Rightarrow> string option \<Rightarrow> (DbContext \<times> unit result) option" where
  "db_context_reload_table al fs ctx name =
     (case name of
        None \<Rightarrow> Some (ctx, fail ''db_context_reload_table received invalid arguments'')
      | Some n \<Rightarrow>
          (case find_table (ctx_tables ctx) n 0 of
             None \<Rightarrow> Some (ctx, fail (''table not loaded: '' @ n))
           | Some i \<Rightarrow> do {
               res \<leftarrow> table_state_load al fs (ctx_db_root ctx) n;
               (case res of
                  Inl e \<Rightarrow> Some (ctx, Inl e)
                | Inr reloaded \<Rightarrow> do {
                    _ \<leftarrow> table_state_destroy (ctx_tables ctx ! i);
                    Some (ctx\<lparr>ctx_tables := (ctx_tables ctx)[i := reloaded]\<rparr>, Inr ()) }) }))"

section \<open>Well-formed tables\<close>

definition value_valid :: "ColumnDef \<Rightarrow> string \<Rightarrow> bool" where
  "value_valid col val \<longleftrightarrow>
     (column_type col = COLUMN_TYPE_INT \<longrightarrow> is_integer_string val) \<and>
     (column_type col = COLUMN_TYPE_FLOAT \<longrightarrow> is_float_string val)"

definition row_valid :: "Schema \<Rightarrow> Row \<Rightarrow> bool" where
  "row_valid schema r \<longleftrightarrow> list_all2 value_valid (columns schema) (row_fields r)"

definition row_id :: "Schema \<Rightarrow> Row \<Rightarrow> int" where
  "row_id schema r = atoi (row_fields r ! nat (primary_key_index schema))"

definition table_ids :: "TableState \<Rightarrow> int list" where
  "table_ids table = map (row_id (ts_schema table)) (rows (ts_rowset table))"

text \<open>
  The invariant of a loaded table: the primary key is a column; every row has a valid value for every
  column; the ids are distinct and the index maps each of them to the position of its row and knows
  no other; the next id is larger than all of them.
\<close>

definition table_ok :: "TableState \<Rightarrow> bool" where
  "table_ok table \<longleftrightarrow>
     length (ts_name table) \<le> 255 \<and> 0 \<le> primary_key_index (ts_schema table) \<and> primary_key_index (ts_schema table) < column_count (ts_schema table) \<and>
     (\<forall>r\<in>set (rows (ts_rowset table)). row_valid (ts_schema table) r) \<and>
     distinct (table_ids table) \<and>
     (\<exists>es. index_rep (ts_index table) es \<and> map_of es = map_of (row_numbers (table_ids table) 0)) \<and>
     int32 (ts_next_id table) \<and>
     (\<forall>id\<in>set (table_ids table). id < ts_next_id table)"

definition context_ok :: "DbContext \<Rightarrow> bool" where
  "context_ok ctx \<longleftrightarrow> (\<forall>t\<in>set (ctx_tables ctx). table_ok t)"

text \<open>The table in memory holds what its two files say.\<close>

definition synced :: "filesystem \<Rightarrow> string \<Rightarrow> string \<Rightarrow> TableState \<Rightarrow> bool" where
  "synced fs db_root name table \<longleftrightarrow>
     load_table_schema fs db_root name = Some (Inr (ts_schema table)) \<and>
     (\<exists>rs. read_csv_rows fs db_root name (column_count (ts_schema table)) = Inr rs \<and> rows rs = rows (ts_rowset table))"

text \<open>No row on file has the largest \<open>int\<close> as its id.\<close>

definition max_id_unused :: "filesystem \<Rightarrow> string \<Rightarrow> string \<Rightarrow> bool" where
  "max_id_unused fs db_root name \<longleftrightarrow>
     (case load_table_schema fs db_root name of
        Some (Inr s) \<Rightarrow>
          (case read_csv_rows fs db_root name (column_count s) of
             Inr rs \<Rightarrow> list_all (\<lambda>r. row_id s r \<noteq> INT_MAX) (rows rs)
           | Inl e \<Rightarrow> True)
      | _ \<Rightarrow> True)"

section \<open>Validation\<close>

lemma validate_loaded_value_ok: "validate_loaded_value c v = Inr () \<longleftrightarrow> value_valid c v"
  by (cases "column_type c") (auto simp: validate_loaded_value_def value_valid_def)

lemma validate_loaded_fields_ok:
  "length cs = length vs \<Longrightarrow> validate_loaded_fields cs vs = Inr () \<longleftrightarrow> list_all2 value_valid cs vs"
  by (induction cs vs rule: list_induct2) (auto simp: validate_loaded_value_ok[symmetric] split: sum.splits)

lemma validate_loaded_rows_ok: "validate_loaded_rows s rs = Inr () \<longleftrightarrow> (\<forall>r\<in>set rs. row_valid s r)"
proof (induction rs)
  case (Cons r rs)
  show ?case
  proof (cases "length (row_fields r) = length (columns s)")
    case True
    then show ?thesis using Cons validate_loaded_fields_ok[of "columns s" "row_fields r"]
      by (auto simp: row_valid_def split: sum.splits)
  next
    case False
    then have "\<not> row_valid s r" by (auto simp: row_valid_def dest: list_all2_lengthD)
    then show ?thesis using False by simp
  qed
qed simp

lemma row_valid_length: "row_valid s r \<Longrightarrow> length (row_fields r) = length (columns s)"
  by (simp add: row_valid_def list_all2_lengthD)

section \<open>The index of a loaded table\<close>

definition max_from :: "int \<Rightarrow> int list \<Rightarrow> int" where
  "max_from m ids = foldl (\<lambda>a id. if id > a then id else a) m ids"

lemma max_from_bounds: "m \<le> max_from m ids" "k \<in> set ids \<Longrightarrow> k \<le> max_from m ids"
  "max_from m ids = m \<or> max_from m ids \<in> set ids"
proof -
  have "m \<le> max_from m ids \<and> (\<forall>id\<in>set ids. id \<le> max_from m ids) \<and> (max_from m ids = m \<or> max_from m ids \<in> set ids)"
  proof (induction ids arbitrary: m)
    case (Cons i ids)
    have "max_from m (i # ids) = max_from (if i > m then i else m) ids" by (simp add: max_from_def)
    with Cons[of "if i > m then i else m"] show ?case by (auto split: if_splits)
  qed (simp add: max_from_def)
  then show "m \<le> max_from m ids" "k \<in> set ids \<Longrightarrow> k \<le> max_from m ids" "max_from m ids = m \<or> max_from m ids \<in> set ids"
    by blast+
qed

lemma index_loaded_rows_insert:
  assumes "\<forall>r\<in>set rs. nat (primary_key_index s) < length (row_fields r)"
  shows "index_loaded_rows tree rs (primary_key_index s) i m =
    map_option (\<lambda>(t, res). (t, case res of Inl e \<Rightarrow> Inl e | Inr _ \<Rightarrow> Inr (max_from m (map (row_id s) rs))))
      (insert_rows bptree_insert tree (map (row_id s) rs) i)"
  using assms
proof (induction rs arbitrary: tree i m)
  case (Cons r rs)
  then show ?case
    by (cases "bptree_insert tree (row_id s r) i")
      (auto simp: row_id_def max_from_def map_option_case split: sum.splits option.splits)
qed (simp add: max_from_def)

lemma table_destroy_Some: "tree_safe (ts_index t) \<Longrightarrow> \<exists>t'. table_state_destroy t = Some t'"
proof (cases "ts_index t")
  case None
  then show ?thesis by (simp add: table_state_destroy_def bptree_destroy_def)
next
  case (Some T)
  moreover assume "tree_safe (ts_index t)"
  ultimately obtain p where "bptree_destroy (ts_index t) = Some p" using safe_destroy[of T] by (auto simp: tree_safe_def)
  then show ?thesis by (simp add: table_state_destroy_def)
qed

lemma table_ok_safe: "table_ok t \<Longrightarrow> tree_safe (ts_index t)"
  using rep_safe by (auto simp: table_ok_def index_rep_def tree_safe_def)

definition loaded_next_id :: "int list \<Rightarrow> int" where
  "loaded_next_id ids = max_from 0 ids + 1"

lemma loaded_next_id_above:
  assumes "\<forall>id\<in>set ids. int32 id" "INT_MAX \<notin> set ids"
  shows "max_from 0 ids \<noteq> INT_MAX" "int32 (loaded_next_id ids)" "1 \<le> loaded_next_id ids" "k \<in> set ids \<Longrightarrow> k < loaded_next_id ids"
proof -
  show max: "max_from 0 ids \<noteq> INT_MAX" using max_from_bounds(3)[of 0 ids] assms(2) by auto
  have "int32 (max_from 0 ids)" using max_from_bounds(3)[of 0 ids] assms(1) by (auto simp: int32_def)
  then show "int32 (loaded_next_id ids)" using max max_from_bounds(1)[of 0 ids] by (auto simp: int32_def loaded_next_id_def)
  show "1 \<le> loaded_next_id ids" "k \<in> set ids \<Longrightarrow> k < loaded_next_id ids"
    using max_from_bounds(1)[of 0 ids] max_from_bounds(2)[of k ids 0] by (auto simp: loaded_next_id_def)
qed

lemma tree_safe_None [simp]: "tree_safe None"
  by (simp add: tree_safe_def)

lemma destroy_then:
  "tree_safe (ts_index t) \<Longrightarrow> do { _ \<leftarrow> table_state_destroy t; Some x } = Some x"
  using table_destroy_Some[of t] by auto

text \<open>The table \<open>table_state_load\<close> has built when it starts to index the rows.\<close>

definition loaded_table :: "string \<Rightarrow> Schema \<Rightarrow> RowSet \<Rightarrow> BPTree option \<Rightarrow> TableState" where
  "loaded_table name s rs tree =
     \<lparr>ts_name = take 255 name, ts_schema = s, ts_rowset = rs, ts_index = tree, ts_next_id = loaded_next_id (map (row_id s) (rows rs))\<rparr>"

lemma table_state_load_indexing:
  assumes "load_table_schema fs db_root name = Some (Inr s)" "read_csv_rows fs db_root name (column_count s) = Inr rs"
    and "\<forall>r\<in>set (rows rs). row_valid s r" "0 \<le> primary_key_index s" "primary_key_index s < column_count s"
    and "bptree_create (tree_granted al) (node_limit al) = Some T"
    and ins: "insert_rows bptree_insert (Some T) (map (row_id s) (rows rs)) 0 = Some (tree, res)" "tree_safe tree"
    and max: "INT_MAX \<notin> set (map (row_id s) (rows rs))"
  shows "table_state_load al fs db_root name =
    Some (case res of Inl e \<Rightarrow> Inl e | Inr _ \<Rightarrow> Inr (loaded_table name s rs tree))"
proof -
  have "\<forall>r\<in>set (rows rs). nat (primary_key_index s) < length (row_fields r)"
    using assms(3-5) row_valid_length by fastforce
  then have ix: "index_loaded_rows (Some T) (rows rs) (primary_key_index s) 0 0 =
      Some (tree, case res of Inl e \<Rightarrow> Inl e | Inr _ \<Rightarrow> Inr (max_from 0 (map (row_id s) (rows rs))))"
    using ins(1) by (simp add: index_loaded_rows_insert)
  have "\<forall>k\<in>set (map (row_id s) (rows rs)). int32 k" by (auto simp: row_id_def)
  note next_id = loaded_next_id_above(1,3)[OF this max, unfolded loaded_next_id_def]
  have "validate_loaded_rowset s rs = Inr ()" using assms(3) by (simp add: validate_loaded_rowset_def validate_loaded_rows_ok)
  then show ?thesis
    using assms(1,2,4,6) ix ins(2) next_id
    by (cases res) (simp_all add: table_state_load_def Let_def destroy_then loaded_table_def loaded_next_id_def zeroed_table_def)
qed

text \<open>Loading always returns, and what it returns is a well-formed table.\<close>

lemma table_state_load_total:
  assumes "schema_regular fs db_root name" "max_id_unused fs db_root name"
  shows "\<exists>res. table_state_load al fs db_root name = Some res \<and> 
    (\<forall>t. res = Inr t \<longrightarrow> table_ok t \<and> ts_name t = take 255 name \<and> synced fs db_root name t)"
proof (cases "\<exists>s. load_table_schema fs db_root name = Some (Inr s)")
  case False
  then obtain e where "load_table_schema fs db_root name = Some (Inl e)"
    using load_schema_returns[OF assms(1)] by (metis old.sum.exhaust option.exhaust)
  then show ?thesis by (simp add: table_state_load_def Let_def destroy_then zeroed_table_def)
next
  case True
  then obtain s where schema: "load_table_schema fs db_root name = Some (Inr s)" by blast
  show ?thesis
  proof (cases "read_csv_rows fs db_root name (column_count s)")
    case (Inl e)
    then show ?thesis using schema by (simp add: table_state_load_def Let_def destroy_then zeroed_table_def)
  next
    case read: (Inr rs)
    show ?thesis
    proof (cases "(\<forall>r\<in>set (rows rs). row_valid s r) \<and> 0 \<le> primary_key_index s \<and> bptree_create (tree_granted al) (node_limit al) \<noteq> None")
      case False
      then show ?thesis
        using schema read validate_loaded_rows_ok[of s "rows rs"]
        by (cases "validate_loaded_rowset s rs"; cases "0 \<le> primary_key_index s")
          (auto simp: table_state_load_def Let_def destroy_then zeroed_table_def validate_loaded_rowset_def)
    next
      case True
      then obtain T where valid: "\<forall>r\<in>set (rows rs). row_valid s r" "0 \<le> primary_key_index s"
        and T: "bptree_create (tree_granted al) (node_limit al) = Some T" by blast
      let ?ids = "map (row_id s) (rows rs)"
      have ids: "\<forall>k\<in>set ?ids. int32 k" by (auto simp: row_id_def)
      have "tree_granted al" using T by (simp add: bptree_create_def split: if_splits)
      then have "index_rep (Some T) []" using T rep_create by (simp add: index_rep_def)
      from bg.insert_rows_total[OF this ids, of 0] obtain tree res where
        ins: "insert_rows bptree_insert (Some T) ?ids 0 = Some (tree, res)" "tree_safe tree"
        and ok: "res = Inr () \<longrightarrow> distinct ?ids \<and> (\<exists>es'. index_rep tree es' \<and> map_of es' = map_of (row_numbers ?ids 0))"
        by auto
      have pk: "primary_key_index s < column_count s"
        using load_schema_in_range[OF schema] assms(1) by (simp add: schema_regular_def)
      have max: "INT_MAX \<notin> set ?ids" using assms(2) schema read by (auto simp: max_id_unused_def list_all_iff)
      have "table_ok (loaded_table name s rs tree)" if "res = Inr ()"
        using that ok valid pk loaded_next_id_above(2-4)[OF ids max] by (auto simp: table_ok_def loaded_table_def table_ids_def)
      then show ?thesis
        using table_state_load_indexing[OF schema read valid pk T ins max] schema read by (cases res) (auto simp: loaded_table_def synced_def)
    qed
  qed
qed

text \<open>With enough memory and distinct ids the loading succeeds.\<close>

lemma table_state_load_ok:
  assumes "load_table_schema fs db_root name = Some (Inr s)" "read_csv_rows fs db_root name (column_count s) = Inr rs"
    and "\<forall>r\<in>set (rows rs). row_valid s r" "0 \<le> primary_key_index s" "primary_key_index s < column_count s"
    and "tree_granted al" "length (rows rs) * insertion_cost \<le> node_limit al" "distinct (map (row_id s) (rows rs))"
    and "INT_MAX \<notin> set (map (row_id s) (rows rs))"
  shows "\<exists>tree. table_state_load al fs db_root name = Some (Inr (loaded_table name s rs tree)) \<and>
    table_ok (loaded_table name s rs tree) \<and> node_limit al \<le> tree_room tree + length (rows rs) * insertion_cost"
proof -
  let ?ids = "map (row_id s) (rows rs)"
  obtain T where T: "bptree_create (tree_granted al) (node_limit al) = Some T" "index_rep (Some T) []" "tree_room (Some T) = node_limit al"
    using assms(6) rep_create by (fastforce simp: bptree_create_def index_rep_def tree_room_def index_room_def)
  have ids: "\<forall>k\<in>set ?ids. int32 k" by (auto simp: row_id_def)
  from bt.insert_rows_rep[OF T(2) assms(8), of 0] ids assms(7) T(3) obtain tree es where
    ins: "insert_rows bptree_insert (Some T) ?ids 0 = Some (tree, Inr ())" "index_rep tree es"
      "map_of es = map_of (row_numbers ?ids 0)" "tree_room (Some T) \<le> tree_room tree + length ?ids * insertion_cost"
    by auto
  have safe: "tree_safe tree" using ins(2) rep_safe by (auto simp: index_rep_def tree_safe_def)
  have "table_ok (loaded_table name s rs tree)"
    using assms(3-5,8) ins(2,3) loaded_next_id_above(2-4)[OF ids assms(9)] by (auto simp: table_ok_def loaded_table_def table_ids_def)
  then show ?thesis
    using table_state_load_indexing[OF assms(1-5) T(1) ins(1) safe assms(9)] ins(4) T(3) by auto
qed

section \<open>The tables of a context\<close>

lemma find_table_spec:
  "find_table ts name i = Some j \<Longrightarrow> i \<le> j \<and> j < i + length ts \<and> ts_name (ts ! (j - i)) = name"
proof (induction ts name i rule: find_table.induct)
  case (2 t ts name i)
  then show ?case by (cases "ts_name t = name") (auto simp: nth_Cons' Suc_diff_le[symmetric] Suc_le_eq)
qed simp

lemma find_table_None: "find_table ts name i = None \<longleftrightarrow> name \<notin> ts_name ` set ts"
  by (induction ts name i rule: find_table.induct) auto

lemma find_table_snoc:
  "find_table ts name i = None \<Longrightarrow> find_table (ts @ [t]) name i = (if ts_name t = name then Some (i + length ts) else None)"
  by (induction ts name i rule: find_table.induct) (auto split: if_splits)

lemma find_table_update: "i < length ts \<Longrightarrow> ts_name t = ts_name (ts ! i) \<Longrightarrow> find_table (ts[i := t]) name j = find_table ts name j"
proof (induction ts name j arbitrary: i rule: find_table.induct)
  case (2 t' ts name j)
  then show ?case by (cases i) auto
qed simp

lemma get_table_outcome:
  assumes "context_ok ctx" "schema_regular fs (ctx_db_root ctx) name"
    and "find_table (ctx_tables ctx) name 0 = None \<Longrightarrow> max_id_unused fs (ctx_db_root ctx) name"
  shows "\<exists>ctx' res. db_context_get_table al fs ctx (Some name) = Some (ctx', res) \<and> context_ok ctx' \<and>
    ctx_db_root ctx' = ctx_db_root ctx \<and>
    (case res of
       Inl e \<Rightarrow> ctx' = ctx
     | Inr i \<Rightarrow> i < length (ctx_tables ctx') \<and> ts_name (ctx_tables ctx' ! i) = take 255 name \<and>
         find_table (ctx_tables ctx') name 0 = (if length name \<le> 255 then Some i else None) \<and>
         (ctx' = ctx \<and> length name \<le> 255 \<or> ctx_tables ctx' = ctx_tables ctx @ [ctx_tables ctx' ! i] \<and>
            synced fs (ctx_db_root ctx) name (ctx_tables ctx' ! i)))"
proof (cases "find_table (ctx_tables ctx) name 0")
  case (Some i)
  from find_table_spec[OF Some] have i: "i < length (ctx_tables ctx)" "ts_name (ctx_tables ctx ! i) = name" by auto
  then have "length name \<le> 255" using assms(1) nth_mem[OF i(1)] by (auto simp: context_ok_def table_ok_def)
  then show ?thesis using Some assms(1) i by (simp add: db_context_get_table_def)
next
  case None
  obtain res where load: "table_state_load al fs (ctx_db_root ctx) name = Some res"
    "\<forall>t. res = Inr t \<longrightarrow> table_ok t \<and> ts_name t = take 255 name \<and> synced fs (ctx_db_root ctx) name t"
    using table_state_load_total[OF assms(2) assms(3)[OF None]] by blast
  show ?thesis
  proof (cases "\<exists>t. tables_granted al \<and> res = Inr t")
    case False
    then show ?thesis using None assms(1) load(1) by (cases res) (auto simp: db_context_get_table_def)
  next
    case True
    then obtain t where t: "tables_granted al" "res = Inr t" by blast
    have n: "take 255 name = name \<longleftrightarrow> length name \<le> 255" by (simp add: take_all_iff)
    show ?thesis
      using None assms(1) load t find_table_snoc[OF None, of t] n
      by (simp add: db_context_get_table_def context_ok_def)
  qed
qed

lemma reload_table_outcome:
  assumes "\<forall>t\<in>set (ctx_tables ctx). tree_safe (ts_index t)" "schema_regular fs (ctx_db_root ctx) name"
    "max_id_unused fs (ctx_db_root ctx) name"
  shows "\<exists>ctx' res. db_context_reload_table al fs ctx (Some name) = Some (ctx', res) \<and>
    (case res of
       Inl e \<Rightarrow> ctx' = ctx
     | Inr _ \<Rightarrow> \<exists>i t. find_table (ctx_tables ctx) name 0 = Some i \<and> i < length (ctx_tables ctx) \<and>
         table_ok t \<and> ts_name t = take 255 name \<and>
         synced fs (ctx_db_root ctx) name t \<and> ctx' = ctx\<lparr>ctx_tables := (ctx_tables ctx)[i := t]\<rparr>)"
proof (cases "find_table (ctx_tables ctx) name 0")
  case None
  then show ?thesis by (simp add: db_context_reload_table_def)
next
  case (Some i)
  from find_table_spec[OF Some] have i: "i < length (ctx_tables ctx)" by simp
  then have safe: "tree_safe (ts_index (ctx_tables ctx ! i))" using assms(1) by simp
  obtain res where "table_state_load al fs (ctx_db_root ctx) name = Some res"
    "\<forall>t. res = Inr t \<longrightarrow> table_ok t \<and> ts_name t = take 255 name \<and> synced fs (ctx_db_root ctx) name t"
    using table_state_load_total[OF assms(2,3)] by blast
  then show ?thesis using Some i table_destroy_Some[OF safe] by (cases res) (auto simp: db_context_reload_table_def)
qed

lemma context_ok_update: "context_ok ctx \<Longrightarrow> table_ok t \<Longrightarrow> context_ok (ctx\<lparr>ctx_tables := (ctx_tables ctx)[i := t]\<rparr>)"
  by (auto simp: context_ok_def dest: set_update_subset_insert[THEN subsetD])

lemma context_ok_safe: "context_ok ctx \<Longrightarrow> \<forall>t\<in>set (ctx_tables ctx). tree_safe (ts_index t)"
  using table_ok_safe by (auto simp: context_ok_def)

lemma destroy_tables_Some: "\<forall>t\<in>set ts. tree_safe (ts_index t) \<Longrightarrow> destroy_tables ts = Some ()"
  by (induction ts) (simp_all add: destroy_then)

section \<open>Properties of the context\<close>

text \<open>
  C22. Loading a table returns without undefined behaviour, with an error or with a table that has the schema
  and the rows of its two files and satisfies the invariant \<open>table_ok\<close>: valid rows, distinct ids, an index
  that maps each id to its row, and a next id larger than all of them. It fails only when a file cannot be
  read, a row is not valid, the schema has no primary key, two rows have the same id, or the tree or its
  nodes cannot be allocated. This holds whichever rows the table's file holds, when the schema file has
  one \<open>columns\<close> and one \<open>pkey\<close> line at most and a separator in every line that is not blank, and no row
  on file has the id \<open>INT_MAX\<close>. Strings and row arrays are taken to be allocated.
\<close>

theorem table_load_well_formed:
  assumes "schema_regular fs db_root name" "max_id_unused fs db_root name"
  shows "case table_state_load al fs db_root name of
      None \<Rightarrow> False
    | Some (Inl e) \<Rightarrow>
        \<not> (\<exists>s rs. load_table_schema fs db_root name = Some (Inr s) \<and> read_csv_rows fs db_root name (column_count s) = Inr rs \<and>
            (\<forall>r\<in>set (rows rs). row_valid s r) \<and> 0 \<le> primary_key_index s \<and> distinct (map (row_id s) (rows rs)) \<and>
            tree_granted al \<and> length (rows rs) * insertion_cost \<le> node_limit al)
    | Some (Inr t) \<Rightarrow> table_ok t \<and> ts_name t = take 255 name \<and> synced fs db_root name t \<and> 1 \<le> ts_next_id t"
proof -
  obtain res where res: "table_state_load al fs db_root name = Some res"
      "\<forall>t. res = Inr t \<longrightarrow> table_ok t \<and> ts_name t = take 255 name \<and> synced fs db_root name t"
    using table_state_load_total[OF assms] by blast
  moreover have "1 \<le> ts_next_id t" if "res = Inr t" for t
    using res(1) that
    by (auto simp: table_state_load_def Let_def split: sum.splits option.splits if_splits bind_splits)
  moreover have False
    if "res = Inl e" "load_table_schema fs db_root name = Some (Inr s)" "read_csv_rows fs db_root name (column_count s) = Inr rs"
      "\<forall>r\<in>set (rows rs). row_valid s r" "0 \<le> primary_key_index s" "distinct (map (row_id s) (rows rs))"
      "tree_granted al" "length (rows rs) * insertion_cost \<le> node_limit al" for e s rs
  proof -
    have "primary_key_index s < column_count s" using load_schema_in_range[OF that(2)] assms(1) by (simp add: schema_regular_def)
    moreover have "INT_MAX \<notin> set (map (row_id s) (rows rs))" using assms(2) that(2,3) by (auto simp: max_id_unused_def list_all_iff)
    ultimately show False using table_state_load_ok[OF that(2-5) _ that(7,8,6)] that(1) res(1) by auto
  qed
  ultimately show ?thesis by (cases res) (simp, blast, simp)
qed

definition sample_allocator :: "nat \<Rightarrow> allocator" where
  "sample_allocator n =
     \<lparr>context_granted = True, tables_granted = True, tree_granted = True, node_limit = n, rows_granted = True,
      row_granted = True, insert_granted = True\<rparr>"

definition sample_db :: "string \<Rightarrow> filesystem" where
  "sample_db csv = sample_fs []\<lparr>files := [''db/schema/users.schema'' \<mapsto> show_schema sample_schema, ''db/tables/users.csv'' \<mapsto> csv]\<rparr>"

lemma sample_db_facts:
  "schema_regular (sample_db csv) ''db'' ''users''" "load_table_schema (sample_db csv) ''db'' ''users'' = Some (Inr sample_schema)"
  "files (sample_db csv) (build_table_path ''db'' ''users'') = Some csv"
proof -
  have path: "schema_path ''db'' ''users'' = ''db/schema/users.schema''" "build_table_path ''db'' ''users'' = ''db/tables/users.csv''"
    by code_simp+
  have f: "files (sample_db csv) ''db/schema/users.schema'' = Some (show_schema sample_schema)" by (simp add: sample_db_def)
  show "files (sample_db csv) (build_table_path ''db'' ''users'') = Some csv" using path(2) by (simp add: sample_db_def)
  have "key_lines ''columns'' (strtok_all NEWLINE (cstr (show_schema sample_schema))) \<le> 1"
    "key_lines ''pkey'' (strtok_all NEWLINE (cstr (show_schema sample_schema))) \<le> 1"
    "list_all separated (strtok_all NEWLINE (cstr (show_schema sample_schema)))" by code_simp+
  then show "schema_regular (sample_db csv) ''db'' ''users''" using path(1) f by (simp add: schema_regular_def schema_unique_def)
  have "read_fault_at (sample_db csv) ''db/schema/users.schema'' = None" by (simp add: sample_db_def sample_fs_def)
  moreover have "cstr (show_schema sample_schema) = show_schema sample_schema" by code_simp
  moreover have "load_schema_lines (zeroed_schema\<lparr>primary_key_index := -1, schema_table_name := Some ''users''\<rparr>)
      (strtok_all NEWLINE (show_schema sample_schema)) = Some (Inr sample_schema)" by code_simp
  ultimately show "load_table_schema (sample_db csv) ''db'' ''users'' = Some (Inr sample_schema)"
    using path(1) f by (simp add: load_schema_def sql_read_text_file_def sample_schema_def)
qed

lemma sample_table:
  "max_id_unused (sample_db (''1,Ann'' @ [NEWLINE])) ''db'' ''users''"
  "\<exists>t. table_state_load (sample_allocator 20) (sample_db (''1,Ann'' @ [NEWLINE])) ''db'' ''users'' = Some (Inr t) \<and>
     table_ok t \<and> table_ids t = [1] \<and> ts_next_id t = 2 \<and> ts_name t = ''users'' \<and> ts_schema t = sample_schema \<and>
     rows (ts_rowset t) = [\<lparr>row_fields = [''1'', ''Ann'']\<rparr>] \<and> 13 \<le> tree_room (ts_index t)"
proof -
  let ?rs = "rowset_append (zeroed_rowset\<lparr>rowset_column_count := 2\<rparr>) [''1'', ''Ann'']"
  have read: "read_csv_loop (''1,Ann'' @ [NEWLINE]) 2 (zeroed_rowset\<lparr>rowset_column_count := 2\<rparr>) = Inr ?rs" by code_simp
  have facts: "rows ?rs = [\<lparr>row_fields = [''1'', ''Ann'']\<rparr>]" "row_id sample_schema \<lparr>row_fields = [''1'', ''Ann'']\<rparr> = 1"
    "row_valid sample_schema \<lparr>row_fields = [''1'', ''Ann'']\<rparr>" "primary_key_index sample_schema = 0" "column_count sample_schema = 2"
    "loaded_next_id [1] = 2" by code_simp+
  have read_users: "read_csv_rows (sample_db (''1,Ann'' @ [NEWLINE])) ''db'' ''users'' (column_count sample_schema) = Inr ?rs"
    using read facts(5) sample_db_facts(3) by (simp add: read_csv_rows_def)
  show "max_id_unused (sample_db (''1,Ann'' @ [NEWLINE])) ''db'' ''users''"
    using read_users facts(1,2) sample_db_facts(2) by (simp add: max_id_unused_def)
  from table_state_load_ok[OF sample_db_facts(2) read_users, of "sample_allocator 20"] facts
  show "\<exists>t. table_state_load (sample_allocator 20) (sample_db (''1,Ann'' @ [NEWLINE])) ''db'' ''users'' = Some (Inr t) \<and>
     table_ok t \<and> table_ids t = [1] \<and> ts_next_id t = 2 \<and> ts_name t = ''users'' \<and> ts_schema t = sample_schema \<and>
     rows (ts_rowset t) = [\<lparr>row_fields = [''1'', ''Ann'']\<rparr>] \<and> 13 \<le> tree_room (ts_index t)" by (auto simp: sample_allocator_def insertion_cost_def loaded_table_def table_ids_def)
qed

theorem table_load_well_formed_witness:
  "\<exists>t. table_state_load (sample_allocator 20) (sample_db (''1,Ann'' @ [NEWLINE])) ''db'' ''users'' = Some (Inr t) \<and>
     table_ok t \<and> table_ids t = [1] \<and> synced (sample_db (''1,Ann'' @ [NEWLINE])) ''db'' ''users'' t \<and> 1 \<le> ts_next_id t"
  using sample_table(2) table_load_well_formed[OF sample_db_facts(1) sample_table(1), of "sample_allocator 20"] by auto

text \<open>
  C23. Looking up a table and reloading one return without undefined behaviour, keep the invariant of the
  whole context, and leave the context as it was when they fail; the position a lookup returns is that of
  a table with the requested name, cut to the 255 characters a name can have; and the context can then be
  destroyed. The files are those of C22: one \<open>columns\<close> and one \<open>pkey\<close> line at most and a separator in
  every line of the schema that is not blank, and no row on file with the id \<open>INT_MAX\<close>.
\<close>

theorem context_operations_keep_invariant:
  assumes "context_ok ctx" "schema_regular fs (ctx_db_root ctx) name" "max_id_unused fs (ctx_db_root ctx) name"
  shows "\<exists>ctx1 res1 ctx2 res2.
    db_context_get_table al fs ctx (Some name) = Some (ctx1, res1) \<and> context_ok ctx1 \<and>
    (case res1 of Inl e \<Rightarrow> ctx1 = ctx | Inr i \<Rightarrow> i < length (ctx_tables ctx1) \<and> ts_name (ctx_tables ctx1 ! i) = take 255 name) \<and>
    db_context_reload_table al fs ctx (Some name) = Some (ctx2, res2) \<and> context_ok ctx2 \<and>
    (case res2 of Inl e \<Rightarrow> ctx2 = ctx | Inr _ \<Rightarrow> length (ctx_tables ctx2) = length (ctx_tables ctx)) \<and>
    db_context_destroy (Some ctx1) = Some ()"
proof -
  obtain ctx1 res1 where get:
    "db_context_get_table al fs ctx (Some name) = Some (ctx1, res1)" "context_ok ctx1"
    "case res1 of Inl e \<Rightarrow> ctx1 = ctx | Inr i \<Rightarrow> i < length (ctx_tables ctx1) \<and> ts_name (ctx_tables ctx1 ! i) = take 255 name"
    using get_table_outcome[OF assms(1,2), of al] assms(3) by (fastforce split: sum.splits)
  moreover obtain ctx2 res2 where
    "db_context_reload_table al fs ctx (Some name) = Some (ctx2, res2)" "context_ok ctx2"
    "case res2 of Inl e \<Rightarrow> ctx2 = ctx | Inr _ \<Rightarrow> length (ctx_tables ctx2) = length (ctx_tables ctx)"
    using reload_table_outcome[OF context_ok_safe[OF assms(1)] assms(2,3), of al] assms(1) context_ok_update[OF assms(1)]
    by (fastforce split: sum.splits)
  moreover have "db_context_destroy (Some ctx1) = Some ()"
    using destroy_tables_Some[OF context_ok_safe[OF get(2)]] by (simp add: db_context_destroy_def)
  ultimately show ?thesis by blast
qed

theorem context_operations_keep_invariant_witness:
  "\<exists>ctx1 i. db_context_get_table (sample_allocator 20) (sample_db (''1,Ann'' @ [NEWLINE])) \<lparr>ctx_db_root = ''db'', ctx_tables = []\<rparr>
       (Some ''users'') = Some (ctx1, Inr i) \<and> context_ok ctx1 \<and> ts_name (ctx_tables ctx1 ! i) = ''users''"
proof -
  let ?ctx = "\<lparr>ctx_db_root = ''db'', ctx_tables = []\<rparr>" and ?fs = "sample_db (''1,Ann'' @ [NEWLINE])"
  have "context_ok ?ctx" by (simp add: context_ok_def)
  moreover have "schema_regular ?fs (ctx_db_root ?ctx) ''users''" "max_id_unused ?fs (ctx_db_root ?ctx) ''users''"
    using sample_db_facts(1) sample_table(1) by simp_all
  moreover obtain t where "db_context_get_table (sample_allocator 20) ?fs ?ctx (Some ''users'') = Some (?ctx\<lparr>ctx_tables := [t]\<rparr>, Inr 0)"
    using sample_table(2) by (auto simp: db_context_get_table_def sample_allocator_def)
  ultimately show ?thesis
    using context_operations_keep_invariant[of ?ctx ?fs "''users''" "sample_allocator 20"] by auto
qed

text \<open>
  A schema file with a second \<open>columns\<close> line makes the loading read a field outside the row: the index of
  the primary key, found for the first \<open>columns\<close> line, is used on rows of the second.
\<close>

theorem stale_primary_key_reads_outside_row:
  "table_state_load (sample_allocator 20)
     (sample_fs []\<lparr>files := [''db/schema/users.schema'' \<mapsto>
          ''columns=name:string,id:int'' @ [NEWLINE] @ ''pkey=id'' @ [NEWLINE] @ ''columns=name:string'',
        ''db/tables/users.csv'' \<mapsto> ''Ann'' @ [NEWLINE]]\<rparr>) ''db'' ''users'' = None"
  by code_simp

text \<open>The other two files C22 leaves out: a schema line without a separator, and a row with the largest id.\<close>

theorem bad_schema_line_reads_freed_text:
  "table_state_load (sample_allocator 20)
     (sample_fs []\<lparr>files := [''db/schema/users.schema'' \<mapsto> ''columns=id:int'' @ [NEWLINE] @ ''pkey'',
        ''db/tables/users.csv'' \<mapsto> []]\<rparr>) ''db'' ''users'' = None"
  by code_simp

theorem largest_id_overflows_next_id:
  "table_state_load (sample_allocator 20) (sample_db (''2147483647,Ann'' @ [NEWLINE])) ''db'' ''users'' = None"
  by code_simp

end
