(* ===== verification/Executor.thy ===== *)
theory Executor
  imports Sql_Parser Db_Context
begin

text \<open>
  \<^verbatim>\<open>src/query/executor.c\<close>: running a parsed query against the tables in memory.

  The output stream is the text written to it so far; it takes every byte, as the sources ignore its
  errors. An insertion also returns the file system, which holds the appended row. The sources have
  their own copies of the two number checks; so does the model.
\<close>

section \<open>Values\<close>

definition executor_is_integer_string :: "string option \<Rightarrow> bool" where
  "executor_is_integer_string text =
     (case text of
        None \<Rightarrow> False
      | Some s \<Rightarrow> (let s = skip_sign s in if peek s = NUL then False else digits_loop s))"

definition executor_is_float_string :: "string option \<Rightarrow> bool" where
  "executor_is_float_string text = (case text of None \<Rightarrow> False | Some s \<Rightarrow> float_loop (skip_sign s) False False)"

definition validate_value :: "ColumnDef \<Rightarrow> string \<Rightarrow> unit result" where
  "validate_value col val =
     (if column_type col = COLUMN_TYPE_INT \<and> \<not> executor_is_integer_string (Some val)
      then fail (''column '' @ column_name col @ '' expects int'')
      else if column_type col = COLUMN_TYPE_FLOAT \<and> \<not> executor_is_float_string (Some val)
      then fail (''column '' @ column_name col @ '' expects float'')
      else Inr ())"

fun find_column_loop :: "ColumnDef list \<Rightarrow> string \<Rightarrow> int \<Rightarrow> int" where
  "find_column_loop [] name index = -1"
| "find_column_loop (c # cs) name index = (if column_name c = name then index else find_column_loop cs name (index + 1))"

definition find_column_index :: "Schema \<Rightarrow> string \<Rightarrow> int" where
  "find_column_index schema name = find_column_loop (columns schema) name 0"

section \<open>Output\<close>

text \<open>The loop of \<open>print_header\<close> and of \<open>print_row\<close>.\<close>

fun put_fields :: "nat \<Rightarrow> string list \<Rightarrow> string \<Rightarrow> string" where
  "put_fields index [] out = out"
| "put_fields index (f # fs) out = put_fields (Suc index) fs ((if index > 0 then out @ '','' else out) @ f)"

definition print_header :: "Schema \<Rightarrow> string \<Rightarrow> string" where
  "print_header schema out = put_fields 0 (map column_name (columns schema)) out @ [NEWLINE]"

definition print_row :: "Row \<Rightarrow> string \<Rightarrow> string" where
  "print_row row out = put_fields 0 (row_fields row) out @ [NEWLINE]"

section \<open>SELECT\<close>

fun print_all_rows :: "Row list \<Rightarrow> string \<Rightarrow> string" where
  "print_all_rows [] out = out"
| "print_all_rows (r # rs) out = print_all_rows rs (print_row r out)"

fun print_matching_rows :: "Row list \<Rightarrow> int \<Rightarrow> string option \<Rightarrow> string \<Rightarrow> string option" where
  "print_matching_rows [] column_index val out = Some out"
| "print_matching_rows (r # rs) column_index val out = do {
     field \<leftarrow> arr_get (row_fields r) (nat column_index);
     v \<leftarrow> val;
     print_matching_rows rs column_index val (if field = v then print_row r out else out)
   }"

definition execute_select ::
  "allocator \<Rightarrow> filesystem \<Rightarrow> Query \<Rightarrow> DbContext \<Rightarrow> string \<Rightarrow> (DbContext \<times> string \<times> unit result) option" where
  "execute_select al fs query ctx out = do {
     (ctx, res) \<leftarrow> db_context_get_table al fs ctx (table_name query);
     (case res of
        Inl e \<Rightarrow> Some (ctx, out, Inl e)
      | Inr i \<Rightarrow> do {
          table \<leftarrow> arr_get (ctx_tables ctx) i;
          if \<not> has_condition query
          then Some (ctx, print_all_rows (rows (ts_rowset table)) (print_header (ts_schema table) out), Inr ())
          else do {
            col \<leftarrow> condition_column (condition query);
            (let val = raw (condition_value (condition query)) in
             if col = ''id''
             then if \<not> executor_is_integer_string val
                  then Some (ctx, out, fail ''WHERE id requires an integer value'')
                  else do {
                    (found, matched) \<leftarrow> bptree_search (ts_index table) (atoi (the val));
                    (let out = print_header (ts_schema table) out in
                     if found
                     then do {
                       r \<leftarrow> (if matched < 0 then None else arr_get (rows (ts_rowset table)) (nat matched));
                       Some (ctx, print_row r out, Inr ()) }
                     else Some (ctx, out, Inr ())) }
             else (let column_index = find_column_index (ts_schema table) col in
                   if column_index < 0
                   then Some (ctx, out, fail (''unknown column in WHERE clause: '' @ col))
                   else do {
                     out \<leftarrow> print_matching_rows (rows (ts_rowset table)) column_index val (print_header (ts_schema table) out);
                     Some (ctx, out, Inr ()) })) } }) }"

section \<open>INSERT\<close>

definition append_row_to_memory :: "allocator \<Rightarrow> TableState \<Rightarrow> string list \<Rightarrow> TableState \<times> unit result" where
  "append_row_to_memory al table row =
     (let rs = ts_rowset table; full = (length (rows rs) = row_capacity rs);
          next_capacity = (if row_capacity rs = 0 then 8 else row_capacity rs * 2) in
      if full \<and> \<not> rows_granted al then (table, fail ''failed to expand in-memory rowset'')
      else (let rs = (if full then rs\<lparr>row_capacity := next_capacity\<rparr> else rs) in
            if \<not> row_granted al then (table\<lparr>ts_rowset := rs\<rparr>, fail ''failed to allocate in-memory row'')
            else (table\<lparr>ts_rowset := rs\<lparr>rows := rows rs @ [\<lparr>row_fields = row\<rparr>]\<rparr>\<rparr>, Inr ())))"

fun validate_values :: "ColumnDef list \<Rightarrow> string list \<Rightarrow> unit result" where
  "validate_values (c # cs) (v # vs) =
     (case validate_value c v of Inl e \<Rightarrow> Inl e | Inr _ \<Rightarrow> validate_values cs vs)"
| "validate_values cs vs = Inr ()"

text \<open>How many columns the statement leaves to the table; \<open>None\<close> for a count that does not match.\<close>

definition value_offset :: "Schema \<Rightarrow> Query \<Rightarrow> nat option" where
  "value_offset schema query =
     (let value_count = int (length (query_values query)) in
      if value_count = column_count schema then Some 0
      else if autoincrement schema \<and> primary_key_index schema = 0 \<and> value_count = column_count schema - 1 then Some 1
      else None)"

text \<open>
  The end of \<open>execute_insert\<close>, from the copy of the row in memory on: the row is on file already. When
  the index has no memory the table is loaded again; \<open>cleanup\<close> then frees as many fields as the table
  has columns now. \<open>inserted_id + 1\<close> overflows for the largest \<open>int\<close>: \<open>None\<close>.
\<close>

definition insert_in_memory ::
  "allocator \<Rightarrow> filesystem \<Rightarrow> Query \<Rightarrow> DbContext \<Rightarrow> nat \<Rightarrow> TableState \<Rightarrow> string list \<Rightarrow> int \<Rightarrow> string \<Rightarrow>
     (DbContext \<times> string \<times> unit result) option" where
  "insert_in_memory al fs query ctx i table row inserted_id out =
     (let inserted_row_index = int (length (rows (ts_rowset table))) in
      case append_row_to_memory al table row of
        (table, Inl e) \<Rightarrow> Some (ctx\<lparr>ctx_tables := (ctx_tables ctx)[i := table]\<rparr>, out, Inl e)
      | (table, Inr _) \<Rightarrow> do {
          (tree, res) \<leftarrow> bptree_insert (ts_index table) inserted_id inserted_row_index;
          (let table = table\<lparr>ts_index := tree\<rparr> in
           case res of
             Inl e \<Rightarrow> do {
               (ctx, reloaded) \<leftarrow> db_context_reload_table al fs (ctx\<lparr>ctx_tables := (ctx_tables ctx)[i := table]\<rparr>) (table_name query);
               table \<leftarrow> arr_get (ctx_tables ctx) i;
               (if length row < length (columns (ts_schema table)) then None
                else Some (ctx, out, case reloaded of Inl e' \<Rightarrow> Inl e' | Inr _ \<Rightarrow> Inl e)) }
           | Inr _ \<Rightarrow>
               if inserted_id \<ge> ts_next_id table \<and> inserted_id = INT_MAX then None
               else (let next_id = (if inserted_id \<ge> ts_next_id table then inserted_id + 1 else ts_next_id table) in
                     Some (ctx\<lparr>ctx_tables := (ctx_tables ctx)[i := table\<lparr>ts_next_id := next_id\<rparr>]\<rparr>,
                           out @ ''INSERT 1'' @ [NEWLINE], Inr ()))) })"

definition execute_insert ::
  "allocator \<Rightarrow> filesystem \<Rightarrow> Query \<Rightarrow> DbContext \<Rightarrow> string \<Rightarrow> (DbContext \<times> filesystem \<times> string \<times> unit result) option" where
  "execute_insert al fs query ctx out = do {
     (ctx, res) \<leftarrow> db_context_get_table al fs ctx (table_name query);
     (case res of
        Inl e \<Rightarrow> Some (ctx, fs, out, Inl e)
      | Inr i \<Rightarrow> do {
          table \<leftarrow> arr_get (ctx_tables ctx) i;
          (case value_offset (ts_schema table) query of
             None \<Rightarrow> Some (ctx, fs, out, fail ''VALUES count does not match schema'')
           | Some offset \<Rightarrow>
               if \<not> insert_granted al then Some (ctx, fs, out, fail ''failed to allocate insert row'')
               else (let row = (if offset = 1 then [show_int (ts_next_id table)] else []) @ query_values query in
                     case validate_values (columns (ts_schema table)) row of
                       Inl e \<Rightarrow> Some (ctx, fs, out, Inl e)
                     | Inr _ \<Rightarrow> do {
                         field \<leftarrow> (if primary_key_index (ts_schema table) < 0 then None
                                  else arr_get row (nat (primary_key_index (ts_schema table))));
                         (found, _) \<leftarrow> bptree_search (ts_index table) (atoi field);
                         (if found then Some (ctx, fs, out, fail (''duplicate id: '' @ show_int (atoi field)))
                          else (case append_csv_row fs (Some (ctx_db_root ctx)) (table_name query) row of
                                  (fs, Inl e) \<Rightarrow> Some (ctx, fs, out, Inl e)
                                | (fs, Inr _) \<Rightarrow> do {
                                    (ctx, out, res) \<leftarrow> insert_in_memory al fs query ctx i table row (atoi field) out;
                                    Some (ctx, fs, out, res) })) })) }) }"

definition execute_query ::
  "allocator \<Rightarrow> filesystem \<Rightarrow> Query option \<Rightarrow> DbContext option \<Rightarrow> string option \<Rightarrow>
     (DbContext option \<times> filesystem \<times> string option \<times> unit result) option" where
  "execute_query al fs query ctx out =
     (case (query, ctx, out) of
        (Some q, Some c, Some s) \<Rightarrow>
          (case query_type q of
             QUERY_SELECT \<Rightarrow> do { (c, s, res) \<leftarrow> execute_select al fs q c s; Some (Some c, fs, Some s, res) }
           | QUERY_INSERT \<Rightarrow> do { (c, fs, s, res) \<leftarrow> execute_insert al fs q c s; Some (Some c, fs, Some s, res) })
      | _ \<Rightarrow> Some (ctx, fs, out, fail ''execute_query received invalid arguments''))"

section \<open>Values\<close>

lemma executor_checks [simp]:
  "executor_is_integer_string (Some s) = is_integer_string s" "executor_is_float_string (Some s) = is_float_string s"
  "executor_is_integer_string None = False"
  by (simp_all add: executor_is_integer_string_def executor_is_float_string_def is_integer_string_def is_float_string_def)

lemma validate_value_ok: "validate_value c v = Inr () \<longleftrightarrow> value_valid c v"
  by (cases "column_type c") (auto simp: validate_value_def value_valid_def)

lemma validate_values_ok:
  "length cs = length vs \<Longrightarrow> validate_values cs vs = Inr () \<longleftrightarrow> list_all2 value_valid cs vs"
  by (induction cs vs rule: list_induct2) (auto simp: validate_value_ok[symmetric] split: sum.splits)

lemma find_column_loop_spec:
  "find_column_loop cs name i =
     (if name \<in> column_name ` set cs then i + int (length (takeWhile (\<lambda>c. column_name c \<noteq> name) cs)) else -1)"
  by (induction cs name i rule: find_column_loop.induct) auto

lemma find_column_index_spec:
  "find_column_index schema name < 0 \<longleftrightarrow> name \<notin> column_name ` set (columns schema)"
  "0 \<le> find_column_index schema name \<Longrightarrow> find_column_index schema name < column_count schema \<and>
     column_name (columns schema ! nat (find_column_index schema name)) = name"
proof -
  show "find_column_index schema name < 0 \<longleftrightarrow> name \<notin> column_name ` set (columns schema)"
    by (auto simp: find_column_index_def find_column_loop_spec)
  assume "0 \<le> find_column_index schema name"
  then obtain c where "c \<in> set (columns schema)" "column_name c = name"
    by (auto simp: find_column_index_def find_column_loop_spec split: if_splits)
  then have "length (takeWhile (\<lambda>c. column_name c \<noteq> name) (columns schema)) < length (columns schema)"
    by (metis (mono_tags, lifting) length_takeWhile_le linorder_neqE_nat not_le takeWhile_eq_all_conv takeWhile_eq_take take_all_iff order_refl)
  then show "find_column_index schema name < column_count schema \<and>
     column_name (columns schema ! nat (find_column_index schema name)) = name"
    using nth_length_takeWhile[of "\<lambda>c. column_name c \<noteq> name" "columns schema"] \<open>c \<in> _\<close> \<open>column_name c = name\<close>
    by (auto simp: find_column_index_def find_column_loop_spec)
qed

text \<open>The text of an \<open>int\<close> is a valid value for a column of any type.\<close>

lemma digits_ok: "list_all isdigit s \<Longrightarrow> digits_loop s" "list_all isdigit s \<Longrightarrow> float_loop s b d = (b \<or> s \<noteq> [])"
  by (induction s arbitrary: b) auto

lemma show_int_valid: "value_valid c (show_int i)"
proof -
  have d: "list_all isdigit (show_nat n)" "show_nat n \<noteq> []" for n by (simp_all add: show_nat_digits)
  have h: "isdigit (peek (show_nat n))" for n using d[of n] by (cases "show_nat n") (simp_all add: peek_def)
  have "skip_sign (show_int i) = show_nat (nat \<bar>i\<bar>)"
    using h[of "nat i"] by (auto simp: show_int_def skip_sign_def peek_def[of "_ # _"] isdigit_def)
  moreover have "peek (show_nat n) \<noteq> NUL" for n using h[of n] by (auto simp: isdigit_def)
  ultimately show ?thesis by (simp add: value_valid_def is_integer_string_def is_float_string_def digits_ok d)
qed

section \<open>What a SELECT prints\<close>

fun joined :: "string list \<Rightarrow> string" where
  "joined [] = []"
| "joined [f] = f"
| "joined (f # fs) = f @ '','' @ joined fs"

definition header_text :: "Schema \<Rightarrow> string" where
  "header_text schema = joined (map column_name (columns schema)) @ [NEWLINE]"

definition row_text :: "Row \<Rightarrow> string" where
  "row_text r = joined (row_fields r) @ [NEWLINE]"

definition result_text :: "TableState \<Rightarrow> Row list \<Rightarrow> string" where
  "result_text table rs = header_text (ts_schema table) @ concat (map row_text rs)"

text \<open>The rows a query asks for, by a scan of the whole table.\<close>

definition matches_condition :: "Schema \<Rightarrow> string \<Rightarrow> string \<Rightarrow> Row \<Rightarrow> bool" where
  "matches_condition schema col v r =
     (if col = ''id'' then row_id schema r = atoi v else row_fields r ! nat (find_column_index schema col) = v)"

definition selected_rows :: "Query \<Rightarrow> TableState \<Rightarrow> Row list" where
  "selected_rows q table =
     (if \<not> has_condition q then rows (ts_rowset table)
      else filter (matches_condition (ts_schema table) (the (condition_column (condition q))) (the (raw (condition_value (condition q)))))
             (rows (ts_rowset table)))"

lemma matches_condition_fun:
  "matches_condition schema ''id'' v = (\<lambda>r. row_id schema r = atoi v)"
  "col \<noteq> ''id'' \<Longrightarrow> matches_condition schema col v = (\<lambda>r. row_fields r ! nat (find_column_index schema col) = v)"
  by (simp_all add: matches_condition_def fun_eq_iff)

lemma put_fields_joined: "put_fields i fs out = out @ (if i > 0 \<and> fs \<noteq> [] then '','' else []) @ joined fs"
proof (induction fs arbitrary: i out)
  case (Cons f fs)
  show ?case unfolding put_fields.simps Cons.IH by (cases fs) auto
qed simp

lemma print_header_text: "print_header schema out = out @ header_text schema"
  by (simp add: print_header_def header_text_def put_fields_joined)

lemma print_row_text: "print_row r out = out @ row_text r"
  by (simp add: print_row_def row_text_def put_fields_joined)

lemma print_all_rows_text: "print_all_rows rs out = out @ concat (map row_text rs)"
  by (induction rs out rule: print_all_rows.induct) (simp_all add: print_row_text)

lemma print_matching_rows_text:
  "\<forall>r\<in>set rs. nat ci < length (row_fields r) \<Longrightarrow>
     print_matching_rows rs ci (Some v) out = Some (out @ concat (map row_text (filter (\<lambda>r. row_fields r ! nat ci = v) rs)))"
  by (induction rs ci "Some v" out rule: print_matching_rows.induct) (simp_all add: print_row_text arr_get_def)

section \<open>The index and the scan\<close>

lemma row_numbers_lookup:
  "distinct ids \<Longrightarrow> map_of (row_numbers ids i) k = Some j \<longleftrightarrow> (\<exists>n<length ids. ids ! n = k \<and> j = i + int n)"
proof (induction ids arbitrary: i)
  case (Cons id ids)
  show ?case
  proof (cases "id = k")
    case True
    then show ?thesis using Cons.prems by (auto simp: nth_Cons' in_set_conv_nth less_Suc_eq_0_disj)
  next
    case False
    then show ?thesis using Cons by (auto simp: less_Suc_eq_0_disj)
  qed
qed simp

lemma filter_unique:
  "distinct (map f xs) \<Longrightarrow> n < length xs \<Longrightarrow> f (xs ! n) = k \<Longrightarrow> filter (\<lambda>x. f x = k) xs = [xs ! n]"
proof (induction xs arbitrary: n)
  case (Cons x xs)
  then show ?case by (cases n) (auto simp: filter_empty_conv image_iff)
qed simp

lemma table_index_lookup:
  assumes "table_ok t" "int32 k"
  shows "bptree_search (ts_index t) k = Some (search_result (map_of (row_numbers (table_ids t) 0) k))"
  using assms bt.lookup by (fastforce simp: table_ok_def)

lemma table_index_scan:
  assumes "table_ok t" "int32 k"
  obtains "bptree_search (ts_index t) k = Some (False, -1)" "k \<notin> set (table_ids t)"
      "filter (\<lambda>r. row_id (ts_schema t) r = k) (rows (ts_rowset t)) = []"
  | n where "bptree_search (ts_index t) k = Some (True, int n)" "k \<in> set (table_ids t)" "n < length (rows (ts_rowset t))"
      "filter (\<lambda>r. row_id (ts_schema t) r = k) (rows (ts_rowset t)) = [rows (ts_rowset t) ! n]"
proof (cases "map_of (row_numbers (table_ids t) 0) k")
  case None
  then have "k \<notin> set (table_ids t)" by (metis domIff row_numbers_dom)
  then show ?thesis
    using that(1) None table_index_lookup[OF assms] by (auto simp: search_result_def table_ids_def filter_empty_conv)
next
  case (Some j)
  have d: "distinct (table_ids t)" using assms(1) by (simp add: table_ok_def)
  then obtain n where "n < length (table_ids t)" "table_ids t ! n = k" "j = int n"
    using Some row_numbers_lookup[OF d, of 0 k j] by auto
  moreover from this have "k \<in> set (table_ids t)" using nth_mem[of n "table_ids t"] by simp
  ultimately show ?thesis
    using that(2)[of n] Some table_index_lookup[OF assms] filter_unique[of "row_id (ts_schema t)" "rows (ts_rowset t)" n k] d
    by (simp add: search_result_def table_ids_def)
qed

section \<open>SELECT\<close>

text \<open>Whether the condition of a query is one the table can answer, and the message when it is not.\<close>

definition condition_error :: "Query \<Rightarrow> Schema \<Rightarrow> string option" where
  "condition_error q schema =
     (if \<not> has_condition q then None
      else let col = the (condition_column (condition q)) in
        if col = ''id''
        then (if is_integer_string (the (raw (condition_value (condition q)))) then None else Some ''WHERE id requires an integer value'')
        else (if col \<in> column_name ` set (columns schema) then None else Some (''unknown column in WHERE clause: '' @ col)))"

lemma execute_select_outcome:
  assumes "db_context_get_table al fs ctx (table_name q) = Some (ctx', Inr i)" "i < length (ctx_tables ctx')"
    and "table_ok (ctx_tables ctx' ! i)"
    and "has_condition q \<Longrightarrow> condition_column (condition q) = Some c \<and> raw (condition_value (condition q)) = Some v"
  shows "execute_select al fs q ctx out =
    Some (case condition_error q (ts_schema (ctx_tables ctx' ! i)) of
            Some e \<Rightarrow> (ctx', out, fail e)
          | None \<Rightarrow> (ctx', out @ result_text (ctx_tables ctx' ! i) (selected_rows q (ctx_tables ctx' ! i)), Inr ()))"
proof -
  define t where "t = ctx_tables ctx' ! i"
  have t: "arr_get (ctx_tables ctx') i = Some t" "table_ok t" using assms(2,3) by (simp_all add: arr_get_def t_def)
  note start = execute_select_def assms(1) t(1) t_def[symmetric] condition_error_def selected_rows_def result_text_def
    print_header_text print_all_rows_text print_row_text matches_condition_fun
  show ?thesis
  proof (cases "has_condition q \<and> condition_error q (ts_schema t) = None")
    case False
    then show ?thesis
      using assms(4) find_column_index_spec(1)[of "ts_schema t" c] by (auto simp: start Let_def split: if_splits)
  next
    case True
    then have cond: "has_condition q" "condition_column (condition q) = Some c" "raw (condition_value (condition q)) = Some v"
      using assms(4) by simp_all
    show ?thesis
    proof (cases "c = ''id''")
      case id: True
      then have v: "is_integer_string v" using True cond by (simp add: condition_error_def split: if_splits)
      have "int32 (atoi v)" by simp
      from table_index_scan[OF t(2) this] show ?thesis
        by cases (simp_all add: start cond id v arr_get_def assms(2))
    next
      case False
      then have ci: "0 \<le> find_column_index (ts_schema t) c"
        using True cond find_column_index_spec(1)[of "ts_schema t" c] by (auto simp: condition_error_def split: if_splits)
      then have "\<forall>r\<in>set (rows (ts_rowset t)). nat (find_column_index (ts_schema t) c) < length (row_fields r)"
        using t(2) row_valid_length find_column_index_spec(2)[OF ci] by (fastforce simp: table_ok_def)
      then show ?thesis
        using False ci True cond by (simp add: start print_matching_rows_text split: if_splits)
    qed
  qed
qed

section \<open>INSERT\<close>

lemma append_row_to_memory_cases:
  obtains (refused) rs e where "append_row_to_memory al t row = (t\<lparr>ts_rowset := rs\<rparr>, Inl e)" "rows rs = rows (ts_rowset t)"
      "\<not> (rows_granted al \<and> row_granted al)"
  | (added) rs where "append_row_to_memory al t row = (t\<lparr>ts_rowset := rs\<rparr>, Inr ())"
      "rows rs = rows (ts_rowset t) @ [\<lparr>row_fields = row\<rparr>]"
proof -
  let ?rs = "ts_rowset t"
  let ?full = "length (rows ?rs) = row_capacity ?rs"
  let ?rs' = "if ?full then ?rs\<lparr>row_capacity := if row_capacity ?rs = 0 then 8 else row_capacity ?rs * 2\<rparr> else ?rs"
  consider (rows) "?full" "\<not> rows_granted al" | (row) "\<not> ?full \<or> rows_granted al" "\<not> row_granted al"
    | (ok) "\<not> ?full \<or> rows_granted al" "row_granted al" by blast
  then show thesis
  proof cases
    case rows
    then have "append_row_to_memory al t row = (t\<lparr>ts_rowset := ?rs\<rparr>, fail ''failed to expand in-memory rowset'')"
      by (simp add: append_row_to_memory_def)
    then show thesis using refused rows by blast
  next
    case row
    then have "append_row_to_memory al t row = (t\<lparr>ts_rowset := ?rs'\<rparr>, fail ''failed to allocate in-memory row'')"
      by (auto simp: append_row_to_memory_def Let_def)
    moreover have "rows ?rs' = rows ?rs" by simp
    ultimately show thesis using refused row by blast
  next
    case ok
    then have "append_row_to_memory al t row = (t\<lparr>ts_rowset := ?rs'\<lparr>rows := rows ?rs @ [\<lparr>row_fields = row\<rparr>]\<rparr>\<rparr>, Inr ())"
      by (auto simp: append_row_to_memory_def Let_def)
    then show thesis by (rule added) simp
  qed
qed

lemma row_numbers_app: "row_numbers (ids @ [k]) i = row_numbers ids i @ [(k, i + int (length ids))]"
  by (induction ids arbitrary: i) simp_all

lemma map_of_snoc: "k \<notin> dom (map_of xs) \<Longrightarrow> map_of (xs @ [(k, v)]) = (map_of xs)(k \<mapsto> v)"
  by (auto simp: map_add_def fun_eq_iff split: option.splits)

lemma table_ok_rowset: "rows rs = rows (ts_rowset t) \<Longrightarrow> table_ok (t\<lparr>ts_rowset := rs\<rparr>) = table_ok t"
  by (simp add: table_ok_def table_ids_def)

text \<open>The table after a row was added.\<close>

definition row_added :: "TableState \<Rightarrow> string list \<Rightarrow> TableState \<Rightarrow> bool" where
  "row_added t row t' \<longleftrightarrow>
     ts_name t' = ts_name t \<and> ts_schema t' = ts_schema t \<and>
     rows (ts_rowset t') = rows (ts_rowset t) @ [\<lparr>row_fields = row\<rparr>] \<and>
     (let k = row_id (ts_schema t) \<lparr>row_fields = row\<rparr> in
      ts_next_id t' = (if k \<ge> ts_next_id t then k + 1 else ts_next_id t))"

lemma table_ok_row_added:
  assumes "table_ok t" "row_added t row t'" "row_valid (ts_schema t) \<lparr>row_fields = row\<rparr>"
    and "k = row_id (ts_schema t) \<lparr>row_fields = row\<rparr>" "k \<notin> set (table_ids t)" "k \<noteq> INT_MAX"
    and "index_rep (ts_index t) es" "map_of es = map_of (row_numbers (table_ids t) 0)"
    and "index_rep (ts_index t') (entry_insert k (int (length (rows (ts_rowset t)))) es)"
  shows "table_ok t'"
proof -
  have ids: "table_ids t' = table_ids t @ [k]" using assms(2,4) by (simp add: row_added_def table_ids_def)
  have "fst ` set es = set (table_ids t)" by (metis assms(8) dom_map_of_conv_image_fst row_numbers_dom)
  then have "map_of (entry_insert k (int (length (rows (ts_rowset t)))) es) = map_of (row_numbers (table_ids t') 0)"
    using assms(5,8) bt.map_after_insert[OF assms(7)] map_of_snoc[of k "row_numbers (table_ids t) 0"]
    by (simp add: ids row_numbers_app row_numbers_dom) (simp add: table_ids_def)
  moreover have "int32 k" by (simp add: assms(4) row_id_def)
  then have "int32 (k + 1)" using assms(6) by (auto simp: int32_def)
  ultimately show ?thesis
    using assms(1-5,9) unfolding table_ok_def ids by (auto simp: row_added_def Let_def)
qed

lemma table_path_not_schema: "length db_root < 4094 \<Longrightarrow> schema_path db_root name \<noteq> build_table_path db_root name"
proof -
  assume "length db_root < 4094"
  then have "schema_path db_root name ! Suc (length db_root) = CHR ''s''" "build_table_path db_root name ! Suc (length db_root) = CHR ''t''"
    by (simp_all add: schema_path_def build_table_path_def path_buffer_def nth_append)
  then show ?thesis by auto
qed

text \<open>Appending a row leaves the schema of the table as it was.\<close>

lemma appended_keeps_schema:
  assumes "appended fs (build_table_path db_root name) w fs'" "length db_root < 4094"
  shows "load_table_schema fs' db_root name = load_table_schema fs db_root name"
    "schema_regular fs' db_root name = schema_regular fs db_root name"
proof -
  have f: "files fs' (schema_path db_root name) = files fs (schema_path db_root name)" "read_fault_at fs' = read_fault_at fs"
    using assms(1) table_path_not_schema[OF assms(2)] by (auto simp: appended_def)
  then have "sql_read_text_file fs' (Some (schema_path db_root name)) = sql_read_text_file fs (Some (schema_path db_root name))"
    by (simp add: sql_read_text_file_def split: option.split)
  then show "load_table_schema fs' db_root name = load_table_schema fs db_root name"
    "schema_regular fs' db_root name = schema_regular fs db_root name"
    using f(1) by (simp_all add: load_schema_def schema_regular_def schema_unique_def)
qed

lemma append_keeps_schema:
  assumes "append_csv_row fs (Some db_root) (Some name) row = (fs', res)" "length db_root < 4094"
  shows "load_table_schema fs' db_root name = load_table_schema fs db_root name"
    "schema_regular fs' db_root name = schema_regular fs db_root name"
proof -
  have "fs' = fs \<or> (\<exists>w. appended fs (build_table_path db_root name) w fs')"
  proof (cases "row \<noteq> [] \<and> can_append fs (build_table_path db_root name)")
    case True
    then show ?thesis using append_csv_row_spec[of row fs db_root name] assms(1) by auto
  next
    case False
    then show ?thesis using assms(1) by (auto simp: append_csv_row_def fopen_append_def Let_def split: if_splits)
  qed
  then show "load_table_schema fs' db_root name = load_table_schema fs db_root name"
    "schema_regular fs' db_root name = schema_regular fs db_root name"
    using appended_keeps_schema[OF _ assms(2)] by blast+
qed

lemma index_insert_new:
  assumes "index_rep tree es" "int32 k" "k \<notin> fst ` set es"
  obtains (inserted) tree' where "bptree_insert tree k row = Some (tree', Inr ())" "index_rep tree' (entry_insert k row es)"
  | (exhausted) tree' e where "bptree_insert tree k row = Some (tree', Inl e)" "tree_room tree < insertion_cost" "tree_safe tree'"
proof -
  obtain T where T: "tree = Some T" "bptree_rep T es" using assms(1) by (auto simp: index_rep_def)
  from rep_insert_new[OF T(2) assms(2,3), of row] obtain T' res where
    ins: "bptree_insert (Some T) k row = Some (Some T', res)"
    and "res = Inr () \<and> bptree_rep T' (entry_insert k row es) \<or> alloc_failed T T' res" by blast
  then consider "res = Inr ()" "bptree_rep T' (entry_insert k row es)" | "alloc_failed T T' res" by blast
  then show thesis
  proof cases
    case 1
    then show thesis using ins T(1) by (intro inserted[of "Some T'"]) (auto simp: index_rep_def)
  next
    case 2
    then show thesis using ins T(1)
      by (intro exhausted[of "Some T'"]) (auto simp: alloc_failed_def tree_room_def insertion_cost_def tree_safe_def)
  qed
qed

lemma insert_in_memory_outcome:
  assumes ctx: "context_ok ctx" "i < length (ctx_tables ctx)" and t: "ctx_tables ctx ! i = t"
    and row: "row_valid (ts_schema t) \<lparr>row_fields = row\<rparr>" "k = row_id (ts_schema t) \<lparr>row_fields = row\<rparr>" "k \<notin> set (table_ids t)"
      "k \<noteq> INT_MAX"
    and name: "table_name q = Some n" "find_table (ctx_tables ctx) n 0 = (if length n \<le> 255 then Some i else None)"
    and files: "schema_regular fs (ctx_db_root ctx) n" "load_table_schema fs (ctx_db_root ctx) n = Some (Inr (ts_schema t))"
      "ts_name t = take 255 n" "insertion_cost \<le> tree_room (ts_index t) \<or> max_id_unused fs (ctx_db_root ctx) n"
  shows "\<exists>t' res. insert_in_memory al fs q ctx i t row k out =
      Some (ctx\<lparr>ctx_tables := (ctx_tables ctx)[i := t']\<rparr>, out @ (case res of Inl e \<Rightarrow> [] | Inr _ \<Rightarrow> ''INSERT 1'' @ [NEWLINE]), res) \<and>
    ts_name t' = ts_name t \<and> ts_schema t' = ts_schema t \<and> tree_safe (ts_index t') \<and>
    (res = Inr () \<longrightarrow> row_added t row t') \<and>
    (res = Inr () \<or> insertion_cost \<le> tree_room (ts_index t) \<longrightarrow> table_ok t') \<and>
    (rows_granted al \<and> row_granted al \<and> insertion_cost \<le> tree_room (ts_index t) \<longrightarrow> res = Inr ())"
proof (cases rule: append_row_to_memory_cases[of al t row])
  have ok: "table_ok t" using ctx t nth_mem[OF ctx(2)] by (auto simp: context_ok_def)
  {
    case (refused rs e)
    then show ?thesis using ok table_ok_rowset[OF refused(2)] table_ok_safe[OF ok]
      by (intro exI[of _ "t\<lparr>ts_rowset := rs\<rparr>"] exI[of _ "Inl e"]) (auto simp: insert_in_memory_def)
  next
    case (added rs)
    let ?n = "int (length (rows (ts_rowset t)))" and ?t = "t\<lparr>ts_rowset := rs\<rparr>"
    obtain es where es: "index_rep (ts_index t) es" "map_of es = map_of (row_numbers (table_ids t) 0)"
      using ok by (auto simp: table_ok_def)
    have "fst ` set es = set (table_ids t)" by (metis es(2) dom_map_of_conv_image_fst row_numbers_dom)
    then have "int32 k" "k \<notin> fst ` set es" using row(2,3) by (simp_all add: row_id_def)
    from es(1) this show ?thesis
    proof (cases rule: index_insert_new[of _ _ _ ?n])
      case (inserted tree)
      let ?t' = "?t\<lparr>ts_index := tree, ts_next_id := if k \<ge> ts_next_id t then k + 1 else ts_next_id t\<rparr>"
      have new: "row_added t row ?t'" using added row(2) by (simp add: row_added_def Let_def)
      moreover have "table_ok ?t'" by (rule table_ok_row_added[OF ok new row es]) (simp add: inserted(2))
      moreover have "tree_safe tree" using inserted(2) bg.rep_safe by simp
      ultimately show ?thesis using added inserted(1) row(4)
        by (intro exI[of _ ?t'] exI[of _ "Inr ()"]) (simp add: insert_in_memory_def)
    next
      case (exhausted tree e)
      let ?t2 = "?t\<lparr>ts_index := tree\<rparr>"
      let ?ctx = "ctx\<lparr>ctx_tables := (ctx_tables ctx)[i := ?t2]\<rparr>"
      have "\<forall>t\<in>set (ctx_tables ?ctx). tree_safe (ts_index t)"
        using context_ok_safe[OF ctx(1)] exhausted(3) by (auto dest: set_update_subset_insert[THEN subsetD])
      then obtain ctx' res' where re: "db_context_reload_table al fs ?ctx (Some n) = Some (ctx', res')"
        and cs: "case res' of Inl e \<Rightarrow> ctx' = ?ctx
         | Inr _ \<Rightarrow> \<exists>j t'. find_table (ctx_tables ?ctx) n 0 = Some j \<and> j < length (ctx_tables ?ctx) \<and>
             table_ok t' \<and> ts_name t' = take 255 n \<and> synced fs (ctx_db_root ?ctx) n t' \<and>
             ctx' = ?ctx\<lparr>ctx_tables := (ctx_tables ?ctx)[j := t']\<rparr>"
        using reload_table_outcome[of ?ctx fs n al] files(1,4) exhausted(2) by auto
      have "find_table (ctx_tables ?ctx) n 0 = find_table (ctx_tables ctx) n 0"
        using ctx(2) t by (simp add: find_table_update)
      then obtain t' where t': "ctx' = ctx\<lparr>ctx_tables := (ctx_tables ctx)[i := t']\<rparr>" "ts_name t' = ts_name t"
          "ts_schema t' = ts_schema t" "tree_safe (ts_index t')"
        using cs name(2) files(2,3) exhausted(3) table_ok_safe by (cases res') (auto simp: synced_def split: if_splits)
      have "length row = length (columns (ts_schema t))" using row_valid_length[OF row(1)] by simp
      then have "insert_in_memory al fs q ctx i t row k out =
          Some (ctx', out, case res' of Inl e' \<Rightarrow> Inl e' | Inr _ \<Rightarrow> Inl e)"
        using added exhausted(1) name(1) re t'(1,3) ctx(2) by (simp add: insert_in_memory_def arr_get_def)
      then show ?thesis using t' exhausted(2)
        by (intro exI[of _ t'] exI[of _ "case res' of Inl e' \<Rightarrow> Inl e' | Inr _ \<Rightarrow> Inl e"]) (auto split: sum.splits)
    qed
  }
qed

text \<open>The row a statement asks for, and when the table takes it.\<close>

definition insert_row :: "Query \<Rightarrow> TableState \<Rightarrow> string list" where
  "insert_row q t = (if value_offset (ts_schema t) q = Some 1 then [show_int (ts_next_id t)] else []) @ query_values q"

definition insertable :: "Query \<Rightarrow> TableState \<Rightarrow> bool" where
  "insertable q t \<longleftrightarrow> value_offset (ts_schema t) q \<noteq> None \<and> row_valid (ts_schema t) \<lparr>row_fields = insert_row q t\<rparr> \<and>
     row_id (ts_schema t) \<lparr>row_fields = insert_row q t\<rparr> \<notin> set (table_ids t)"

text \<open>And the id of the row is not the largest \<open>int\<close>, after which there is no next id.\<close>

definition acceptable :: "Query \<Rightarrow> TableState \<Rightarrow> bool" where
  "acceptable q t \<longleftrightarrow> insertable q t \<and> row_id (ts_schema t) \<lparr>row_fields = insert_row q t\<rparr> \<noteq> INT_MAX"

lemma insert_row_length: "value_offset (ts_schema t) q = Some offset \<Longrightarrow> length (insert_row q t) = length (columns (ts_schema t))"
  by (auto simp: value_offset_def insert_row_def Let_def split: if_splits)

lemma execute_insert_checked:
  assumes get: "db_context_get_table al fs ctx (table_name q) = Some (ctx', Inr i)" "i < length (ctx_tables ctx')"
    and t: "ctx_tables ctx' ! i = t" "table_ok t"
  shows "insertable q t \<and> insert_granted al \<Longrightarrow> execute_insert al fs q ctx out =
      (case append_csv_row fs (Some (ctx_db_root ctx')) (table_name q) (insert_row q t) of
         (fs', Inl e) \<Rightarrow> Some (ctx', fs', out, Inl e)
       | (fs', Inr _) \<Rightarrow> do {
           (ctx, out, res) \<leftarrow> insert_in_memory al fs' q ctx' i t (insert_row q t) (row_id (ts_schema t) \<lparr>row_fields = insert_row q t\<rparr>) out;
           Some (ctx, fs', out, res) })"
    and "\<not> (insertable q t \<and> insert_granted al) \<Longrightarrow> \<exists>e. execute_insert al fs q ctx out = Some (ctx', fs, out, Inl e)"
    and "value_offset (ts_schema t) q \<noteq> None \<Longrightarrow> row_valid (ts_schema t) \<lparr>row_fields = insert_row q t\<rparr> \<Longrightarrow> insert_granted al \<Longrightarrow>
      row_id (ts_schema t) \<lparr>row_fields = insert_row q t\<rparr> \<in> set (table_ids t) \<Longrightarrow> execute_insert al fs q ctx out =
      Some (ctx', fs, out, fail (''duplicate id: '' @ show_int (row_id (ts_schema t) \<lparr>row_fields = insert_row q t\<rparr>)))"
proof -
  let ?k = "row_id (ts_schema t) \<lparr>row_fields = insert_row q t\<rparr>" and ?s = "ts_schema t"
  have here: "arr_get (ctx_tables ctx') i = Some t" using get(2) t(1) by (simp add: arr_get_def)
  have none: "value_offset ?s q = None \<Longrightarrow> execute_insert al fs q ctx out = Some (ctx', fs, out, fail ''VALUES count does not match schema'')"
    by (simp add: execute_insert_def get(1) here)
  have refused: "value_offset ?s q = Some off \<Longrightarrow> \<not> insert_granted al \<Longrightarrow>
      execute_insert al fs q ctx out = Some (ctx', fs, out, fail ''failed to allocate insert row'')" for off
    by (simp add: execute_insert_def get(1) here)
  have row: "(if off = 1 then [show_int (ts_next_id t)] else []) @ query_values q = insert_row q t"
    "length (columns ?s) = length (insert_row q t)" if "value_offset ?s q = Some off" for off
    using that insert_row_length[OF that] by (simp_all add: insert_row_def)
  have invalid: "\<exists>e. execute_insert al fs q ctx out = Some (ctx', fs, out, Inl e)"
    if o: "value_offset ?s q = Some off" and "insert_granted al" "\<not> row_valid ?s \<lparr>row_fields = insert_row q t\<rparr>" for off
  proof -
    have "validate_values (columns ?s) (insert_row q t) \<noteq> Inr ()"
      using that(3) validate_values_ok[OF row(2)[OF o]] by (simp add: row_valid_def)
    then obtain e where "validate_values (columns ?s) (insert_row q t) = Inl e" by (cases "validate_values (columns ?s) (insert_row q t)") auto
    then show ?thesis using that(2) o by (cases "off = 1") (auto simp: execute_insert_def get(1) here insert_row_def)
  qed
  have pk: "0 \<le> primary_key_index ?s" "primary_key_index ?s < column_count ?s" using t(2) by (simp_all add: table_ok_def)
  have "int32 ?k" by (simp add: row_id_def)
  have run: "execute_insert al fs q ctx out =
      (if ?k \<in> set (table_ids t) then Some (ctx', fs, out, fail (''duplicate id: '' @ show_int ?k))
       else (case append_csv_row fs (Some (ctx_db_root ctx')) (table_name q) (insert_row q t) of
         (fs', Inl e) \<Rightarrow> Some (ctx', fs', out, Inl e)
       | (fs', Inr _) \<Rightarrow> do {
           (ctx, out, res) \<leftarrow> insert_in_memory al fs' q ctx' i t (insert_row q t) ?k out; Some (ctx, fs', out, res) }))"
    if o: "value_offset ?s q = Some off" and "insert_granted al" "row_valid ?s \<lparr>row_fields = insert_row q t\<rparr>" for off
  proof -
    have "validate_values (columns ?s) (insert_row q t) = Inr ()"
      using that(3) validate_values_ok[OF row(2)[OF o]] by (simp add: row_valid_def)
    moreover have "arr_get (insert_row q t) (nat (primary_key_index ?s)) = Some (insert_row q t ! nat (primary_key_index ?s))"
      using pk row(2)[OF o] by (simp add: arr_get_def)
    moreover have "\<exists>j. bptree_search (ts_index t) ?k = Some (?k \<in> set (table_ids t), j)"
      by (cases rule: table_index_scan[OF t(2) \<open>int32 ?k\<close>]) auto
    ultimately show ?thesis using that(2) pk(1) o
      by (cases "off = 1") (auto simp: execute_insert_def get(1) here insert_row_def row_id_def Let_def split: prod.splits sum.splits)
  qed
  show "insertable q t \<and> insert_granted al \<Longrightarrow> execute_insert al fs q ctx out =
      (case append_csv_row fs (Some (ctx_db_root ctx')) (table_name q) (insert_row q t) of
         (fs', Inl e) \<Rightarrow> Some (ctx', fs', out, Inl e)
       | (fs', Inr _) \<Rightarrow> do {
           (ctx, out, res) \<leftarrow> insert_in_memory al fs' q ctx' i t (insert_row q t) ?k out; Some (ctx, fs', out, res) })"
    using run by (auto simp: insertable_def)
  show "\<not> (insertable q t \<and> insert_granted al) \<Longrightarrow> \<exists>e. execute_insert al fs q ctx out = Some (ctx', fs, out, Inl e)"
    using none refused invalid run
    by (cases "value_offset ?s q"; cases "insert_granted al"; cases "row_valid ?s \<lparr>row_fields = insert_row q t\<rparr>")
      (auto simp: insertable_def)
  show "value_offset ?s q \<noteq> None \<Longrightarrow> row_valid ?s \<lparr>row_fields = insert_row q t\<rparr> \<Longrightarrow> insert_granted al \<Longrightarrow> ?k \<in> set (table_ids t) \<Longrightarrow>
      execute_insert al fs q ctx out = Some (ctx', fs, out, fail (''duplicate id: '' @ show_int ?k))"
    using run by auto
qed

section \<open>Statements on a context\<close>

text \<open>
  What a statement on the table \<open>n\<close> relies on: the invariant of the context, a path that fits the
  buffers, a schema file with one \<open>columns\<close> and one \<open>pkey\<close> line at most and a separator in every line that
  is not blank, and, when the table is in memory already, the schema it was loaded with still being the one
  on file; when it is not, no row on file with the largest \<open>int\<close> as its id.
\<close>

definition ready :: "filesystem \<Rightarrow> DbContext \<Rightarrow> string \<Rightarrow> bool" where
  "ready fs ctx n \<longleftrightarrow>
     context_ok ctx \<and> length (ctx_db_root ctx) < 4094 \<and> schema_regular fs (ctx_db_root ctx) n \<and>
     (\<forall>t\<in>set (ctx_tables ctx). ts_name t = n \<longrightarrow> load_table_schema fs (ctx_db_root ctx) n = Some (Inr (ts_schema t))) \<and>
     (n \<notin> ts_name ` set (ctx_tables ctx) \<longrightarrow> max_id_unused fs (ctx_db_root ctx) n)"

lemma ready_get_table:
  assumes "ready fs ctx n"
  obtains (missing) e where "db_context_get_table al fs ctx (Some n) = Some (ctx, Inl e)"
  | (found) ctx' i where "db_context_get_table al fs ctx (Some n) = Some (ctx', Inr i)" "context_ok ctx'"
      "ctx_db_root ctx' = ctx_db_root ctx" "i < length (ctx_tables ctx')" "table_ok (ctx_tables ctx' ! i)"
      "ts_name (ctx_tables ctx' ! i) = take 255 n" "find_table (ctx_tables ctx') n 0 = (if length n \<le> 255 then Some i else None)"
      "load_table_schema fs (ctx_db_root ctx) n = Some (Inr (ts_schema (ctx_tables ctx' ! i)))" "ready fs ctx' n"
proof -
  have r: "context_ok ctx" "schema_regular fs (ctx_db_root ctx) n"
    "find_table (ctx_tables ctx) n 0 = None \<Longrightarrow> max_id_unused fs (ctx_db_root ctx) n"
    using assms by (auto simp: ready_def find_table_None)
  obtain ctx' res where get: "db_context_get_table al fs ctx (Some n) = Some (ctx', res)" "context_ok ctx'"
      "ctx_db_root ctx' = ctx_db_root ctx"
    and cs: "case res of Inl e \<Rightarrow> ctx' = ctx
     | Inr i \<Rightarrow> i < length (ctx_tables ctx') \<and> ts_name (ctx_tables ctx' ! i) = take 255 n \<and>
         find_table (ctx_tables ctx') n 0 = (if length n \<le> 255 then Some i else None) \<and>
         (ctx' = ctx \<and> length n \<le> 255 \<or> ctx_tables ctx' = ctx_tables ctx @ [ctx_tables ctx' ! i] \<and>
            synced fs (ctx_db_root ctx) n (ctx_tables ctx' ! i))"
    using get_table_outcome[OF r, of al] by blast
  show thesis
  proof (cases res)
    case (Inl e)
    then show thesis using missing get cs by simp
  next
    case (Inr i)
    then have i: "i < length (ctx_tables ctx')" "ts_name (ctx_tables ctx' ! i) = take 255 n" using cs by simp_all
    then have "table_ok (ctx_tables ctx' ! i)" using get(2) by (simp add: context_ok_def)
    have load: "load_table_schema fs (ctx_db_root ctx) n = Some (Inr (ts_schema (ctx_tables ctx' ! i)))"
      using cs Inr i assms nth_mem[OF i(1)] by (auto simp: synced_def ready_def)
    have "\<forall>t\<in>set (ctx_tables ctx'). t \<in> set (ctx_tables ctx) \<or> t = ctx_tables ctx' ! i"
      using cs Inr by (metis (mono_tags, lifting) Un_iff empty_iff insert_iff list.set set_append sum.case(2))
    moreover have "set (ctx_tables ctx) \<subseteq> set (ctx_tables ctx')"
      using cs Inr by (metis (mono_tags, lifting) Un_upper1 order_refl set_append sum.case(2))
    ultimately have "ready fs ctx' n" using assms get(2,3) load by (auto simp: ready_def)
    then show thesis using found get i cs Inr \<open>table_ok _\<close> load by simp
  qed
qed

lemma context_tables_safe:
  "context_ok ctx \<Longrightarrow> tree_safe (ts_index t) \<Longrightarrow> \<forall>u\<in>set ((ctx_tables ctx)[i := t]). tree_safe (ts_index u)"
  using context_ok_safe[of ctx] by (auto dest: set_update_subset_insert[THEN subsetD])

lemma acceptable_nonempty: "acceptable q t \<Longrightarrow> table_ok t \<Longrightarrow> insert_row q t \<noteq> []"
  using insert_row_length[of t q] by (force simp: acceptable_def insertable_def table_ok_def)

lemma table_ok_max_id: "table_ok t \<Longrightarrow> INT_MAX \<notin> set (table_ids t)"
  by (fastforce simp: table_ok_def int32_def)

text \<open>An insertion whose row was written to the file.\<close>

lemma execute_insert_written:
  assumes "ready fs ctx n" "table_name q = Some n" "db_context_get_table al fs ctx (Some n) = Some (ctx1, Inr i)"
    and t: "t = ctx_tables ctx1 ! i" and ins: "acceptable q t" "insert_granted al"
    and app: "append_csv_row fs (Some (ctx_db_root ctx1)) (Some n) (insert_row q t) = (fs', Inr ())"
    and max: "insertion_cost \<le> tree_room (ts_index t) \<or> max_id_unused fs' (ctx_db_root ctx1) n"
  shows "\<exists>t' res. execute_insert al fs q ctx out =
      Some (ctx1\<lparr>ctx_tables := (ctx_tables ctx1)[i := t']\<rparr>, fs', out @ (case res of Inl e \<Rightarrow> [] | Inr _ \<Rightarrow> ''INSERT 1'' @ [NEWLINE]), res) \<and>
    ts_name t' = ts_name t \<and> ts_schema t' = ts_schema t \<and> tree_safe (ts_index t') \<and>
    (res = Inr () \<longrightarrow> row_added t (insert_row q t) t') \<and>
    (res = Inr () \<or> insertion_cost \<le> tree_room (ts_index t) \<longrightarrow> table_ok t') \<and>
    (rows_granted al \<and> row_granted al \<and> insertion_cost \<le> tree_room (ts_index t) \<longrightarrow> res = Inr ())"
  using assms(1)
proof (cases rule: ready_get_table[of _ _ _ al])
  case (found ctx' j)
  then have eq: "ctx' = ctx1" "j = i" using assms(3) by simp_all
  note g = found[unfolded eq, folded t]
  have "length (ctx_db_root ctx) < 4094" using assms(1) by (simp add: ready_def)
  then have schema: "schema_regular fs' (ctx_db_root ctx1) n" "load_table_schema fs' (ctx_db_root ctx1) n = Some (Inr (ts_schema t))"
    using append_keeps_schema[OF app] g(3,8) assms(1) by (simp_all add: ready_def)
  have row: "row_valid (ts_schema t) \<lparr>row_fields = insert_row q t\<rparr>" "row_id (ts_schema t) \<lparr>row_fields = insert_row q t\<rparr> \<notin> set (table_ids t)"
    "row_id (ts_schema t) \<lparr>row_fields = insert_row q t\<rparr> \<noteq> INT_MAX" and "insertable q t"
    using ins(1) by (simp_all add: acceptable_def insertable_def)
  then show ?thesis
    using insert_in_memory_outcome[OF g(2,4) t[symmetric] row(1) refl row(2,3) assms(2) g(7) schema g(6) max, of al out]
      execute_insert_checked(1)[of al fs ctx q ctx1 i t out] assms(2,3) g(4,5) t ins(2) app by auto
qed (use assms(3) in simp)

section \<open>Properties\<close>

text \<open>
  The row a statement inserts does not have the largest \<open>int\<close> as its id, and neither does a row of the
  file it was appended to.
\<close>

definition avoids_max_id :: "allocator \<Rightarrow> filesystem \<Rightarrow> DbContext \<Rightarrow> string \<Rightarrow> Query \<Rightarrow> bool" where
  "avoids_max_id al fs ctx n q \<longleftrightarrow>
     (case db_context_get_table al fs ctx (Some n) of
        Some (ctx', Inr i) \<Rightarrow>
          (let t = ctx_tables ctx' ! i in
           insertable q t \<longrightarrow> acceptable q t \<and>
             max_id_unused (fst (append_csv_row fs (Some (ctx_db_root ctx')) (Some n) (insert_row q t))) (ctx_db_root ctx') n)
      | _ \<Rightarrow> True)"

text \<open>
  C6. Running a query returns without undefined behaviour: no access outside an array, to a freed node or
  to freed text, and no overflow of the next id, whichever of the allocations of tables, rows and tree
  nodes and whichever writes fail. The conditions are those of \<open>ready\<close> (the context satisfies its
  invariant; the schema file has one \<open>columns\<close> and one \<open>pkey\<close> line at most and a separator in every line
  that is not blank, and is still the one the table was loaded with; no row of a table that is not yet in
  memory has the id \<open>INT_MAX\<close>), and for an INSERT that neither the row nor a row of the file it is appended
  to has that id. Copies of strings are taken to be allocated. The invariant of the context
  holds afterwards too, except when an insertion found fewer nodes left for the index than a split may
  need and failed; every index can still be destroyed even then. The output is only ever extended.
\<close>

theorem execute_query_safe:
  assumes "ready fs ctx n" "query_ok q" "table_name q = Some n"
    and "query_type q = QUERY_SELECT \<or> avoids_max_id al fs ctx n q"
  shows "\<exists>ctx' fs' out' res. execute_query al fs (Some q) (Some ctx) (Some out) = Some (Some ctx', fs', Some out', res) \<and>
    prefix out out' \<and> (\<forall>t\<in>set (ctx_tables ctx'). tree_safe (ts_index t)) \<and>
    (context_ok ctx' \<or> res \<noteq> Inr () \<and>
      (\<exists>ctx1 i. db_context_get_table al fs ctx (Some n) = Some (ctx1, Inr i) \<and> tree_room (ts_index (ctx_tables ctx1 ! i)) < insertion_cost))"
  using assms(1)
proof (cases rule: ready_get_table[of _ _ _ al])
  case (missing e)
  then show ?thesis using assms context_ok_safe[of ctx]
    by (cases "query_type q") (simp_all add: execute_query_def execute_select_def execute_insert_def ready_def)
next
  case (found ctx1 i)
  let ?t = "ctx_tables ctx1 ! i"
  note safe = context_ok_safe[OF found(2)]
  show ?thesis
  proof (cases "query_type q")
    case QUERY_SELECT
    then obtain c v where "has_condition q \<Longrightarrow> condition_column (condition q) = Some c \<and> raw (condition_value (condition q)) = Some v"
      using assms(2) by (auto simp: query_ok_def)
    from execute_select_outcome[OF _ found(4,5) this, of al fs ctx out] show ?thesis
      using found(1,2) assms(3) safe QUERY_SELECT by (auto simp: execute_query_def split: option.splits)
  next
    case QUERY_INSERT
    note run = execute_insert_checked[OF _ found(4) refl found(5), of al fs ctx q out]
    show ?thesis
    proof (cases "insertable q ?t \<and> insert_granted al")
      case False
      then show ?thesis using run(2) found(1,2) assms(3) safe QUERY_INSERT by (auto simp: execute_query_def)
    next
      case ok: True
      obtain fs' r where app: "append_csv_row fs (Some (ctx_db_root ctx1)) (Some n) (insert_row q ?t) = (fs', r)" by fastforce
      show ?thesis
      proof (cases r)
        case (Inl e)
        then show ?thesis using run(1) ok app found(1,2) assms(3) safe QUERY_INSERT by (simp add: execute_query_def)
      next
        case (Inr u)
        then obtain t' res where ex: "execute_insert al fs q ctx out =
            Some (ctx1\<lparr>ctx_tables := (ctx_tables ctx1)[i := t']\<rparr>, fs', out @ (case res of Inl e \<Rightarrow> [] | Inr _ \<Rightarrow> ''INSERT 1'' @ [NEWLINE]), res)"
          and t': "tree_safe (ts_index t')" "res = Inr () \<or> insertion_cost \<le> tree_room (ts_index ?t) \<longrightarrow> table_ok t'"
          using execute_insert_written[OF assms(1,3) found(1) refl, of fs' out] ok app assms(4) found(1) QUERY_INSERT
          by (auto simp: avoids_max_id_def Let_def)
        have "context_ok (ctx1\<lparr>ctx_tables := (ctx_tables ctx1)[i := t']\<rparr>) \<or> res \<noteq> Inr () \<and> tree_room (ts_index ?t) < insertion_cost"
          using t'(2) context_ok_update[OF found(2), of t' i] by (cases "table_ok t'") auto
        then show ?thesis
          using ex context_tables_safe[OF found(2) t'(1), of i] found(1) QUERY_INSERT by (simp add: execute_query_def)
      qed
    qed
  qed
qed

text \<open>A context with one table of one row, for the examples.\<close>

definition sample_context :: "TableState \<Rightarrow> DbContext" where
  "sample_context t = \<lparr>ctx_db_root = ''db'', ctx_tables = [t]\<rparr>"

definition sample_table_facts :: "TableState \<Rightarrow> bool" where
  "sample_table_facts t \<longleftrightarrow>
     table_ok t \<and> table_ids t = [1] \<and> ts_next_id t = 2 \<and> ts_name t = ''users'' \<and> ts_schema t = sample_schema \<and>
     rows (ts_rowset t) = [\<lparr>row_fields = [''1'', ''Ann'']\<rparr>] \<and> insertion_cost \<le> tree_room (ts_index t)"

abbreviation (input) sample_files :: filesystem where
  "sample_files \<equiv> sample_db (''1,Ann'' @ [NEWLINE])"

lemma sample_table_exists: "\<exists>t. sample_table_facts t"
  using sample_table by (auto simp: sample_table_facts_def insertion_cost_def)

lemma sample_context_facts:
  assumes "sample_table_facts t"
  shows "ready sample_files (sample_context t) ''users''"
    "db_context_get_table al sample_files (sample_context t) (Some ''users'') = Some (sample_context t, Inr 0)"
  using assms sample_db_facts(1,2)[of "''1,Ann'' @ [NEWLINE]"]
  by (simp_all add: sample_table_facts_def sample_context_def ready_def context_ok_def db_context_get_table_def)

lemma sample_row:
  assumes "sample_table_facts t"
  shows "insert_row (insert_query ''users'' [''Bob'']) t = [''2'', ''Bob'']" "acceptable (insert_query ''users'' [''Bob'']) t"
    "ctx_tables (sample_context t) ! 0 = t" "ts_schema t = sample_schema"
    "avoids_max_id al sample_files (sample_context t) ''users'' (insert_query ''users'' [''Bob''])"
proof -
  let ?q = "insert_query ''users'' [''Bob'']"
  from assms show tbl: "ctx_tables (sample_context t) ! 0 = t" "ts_schema t = sample_schema"
    by (simp_all add: sample_context_def sample_table_facts_def)
  have off: "value_offset sample_schema ?q = Some 1" and val: "row_valid sample_schema \<lparr>row_fields = [''2'', ''Bob'']\<rparr>"
    and k: "row_id sample_schema \<lparr>row_fields = [''2'', ''Bob'']\<rparr> = 2" "show_int 2 = ''2''" by code_simp+
  show row: "insert_row ?q t = [''2'', ''Bob'']"
    using off k(2) assms by (simp add: insert_row_def tbl sample_table_facts_def) (simp add: insert_query_def)
  show ok: "acceptable ?q t" using row off val k(1) assms by (simp add: acceptable_def insertable_def tbl sample_table_facts_def)
  have "max_id_unused (fst (append_csv_row sample_files (Some ''db'') (Some ''users'') [''2'', ''Bob''])) ''db'' ''users''" by code_simp
  moreover have "ctx_db_root (sample_context t) = ''db''" by (simp add: sample_context_def)
  ultimately show "avoids_max_id al sample_files (sample_context t) ''users'' ?q"
    using sample_context_facts(2)[OF assms] row ok tbl(1) by (simp add: avoids_max_id_def)
qed

theorem execute_query_safe_witness:
  "\<exists>t ctx' fs' out' res. sample_table_facts t \<and> context_ok ctx' \<and>
     execute_query (sample_allocator 20) sample_files (Some (insert_query ''users'' [''Bob''])) (Some (sample_context t)) (Some [])
       = Some (Some ctx', fs', Some out', res)"
proof -
  obtain t where t: "sample_table_facts t" using sample_table_exists by blast
  have "query_ok (insert_query ''users'' [''Bob''])"
    by (auto simp: query_ok_def insert_query_def zeroed_query_def sql_identifier_def is_identifier_char_def isalnum_def
        isdigit_def isupper_def islower_def cstring_def)
  moreover have "table_name (insert_query ''users'' [''Bob'']) = Some ''users''" by (simp add: insert_query_def)
  moreover have "\<not> tree_room (ts_index (ctx_tables (sample_context t) ! 0)) < insertion_cost"
    using t by (simp add: sample_context_def sample_table_facts_def)
  ultimately show ?thesis
    using t execute_query_safe[OF sample_context_facts(1)[OF t] _ _ disjI2[OF sample_row(5)[OF t]], of "sample_allocator 20" "[]"]
      sample_context_facts(2)[OF t] by fastforce
qed

text \<open>
  C7. A SELECT prints the header and exactly the rows a scan of the whole table selects, in the order
  of the table: all of them without a condition, those with an equal value for a column, and for \<open>id\<close>
  those whose primary key reads as the same \<open>int\<close>, although that case goes through the index. A condition
  on an unknown column, or one on \<open>id\<close> that is not an integer, prints nothing.
\<close>

theorem select_equals_scan:
  assumes "ready fs ctx n" "query_ok q" "query_type q = QUERY_SELECT" "table_name q = Some n"
    and "db_context_get_table al fs ctx (Some n) = Some (ctx', Inr i)"
  shows "execute_query al fs (Some q) (Some ctx) (Some out) =
    (case condition_error q (ts_schema (ctx_tables ctx' ! i)) of
       Some e \<Rightarrow> Some (Some ctx', fs, Some out, fail e)
     | None \<Rightarrow> Some (Some ctx', fs, Some (out @ result_text (ctx_tables ctx' ! i) (selected_rows q (ctx_tables ctx' ! i))), Inr ()))"
  using assms(1)
proof (cases rule: ready_get_table[of _ _ _ al])
  case (found ctx1 j)
  then have eq: "ctx1 = ctx'" "j = i" using assms(5) by simp_all
  obtain c v where "has_condition q \<Longrightarrow> condition_column (condition q) = Some c \<and> raw (condition_value (condition q)) = Some v"
    using assms(2,3) by (auto simp: query_ok_def)
  from execute_select_outcome[OF _ found(4,5) this, of al fs ctx out] show ?thesis
    using assms(3-5) by (auto simp: eq execute_query_def split: option.splits)
qed (use assms(5) in simp)

theorem select_equals_scan_witness:
  "\<exists>t. sample_table_facts t \<and>
     execute_query (sample_allocator 20) sample_files (Some (select_query ''users'' (Some (''id'', ''01'')))) (Some (sample_context t)) (Some [])
       = Some (Some (sample_context t), sample_files, Some (''id,name'' @ [NEWLINE] @ ''1,Ann'' @ [NEWLINE]), Inr ()) \<and>
     execute_query (sample_allocator 20) sample_files (Some (select_query ''users'' (Some (''id'', ''2'')))) (Some (sample_context t)) (Some [])
       = Some (Some (sample_context t), sample_files, Some (''id,name'' @ [NEWLINE]), Inr ())"
proof -
  obtain t where t: "sample_table_facts t" using sample_table_exists by blast
  then have tbl: "ctx_tables (sample_context t) ! 0 = t" "ts_schema t = sample_schema" "rows (ts_rowset t) = [\<lparr>row_fields = [''1'', ''Ann'']\<rparr>]"
    by (simp_all add: sample_context_def sample_table_facts_def)
  have q: "query_ok (select_query ''users'' (Some (''id'', v)))" if "v \<noteq> []" "cstring v" for v
    using that by (auto simp: query_ok_def select_query_def zeroed_query_def sql_identifier_def is_identifier_char_def isalnum_def
        isdigit_def isupper_def islower_def cstring_def)
  have err: "condition_error (select_query ''users'' (Some (''id'', ''01''))) sample_schema = None"
    "condition_error (select_query ''users'' (Some (''id'', ''2''))) sample_schema = None" by code_simp+
  have sel: "selected_rows (select_query ''users'' (Some (''id'', ''01''))) t = [\<lparr>row_fields = [''1'', ''Ann'']\<rparr>]"
    "selected_rows (select_query ''users'' (Some (''id'', ''2''))) t = []"
    unfolding selected_rows_def tbl by code_simp+
  have tx: "result_text t [\<lparr>row_fields = [''1'', ''Ann'']\<rparr>] = ''id,name'' @ [NEWLINE] @ ''1,Ann'' @ [NEWLINE]"
    "result_text t [] = ''id,name'' @ [NEWLINE]" unfolding result_text_def tbl by code_simp+
  have n: "query_type (select_query ''users'' (Some (''id'', v))) = QUERY_SELECT" "table_name (select_query ''users'' (Some (''id'', v))) = Some ''users''" for v
    by (simp_all add: select_query_def)
  have "cstring ''01''" "cstring ''2''" by (simp_all add: cstring_def)
  then show ?thesis
    using t select_equals_scan[OF sample_context_facts(1)[OF t] q n sample_context_facts(2)[OF t], of "''01''" "sample_allocator 20" "[]"]
      select_equals_scan[OF sample_context_facts(1)[OF t] q n sample_context_facts(2)[OF t], of "''2''" "sample_allocator 20" "[]"]
    by (auto simp: tbl err sel tx)
qed

text \<open>
  C24. A statement the table does not take leaves no trace: when the number of values does not match, a
  value does not have the type of its column, or the id is in use, an INSERT reports an error and
  changes neither a table in memory nor a file nor the output.
\<close>

theorem refused_insert_changes_nothing:
  assumes "ready fs ctx n" "query_type q = QUERY_INSERT" "table_name q = Some n"
    and "db_context_get_table al fs ctx (Some n) = Some (ctx', Inr i)" "insert_granted al" "\<not> insertable q (ctx_tables ctx' ! i)"
  shows "\<exists>e. execute_query al fs (Some q) (Some ctx) (Some out) = Some (Some ctx', fs, Some out, Inl e) \<and>
    (let t = ctx_tables ctx' ! i; k = row_id (ts_schema t) \<lparr>row_fields = insert_row q t\<rparr> in
     if value_offset (ts_schema t) q = None then Inl e = (fail ''VALUES count does not match schema'' :: unit result)
     else row_valid (ts_schema t) \<lparr>row_fields = insert_row q t\<rparr> \<longrightarrow>
       k \<in> set (table_ids t) \<and> Inl e = (fail (''duplicate id: '' @ show_int k) :: unit result))"
  using assms(1)
proof (cases rule: ready_get_table[of _ _ _ al])
  case (found ctx1 j)
  then have eq: "ctx1 = ctx'" "j = i" using assms(4) by simp_all
  let ?t = "ctx_tables ctx' ! i"
  note run = execute_insert_checked[OF found(1)[folded assms(3)] found(4) refl found(5), unfolded eq, of out]
  obtain e where e: "execute_insert al fs q ctx out = Some (ctx', fs, out, Inl e)" using run(2) assms(6) by blast
  moreover have "e = sql_set_error 0 0 ''VALUES count does not match schema''" if "value_offset (ts_schema ?t) q = None"
    using that e assms(3,4) found(4) by (simp add: execute_insert_def arr_get_def eq)
  moreover have "e = sql_set_error 0 0 (''duplicate id: '' @ show_int (row_id (ts_schema ?t) \<lparr>row_fields = insert_row q ?t\<rparr>))"
    if "value_offset (ts_schema ?t) q \<noteq> None" "row_valid (ts_schema ?t) \<lparr>row_fields = insert_row q ?t\<rparr>"
    using run(3)[OF that assms(5)] e assms(6) that by (simp add: insertable_def)
  ultimately show ?thesis
    using assms(2,6) by (intro exI[of _ e]) (auto simp: execute_query_def Let_def insertable_def)
qed (use assms(4) in simp)

theorem refused_insert_changes_nothing_witness:
  "\<exists>t. sample_table_facts t \<and>
     execute_query (sample_allocator 20) sample_files (Some (insert_query ''users'' [''1'', ''Bob''])) (Some (sample_context t)) (Some [])
       = Some (Some (sample_context t), sample_files, Some [], fail ''duplicate id: 1'')"
proof -
  obtain t where t: "sample_table_facts t" using sample_table_exists by blast
  let ?q = "insert_query ''users'' [''1'', ''Bob'']"
  from t have tbl: "ctx_tables (sample_context t) ! 0 = t" "ts_schema t = sample_schema" "table_ids t = [1]"
    by (simp_all add: sample_context_def sample_table_facts_def)
  have off: "value_offset sample_schema ?q = Some 0" and val: "row_valid sample_schema \<lparr>row_fields = [''1'', ''Bob'']\<rparr>"
    and k: "row_id sample_schema \<lparr>row_fields = [''1'', ''Bob'']\<rparr> = 1" "show_int 1 = ''1''" by code_simp+
  have row: "insert_row ?q t = [''1'', ''Bob'']" using off by (simp add: insert_row_def tbl) (simp add: insert_query_def)
  then have "\<not> insertable ?q t" using k by (simp add: insertable_def tbl)
  moreover have "query_type ?q = QUERY_INSERT" "table_name ?q = Some ''users''" by (simp_all add: insert_query_def)
  ultimately show ?thesis
    using refused_insert_changes_nothing[OF sample_context_facts(1)[OF t] _ _ sample_context_facts(2)[OF t], of ?q "sample_allocator 20" "[]"]
      t off val k row
    by (auto simp: tbl sample_allocator_def Let_def)
qed

definition granted :: "allocator \<Rightarrow> bool" where
  "granted al \<longleftrightarrow> insert_granted al \<and> rows_granted al \<and> row_granted al"

definition writable :: "filesystem \<Rightarrow> string \<Rightarrow> bool" where
  "writable fs path \<longleftrightarrow> can_append fs path \<and> accepts fs path = None \<and> \<not> close_fails fs path"

text \<open>An insertion with enough memory into a file that can be written.\<close>

lemma execute_insert_succeeds:
  assumes "ready fs ctx n" "query_type q = QUERY_INSERT" "table_name q = Some n"
    and "db_context_get_table al fs ctx (Some n) = Some (ctx1, Inr i)" "t = ctx_tables ctx1 ! i"
    and "acceptable q t" "granted al" "insertion_cost \<le> tree_room (ts_index t)"
    and "writable fs (build_table_path (ctx_db_root ctx) n)"
  obtains fs' t' where "execute_query al fs (Some q) (Some ctx) (Some out) =
      Some (Some (ctx1\<lparr>ctx_tables := (ctx_tables ctx1)[i := t']\<rparr>), fs', Some (out @ ''INSERT 1'' @ [NEWLINE]), Inr ())"
    "appended fs (build_table_path (ctx_db_root ctx) n) (csv_row (insert_row q t) @ [NEWLINE]) fs'"
    "table_ok t'" "row_added t (insert_row q t) t'" "i < length (ctx_tables ctx1)" "context_ok ctx1" "ctx_db_root ctx1 = ctx_db_root ctx"
  using assms(1)
proof (cases rule: ready_get_table[of _ _ _ al])
  case (found ctx' j)
  then have eq: "ctx' = ctx1" "j = i" using assms(4) by simp_all
  note g = found[unfolded eq, folded assms(5)]
  let ?p = "build_table_path (ctx_db_root ctx) n"
  have w: "can_append fs ?p" "accepts fs ?p = None" "\<not> close_fails fs ?p" using assms(9) by (simp_all add: writable_def)
  obtain fs' where app: "append_csv_row fs (Some (ctx_db_root ctx)) (Some n) (insert_row q t) = (fs', Inr ())"
    "appended fs ?p (csv_row (insert_row q t) @ [NEWLINE]) fs'"
    using append_csv_row_spec[OF acceptable_nonempty[OF assms(6) g(5)] w(1)] w(2,3) by (auto simp: fits_def)
  from execute_insert_written[OF assms(1,3,4,5,6) _ app(1)[folded g(3)] disjI1[OF assms(8)], of out] assms(7,8) obtain t' where
    "execute_insert al fs q ctx out = Some (ctx1\<lparr>ctx_tables := (ctx_tables ctx1)[i := t']\<rparr>, fs', out @ ''INSERT 1'' @ [NEWLINE], Inr ())"
    "row_added t (insert_row q t) t'" "table_ok t'" by (auto simp: granted_def)
  then show thesis using that app(2) g(2,3,4) assms(2) by (simp add: execute_query_def)
qed (use assms(4) in simp)

lemma ready_after_insert:
  assumes "ready fs ctx n" "appended fs (build_table_path (ctx_db_root ctx) n) w fs'"
    and "i < length (ctx_tables ctx)" "table_ok t'" "row_added (ctx_tables ctx ! i) row t'" "ts_name (ctx_tables ctx ! i) = n"
  shows "ready fs' (ctx\<lparr>ctx_tables := (ctx_tables ctx)[i := t']\<rparr>) n"
proof -
  have same: "load_table_schema fs (ctx_db_root ctx) n = Some (Inr (ts_schema t))" if "t \<in> set (ctx_tables ctx)" "ts_name t = n" for t
    using that assms(1) by (simp add: ready_def)
  have "load_table_schema fs (ctx_db_root ctx) n = Some (Inr (ts_schema t))" if "t \<in> set ((ctx_tables ctx)[i := t'])" "ts_name t = n" for t
    using that set_update_subset_insert[of "ctx_tables ctx" i t'] same[of t] same[OF nth_mem[OF assms(3)] assms(6)] assms(5)
    by (auto simp: row_added_def)
  moreover have "n \<in> ts_name ` set ((ctx_tables ctx)[i := t'])"
    using assms(3,5,6) by (metis imageI row_added_def set_update_memI)
  moreover have "length (ctx_db_root ctx) < 4094" using assms(1) by (simp add: ready_def)
  note keep = appended_keeps_schema[OF assms(2) this]
  ultimately show ?thesis using assms(1) context_ok_update[of ctx t' i] assms(4) by (auto simp: ready_def keep)
qed

lemma insert_then_lookup:
  assumes "ready fs ctx n" "query_type q = QUERY_INSERT" "table_name q = Some n" "length n \<le> 255"
    and "db_context_get_table al fs ctx (Some n) = Some (ctx1, Inr i)" "t = ctx_tables ctx1 ! i"
    and "acceptable q t" "granted al" "insertion_cost \<le> tree_room (ts_index t)" "writable fs (build_table_path (ctx_db_root ctx) n)"
    and "is_integer_string v" "atoi v = row_id (ts_schema t) \<lparr>row_fields = insert_row q t\<rparr>"
  obtains fs' t' ctx' where "ctx' = ctx1\<lparr>ctx_tables := (ctx_tables ctx1)[i := t']\<rparr>"
    "execute_query al fs (Some q) (Some ctx) (Some out) = Some (Some ctx', fs', Some (out @ ''INSERT 1'' @ [NEWLINE]), Inr ())"
    "appended fs (build_table_path (ctx_db_root ctx) n) (csv_row (insert_row q t) @ [NEWLINE]) fs'"
    "table_ok t'" "row_added t (insert_row q t) t'" "i < length (ctx_tables ctx1)" "ready fs' ctx' n"
    "db_context_get_table al fs' ctx' (Some n) = Some (ctx', Inr i)"
    "selected_rows (select_query n (Some (''id'', v))) t' = [\<lparr>row_fields = insert_row q t\<rparr>]"
    "condition_error (select_query n (Some (''id'', v))) (ts_schema t') = None"
proof -
  let ?q = "select_query n (Some (''id'', v))" and ?r = "\<lparr>row_fields = insert_row q t\<rparr>"
  obtain fs' t' where run: "execute_query al fs (Some q) (Some ctx) (Some out) =
      Some (Some (ctx1\<lparr>ctx_tables := (ctx_tables ctx1)[i := t']\<rparr>), fs', Some (out @ ''INSERT 1'' @ [NEWLINE]), Inr ())"
    and app: "appended fs (build_table_path (ctx_db_root ctx) n) (csv_row (insert_row q t) @ [NEWLINE]) fs'"
    and t': "table_ok t'" "row_added t (insert_row q t) t'" and i: "i < length (ctx_tables ctx1)" "ctx_db_root ctx1 = ctx_db_root ctx"
    using execute_insert_succeeds[OF assms(1-3,5-10)] by metis
  let ?ctx = "ctx1\<lparr>ctx_tables := (ctx_tables ctx1)[i := t']\<rparr>"
  have f: "find_table (ctx_tables ctx1) n 0 = Some i" "ready fs ctx1 n"
    using assms(4,5) by (cases rule: ready_get_table[OF assms(1), of al]; auto)+
  have get: "db_context_get_table al fs' ?ctx (Some n) = Some (?ctx, Inr i)"
    using f(1) i(1) t'(2) assms(6) by (simp add: db_context_get_table_def find_table_update row_added_def)
  have ids: "distinct (map (row_id (ts_schema t)) (rows (ts_rowset t) @ [?r]))"
    using t' by (simp add: table_ok_def table_ids_def row_added_def)
  have "filter (\<lambda>r. row_id (ts_schema t) r = atoi v) (rows (ts_rowset t) @ [?r]) = [?r]"
    using filter_unique[OF ids, of "length (rows (ts_rowset t))"] assms(12) by simp
  then have sel: "selected_rows ?q t' = [?r]" "condition_error ?q (ts_schema t') = None"
    using t'(2) assms(11) by (simp_all add: selected_rows_def select_query_def matches_condition_fun row_added_def condition_error_def)
  have "ts_name (ctx_tables ctx1 ! i) = n" using find_table_spec[OF f(1)] by simp
  then have "ready fs' ?ctx n" using ready_after_insert[OF f(2) _ i(1) t'(1)] app t'(2) i(2) assms(6) by simp
  then show thesis using that[OF refl run app t' i(1) _ get sel] by blast
qed

text \<open>
  C25. An INSERT the table takes and whose id is not \<open>INT_MAX\<close>, with enough memory and a file that can be written, acknowledges the
  row, appends its line to the table's file and to no other, adds it at the end of the table in memory,
  keeps the invariant of the table, and leaves the other tables as they were. A SELECT for its id on
  the new context then prints exactly this row.
\<close>

theorem insert_then_select:
  assumes "ready fs ctx n" "query_type q = QUERY_INSERT" "table_name q = Some n" "length n \<le> 255"
    and "db_context_get_table al fs ctx (Some n) = Some (ctx1, Inr i)"
    and "acceptable q (ctx_tables ctx1 ! i)" "granted al" "insertion_cost \<le> tree_room (ts_index (ctx_tables ctx1 ! i))"
    and "writable fs (build_table_path (ctx_db_root ctx) n)"
    and "is_integer_string v" "atoi v = row_id (ts_schema (ctx_tables ctx1 ! i)) \<lparr>row_fields = insert_row q (ctx_tables ctx1 ! i)\<rparr>"
  shows "\<exists>fs' t'. let t = ctx_tables ctx1 ! i; ctx' = ctx1\<lparr>ctx_tables := (ctx_tables ctx1)[i := t']\<rparr> in
    execute_query al fs (Some q) (Some ctx) (Some out) = Some (Some ctx', fs', Some (out @ ''INSERT 1'' @ [NEWLINE]), Inr ()) \<and>
    files fs' = (files fs)(build_table_path (ctx_db_root ctx) n \<mapsto>
      (case files fs (build_table_path (ctx_db_root ctx) n) of None \<Rightarrow> [] | Some s \<Rightarrow> s) @ csv_row (insert_row q t) @ [NEWLINE]) \<and>
    table_ok t' \<and> row_added t (insert_row q t) t' \<and>
    execute_query al fs' (Some (select_query n (Some (''id'', v)))) (Some ctx') (Some []) =
      Some (Some ctx', fs', Some (header_text (ts_schema t) @ row_text \<lparr>row_fields = insert_row q t\<rparr>), Inr ())"
proof -
  let ?t = "ctx_tables ctx1 ! i" and ?q = "select_query n (Some (''id'', v))"
  let ?r = "\<lparr>row_fields = insert_row q ?t\<rparr>"
  obtain fs' t' ctx' where ctx': "ctx' = ctx1\<lparr>ctx_tables := (ctx_tables ctx1)[i := t']\<rparr>"
    and run: "execute_query al fs (Some q) (Some ctx) (Some out) = Some (Some ctx', fs', Some (out @ ''INSERT 1'' @ [NEWLINE]), Inr ())"
    and app: "appended fs (build_table_path (ctx_db_root ctx) n) (csv_row (insert_row q ?t) @ [NEWLINE]) fs'"
    and t': "table_ok t'" "row_added ?t (insert_row q ?t) t'" and i: "i < length (ctx_tables ctx1)"
    and get: "db_context_get_table al fs' ctx' (Some n) = Some (ctx', Inr i)"
    and sel: "selected_rows ?q t' = [?r]" "condition_error ?q (ts_schema t') = None"
    using insert_then_lookup[OF assms(1-5) refl assms(6-11)] by metis
  have "execute_select al fs' ?q ctx' [] = Some (ctx', header_text (ts_schema ?t) @ row_text ?r, Inr ())"
    using execute_select_outcome[of al fs' ctx' ?q ctx' i "''id''" v "[]"] get i t' sel ctx'
    by (simp add: result_text_def row_added_def select_query_def)
  then have "execute_query al fs' (Some ?q) (Some ctx') (Some []) =
      Some (Some ctx', fs', Some (header_text (ts_schema ?t) @ row_text ?r), Inr ())"
    by (simp add: execute_query_def) (simp add: select_query_def)
  then show ?thesis using run app t' ctx' by (intro exI[of _ fs'] exI[of _ t']) (simp add: Let_def appended_def)
qed

lemma sample_insert:
  assumes "sample_table_facts t"
  shows "insert_row (insert_query ''users'' [''Bob'']) t = [''2'', ''Bob'']" "acceptable (insert_query ''users'' [''Bob'']) t"
    "granted (sample_allocator 20)" "insertion_cost \<le> tree_room (ts_index t)"
    "query_type (insert_query ''users'' [''Bob'']) = QUERY_INSERT" "table_name (insert_query ''users'' [''Bob'']) = Some ''users''"
    "writable sample_files (build_table_path (ctx_db_root (sample_context t)) ''users'')"
    "ctx_tables (sample_context t) ! 0 = t" "ts_schema t = sample_schema"
  using assms sample_row[OF assms]
  by (simp_all add: sample_table_facts_def) (simp_all add: granted_def sample_allocator_def insert_query_def writable_def sample_db_def sample_fs_def)

theorem insert_then_select_witness:
  "\<exists>t fs' ctx'. sample_table_facts t \<and>
     execute_query (sample_allocator 20) sample_files (Some (insert_query ''users'' [''Bob''])) (Some (sample_context t)) (Some [])
       = Some (Some ctx', fs', Some (''INSERT 1'' @ [NEWLINE]), Inr ()) \<and>
     execute_query (sample_allocator 20) fs' (Some (select_query ''users'' (Some (''id'', ''2'')))) (Some ctx') (Some [])
       = Some (Some ctx', fs', Some (''id,name'' @ [NEWLINE] @ ''2,Bob'' @ [NEWLINE]), Inr ())"
proof -
  obtain t where t: "sample_table_facts t" using sample_table_exists by blast
  note f = sample_insert[OF t]
  have v: "is_integer_string ''2''" "atoi ''2'' = row_id sample_schema \<lparr>row_fields = [''2'', ''Bob'']\<rparr>"
    and tx: "header_text sample_schema @ row_text \<lparr>row_fields = [''2'', ''Bob'']\<rparr> = ''id,name'' @ [NEWLINE] @ ''2,Bob'' @ [NEWLINE]"
    by code_simp+
  show ?thesis
    using insert_then_select[OF sample_context_facts(1)[OF t] f(5,6) _ sample_context_facts(2)[OF t], of "sample_allocator 20" "''2''" "[]"] t f v tx
    by (auto simp: Let_def)
qed

text \<open>
  C4. The table in memory and its file stay in step: when the two agree before an acknowledged INSERT
  whose id is not \<open>INT_MAX\<close> and whose values hold no newline and no surrounding white space, they agree afterwards, and a table
  loaded from the files then, as after a restart, is well formed and has exactly the rows of the table
  in memory.
\<close>

theorem insert_survives_restart:
  assumes "ready fs ctx n" "query_type q = QUERY_INSERT" "table_name q = Some n"
    and "db_context_get_table al fs ctx (Some n) = Some (ctx1, Inr i)" "t = ctx_tables ctx1 ! i"
    and "acceptable q t" "granted al" "insertion_cost \<le> tree_room (ts_index t)"
    and "files fs (build_table_path (ctx_db_root ctx) n) = Some bytes" "writable fs (build_table_path (ctx_db_root ctx) n)"
    and "complete_lines bytes" "synced fs (ctx_db_root ctx) n t" "storable (insert_row q t)" "map trim (insert_row q t) = insert_row q t"
    and "tree_granted al'" "Suc (length (rows (ts_rowset t))) * insertion_cost \<le> node_limit al'"
  shows "\<exists>fs' t' t''. execute_query al fs (Some q) (Some ctx) (Some out) =
      Some (Some (ctx1\<lparr>ctx_tables := (ctx_tables ctx1)[i := t']\<rparr>), fs', Some (out @ ''INSERT 1'' @ [NEWLINE]), Inr ()) \<and>
    synced fs' (ctx_db_root ctx) n t' \<and>
    table_state_load al' fs' (ctx_db_root ctx) n = Some (Inr t'') \<and> table_ok t'' \<and> ts_schema t'' = ts_schema t \<and>
    rows (ts_rowset t'') = rows (ts_rowset t') \<and> rows (ts_rowset t') = rows (ts_rowset t) @ [\<lparr>row_fields = insert_row q t\<rparr>]"
proof -
  let ?p = "build_table_path (ctx_db_root ctx) n" and ?row = "insert_row q t"
  obtain fs' t' where run: "execute_query al fs (Some q) (Some ctx) (Some out) =
      Some (Some (ctx1\<lparr>ctx_tables := (ctx_tables ctx1)[i := t']\<rparr>), fs', Some (out @ ''INSERT 1'' @ [NEWLINE]), Inr ())"
    and app: "appended fs ?p (csv_row ?row @ [NEWLINE]) fs'" and t': "table_ok t'" "row_added t ?row t'"
    using execute_insert_succeeds[OF assms(1-8,10)] by metis
  obtain rs where rs: "read_csv_rows fs (ctx_db_root ctx) n (column_count (ts_schema t)) = Inr rs" "rows rs = rows (ts_rowset t)"
    and schema: "load_table_schema fs (ctx_db_root ctx) n = Some (Inr (ts_schema t))" using assms(12) by (auto simp: synced_def)
  have width: "int (length ?row) = column_count (ts_schema t)" using insert_row_length[of t q] assms(6) by (auto simp: acceptable_def insertable_def)
  have "read_csv_loop bytes (column_count (ts_schema t)) (zeroed_rowset\<lparr>rowset_column_count := column_count (ts_schema t)\<rparr>) = Inr rs"
    using rs(1) assms(9) by (simp add: read_csv_rows_def)
  from read_csv_append[OF this assms(11,13) width]
  have read: "read_csv_rows fs' (ctx_db_root ctx) n (column_count (ts_schema t)) = Inr (rowset_append rs ?row)"
    using app assms(9,14) by (simp add: read_csv_rows_def appended_def)
  have load: "load_table_schema fs' (ctx_db_root ctx) n = Some (Inr (ts_schema t))"
    using appended_keeps_schema(1)[OF app] schema assms(1) by (simp add: ready_def)
  have rows': "rows (rowset_append rs ?row) = rows (ts_rowset t')" and s': "ts_schema t' = ts_schema t"
    using rs(2) t'(2) by (simp_all add: rowset_append_def row_added_def)
  have ok: "\<forall>r\<in>set (rows (rowset_append rs ?row)). row_valid (ts_schema t) r" "0 \<le> primary_key_index (ts_schema t)"
    "primary_key_index (ts_schema t) < column_count (ts_schema t)" "distinct (map (row_id (ts_schema t)) (rows (rowset_append rs ?row)))"
    using t'(1) unfolding rows' table_ok_def table_ids_def s' by blast+
  have max: "INT_MAX \<notin> set (map (row_id (ts_schema t)) (rows (rowset_append rs ?row)))"
    using table_ok_max_id[OF t'(1)] unfolding rows' table_ids_def s' .
  have "length (rows (rowset_append rs ?row)) * insertion_cost \<le> node_limit al'"
    using assms(16) rs(2) by (simp add: rowset_append_def)
  from table_state_load_ok[OF load read ok(1-3) assms(15) this ok(4) max] obtain tree where
    "table_state_load al' fs' (ctx_db_root ctx) n = Some (Inr (loaded_table n (ts_schema t) (rowset_append rs ?row) tree))"
    "table_ok (loaded_table n (ts_schema t) (rowset_append rs ?row) tree)" by blast
  moreover have "synced fs' (ctx_db_root ctx) n t'" using load read rows' s' by (simp add: synced_def)
  ultimately show ?thesis using run t'(2) rows'
    by (intro exI[of _ fs'] exI[of _ t'] exI[of _ "loaded_table n (ts_schema t) (rowset_append rs ?row) tree"])
      (simp add: loaded_table_def row_added_def)
qed

theorem insert_survives_restart_witness:
  "\<exists>t t' fs' ctx' t''. sample_table_facts t \<and>
     execute_query (sample_allocator 20) sample_files (Some (insert_query ''users'' [''Bob''])) (Some (sample_context t)) (Some [])
       = Some (Some ctx', fs', Some (''INSERT 1'' @ [NEWLINE]), Inr ()) \<and>
     table_state_load (sample_allocator 20) fs' ''db'' ''users'' = Some (Inr t'') \<and> table_ok t'' \<and>
     rows (ts_rowset t'') = [\<lparr>row_fields = [''1'', ''Ann'']\<rparr>, \<lparr>row_fields = [''2'', ''Bob'']\<rparr>]"
proof -
  let ?rs = "rowset_append (zeroed_rowset\<lparr>rowset_column_count := 2\<rparr>) [''1'', ''Ann'']"
  obtain t where t: "sample_table_facts t" using sample_table_exists by blast
  note f = sample_insert[OF t]
  have "read_csv_loop (''1,Ann'' @ [NEWLINE]) 2 (zeroed_rowset\<lparr>rowset_column_count := 2\<rparr>) = Inr ?rs"
    "rows ?rs = [\<lparr>row_fields = [''1'', ''Ann'']\<rparr>]" "column_count sample_schema = 2" by code_simp+
  then have "synced sample_files ''db'' ''users'' t"
    using t sample_db_facts(2,3) by (simp add: synced_def sample_table_facts_def read_csv_rows_def)
  moreover have "complete_lines (''1,Ann'' @ [NEWLINE])" "storable [''2'', ''Bob'']" "map trim [''2'', ''Bob''] = [''2'', ''Bob'']"
    by code_simp+
  moreover have "rows (ts_rowset t) = [\<lparr>row_fields = [''1'', ''Ann'']\<rparr>]" using t by (simp add: sample_table_facts_def)
  moreover have "ctx_db_root (sample_context t) = ''db''" by (simp add: sample_context_def)
  ultimately show ?thesis
    using insert_survives_restart[OF sample_context_facts(1)[OF t] f(5,6) sample_context_facts(2)[OF t] f(8)[symmetric] f(2-4) _ f(7),
        of "''1,Ann'' @ [NEWLINE]" "sample_allocator 20" "[]"] t f sample_db_facts(3)
    by (auto simp: insertion_cost_def sample_allocator_def)
qed

lemma assigned_row:
  assumes "table_ok t" "autoincrement (ts_schema t)" "primary_key_index (ts_schema t) = 0"
    and "list_all2 value_valid (tl (columns (ts_schema t))) (query_values q)" "ts_next_id t < INT_MAX"
  shows "insert_row q t = show_int (ts_next_id t) # query_values q" "acceptable q t"
    and "row_id (ts_schema t) \<lparr>row_fields = insert_row q t\<rparr> = ts_next_id t" "ts_next_id t \<notin> set (table_ids t)"
proof -
  obtain c cs where cols: "columns (ts_schema t) = c # cs"
    using assms(1,3) by (cases "columns (ts_schema t)") (auto simp: table_ok_def)
  have offset: "value_offset (ts_schema t) q = Some 1"
    using assms(2,3) list_all2_lengthD[OF assms(4)] by (simp add: value_offset_def cols)
  then show row: "insert_row q t = show_int (ts_next_id t) # query_values q" by (simp add: insert_row_def)
  have "int32 (ts_next_id t)" using assms(1) by (simp add: table_ok_def)
  then show key: "row_id (ts_schema t) \<lparr>row_fields = insert_row q t\<rparr> = ts_next_id t" by (simp add: row_id_def assms(3) row)
  show new: "ts_next_id t \<notin> set (table_ids t)" using assms(1) by (auto simp: table_ok_def)
  have "value_valid c (show_int (ts_next_id t))" by (rule show_int_valid)
  then have "row_valid (ts_schema t) \<lparr>row_fields = insert_row q t\<rparr>" using assms(4) by (simp add: row_valid_def row cols)
  then show "acceptable q t" using key new offset assms(5) by (simp add: acceptable_def insertable_def)
qed

text \<open>
  C26. An id the table assigns is always new: on a table with an autoincrement key in the first column whose
  next id is below \<open>INT_MAX\<close>, an INSERT of values of the right types for the other columns is never
  refused as a duplicate. With enough memory and a file that can be written it is acknowledged; the row
  is added with the next id, which no row of the table had, and the next id goes up by one.
\<close>

theorem autoincrement_never_collides:
  assumes "ready fs ctx n" "query_type q = QUERY_INSERT" "table_name q = Some n"
    and "db_context_get_table al fs ctx (Some n) = Some (ctx1, Inr i)" "t = ctx_tables ctx1 ! i"
    and "autoincrement (ts_schema t)" "primary_key_index (ts_schema t) = 0"
    and "list_all2 value_valid (tl (columns (ts_schema t))) (query_values q)" "ts_next_id t < INT_MAX"
    and "granted al" "insertion_cost \<le> tree_room (ts_index t)" "writable fs (build_table_path (ctx_db_root ctx) n)"
  shows "\<exists>fs' t'. execute_query al fs (Some q) (Some ctx) (Some out) =
      Some (Some (ctx1\<lparr>ctx_tables := (ctx_tables ctx1)[i := t']\<rparr>), fs', Some (out @ ''INSERT 1'' @ [NEWLINE]), Inr ()) \<and>
    rows (ts_rowset t') = rows (ts_rowset t) @ [\<lparr>row_fields = show_int (ts_next_id t) # query_values q\<rparr>] \<and>
    ts_next_id t \<notin> set (table_ids t) \<and> table_ids t' = table_ids t @ [ts_next_id t] \<and> ts_next_id t' = ts_next_id t + 1 \<and> table_ok t'"
proof -
  have ok: "table_ok t" using assms(1,4,5) by (cases rule: ready_get_table[of _ _ _ al]) auto
  note a = assigned_row[OF ok assms(6-9)]
  obtain fs' t' where "execute_query al fs (Some q) (Some ctx) (Some out) =
      Some (Some (ctx1\<lparr>ctx_tables := (ctx_tables ctx1)[i := t']\<rparr>), fs', Some (out @ ''INSERT 1'' @ [NEWLINE]), Inr ())"
    and t': "table_ok t'" "row_added t (insert_row q t) t'"
    using execute_insert_succeeds[OF assms(1-5) a(2) assms(10-12)] by metis
  then show ?thesis
    using a by (intro exI[of _ fs'] exI[of _ t']) (auto simp: row_added_def table_ids_def Let_def)
qed

theorem autoincrement_never_collides_witness:
  "\<exists>t t' fs'. sample_table_facts t \<and> table_ids t' = [1, 2] \<and> ts_next_id t' = 3 \<and>
     execute_query (sample_allocator 20) sample_files (Some (insert_query ''users'' [''Bob''])) (Some (sample_context t)) (Some [])
       = Some (Some (sample_context t'), fs', Some (''INSERT 1'' @ [NEWLINE]), Inr ())"
proof -
  obtain t where t: "sample_table_facts t" using sample_table_exists by blast
  note f = sample_insert[OF t]
  have s: "autoincrement sample_schema" "primary_key_index sample_schema = 0"
    "list_all2 value_valid (tl (columns sample_schema)) (query_values (insert_query ''users'' [''Bob'']))" by code_simp+
  have "\<exists>fs' t'. execute_query (sample_allocator 20) sample_files (Some (insert_query ''users'' [''Bob''])) (Some (sample_context t)) (Some [])
      = Some (Some ((sample_context t)\<lparr>ctx_tables := (ctx_tables (sample_context t))[0 := t']\<rparr>), fs', Some ([] @ ''INSERT 1'' @ [NEWLINE]), Inr ()) \<and>
    table_ids t' = [1, 2] \<and> ts_next_id t' = 3"
    using autoincrement_never_collides[OF sample_context_facts(1)[OF t] f(5,6) sample_context_facts(2)[OF t] f(8)[symmetric],
        of "sample_allocator 20" "[]"] s f t
    by (auto simp: sample_table_facts_def)
  then show ?thesis using t by (auto simp: sample_context_def)
qed

section \<open>Three deviations\<close>

text \<open>
  A condition on a column named \<open>id\<close> is answered from the index of the primary key, also when the
  primary key is another column: the row whose \<open>id\<close> is 7 is not found by \<open>WHERE id = 7\<close>, and it is found
  by \<open>WHERE id = 1\<close>, the value of its key.
\<close>

definition other_key_db :: filesystem where
  "other_key_db = sample_fs []\<lparr>files := [''db/schema/t.schema'' \<mapsto> ''columns=id:int,uid:int'' @ [NEWLINE] @ ''pkey=uid'',
     ''db/tables/t.csv'' \<mapsto> ''7,1'' @ [NEWLINE]]\<rparr>"

theorem where_id_searches_primary_key:
  "(case execute_query (sample_allocator 20) other_key_db (Some (select_query ''t'' (Some (''id'', ''7''))))
      (Some \<lparr>ctx_db_root = ''db'', ctx_tables = []\<rparr>) (Some []) of
      Some (_, _, Some out, Inr _) \<Rightarrow> out = ''id,uid'' @ [NEWLINE] | _ \<Rightarrow> False) \<and>
   (case execute_query (sample_allocator 20) other_key_db (Some (select_query ''t'' (Some (''id'', ''1''))))
      (Some \<lparr>ctx_db_root = ''db'', ctx_tables = []\<rparr>) (Some []) of
      Some (_, _, Some out, Inr _) \<Rightarrow> out = ''id,uid'' @ [NEWLINE] @ ''7,1'' @ [NEWLINE] | _ \<Rightarrow> False)"
  by code_simp

text \<open>
  The row is on file before it is in memory: when the memory for the row is refused, the statement
  reports an error although a restart will find the row, and the same statement is then accepted a
  second time with the same id.
\<close>

theorem failed_insert_is_on_file:
  "(case execute_query (sample_allocator 20\<lparr>row_granted := False\<rparr>) (sample_db []) (Some (insert_query ''users'' [''Bob'']))
      (Some \<lparr>ctx_db_root = ''db'', ctx_tables = []\<rparr>) (Some []) of
      Some (Some ctx, fs, _, Inl e) \<Rightarrow>
        files fs ''db/tables/users.csv'' = Some (csv_row [''1'', ''Bob''] @ [NEWLINE]) \<and>
        (case execute_query (sample_allocator 20) fs (Some (insert_query ''users'' [''Bob''])) (Some ctx) (Some []) of
           Some (_, fs', _, Inr _) \<Rightarrow>
             files fs' ''db/tables/users.csv'' = Some (csv_row [''1'', ''Bob''] @ [NEWLINE] @ csv_row [''1'', ''Bob''] @ [NEWLINE]) \<and>
             (case table_state_load (sample_allocator 20) fs' ''db'' ''users'' of
                Some (Inl e') \<Rightarrow> message e' = ''duplicate id: 1'' | _ \<Rightarrow> False)
         | _ \<Rightarrow> False)
    | _ \<Rightarrow> False)"
  by code_simp

text \<open>
  The largest \<open>int\<close> is taken as an id, written to the file and put into the index; then the next id
  overflows.
\<close>

theorem largest_id_overflows:
  "execute_query (sample_allocator 20) (sample_db []) (Some (insert_query ''users'' [''2147483647'', ''Bob'']))
     (Some \<lparr>ctx_db_root = ''db'', ctx_tables = []\<rparr>) (Some []) = None"
  by code_simp

end
