(* ===== verification/Json_Buffer.thy ===== *)
theory Json_Buffer
  imports Common
begin

text \<open>
  The growing text buffer of \<^verbatim>\<open>src/server/request/sql_service.c\<close>, in which the JSON answers are put
  together.

  \<open>size_t\<close> values are natural numbers below \<open>2 ^ 64\<close>, with the wrap-around written out. The memory of
  the buffer is the list of its bytes, as long as the capacity, and a write outside it is the value
  \<open>None\<close>. What \<open>realloc\<close> promises of the heap is the hypothesis \<open>heap_ok\<close>.
\<close>

section \<open>Sizes and blocks\<close>

definition size_add :: "nat \<Rightarrow> nat \<Rightarrow> nat" where
  "size_add a b = (a + b) mod 2 ^ 64"

definition size_sub :: "nat \<Rightarrow> nat \<Rightarrow> nat" where
  "size_sub a b = (a + (2 ^ 64 - b)) mod 2 ^ 64"

definition size_mul :: "nat \<Rightarrow> nat \<Rightarrow> nat" where
  "size_mul a b = (a * b) mod 2 ^ 64"

definition heap_ok :: "heap \<Rightarrow> bool" where
  "heap_ok heap \<longleftrightarrow> (\<forall>n block. heap n = Some block \<longrightarrow> length block = n)"

definition c_realloc :: "heap \<Rightarrow> string option \<Rightarrow> nat \<Rightarrow> string option" where
  "c_realloc heap old n =
     (case heap n of
        None \<Rightarrow> None
      | Some block \<Rightarrow> (let d = (case old of None \<Rightarrow> [] | Some d \<Rightarrow> d) in Some (take n d @ drop (length d) block)))"

definition c_memcpy :: "string \<Rightarrow> nat \<Rightarrow> string \<Rightarrow> string option" where
  "c_memcpy mem off bytes =
     (if off + length bytes \<le> length mem then Some (take off mem @ bytes @ drop (off + length bytes) mem) else None)"

section \<open>The buffer\<close>

record JsonBuffer =
  json_data :: "string option"
  json_length :: nat
  json_capacity :: nat

definition empty_buffer :: JsonBuffer where
  "empty_buffer = \<lparr>json_data = None, json_length = 0, json_capacity = 0\<rparr>"

text \<open>The loop that doubles the capacity.\<close>

partial_function (option) grow_capacity :: "nat \<Rightarrow> nat \<Rightarrow> nat option" where
  "grow_capacity next_capacity needed =
     (if next_capacity < needed
      then if next_capacity > SIZE_MAX div 2 then Some needed else grow_capacity (size_mul next_capacity 2) needed
      else Some next_capacity)"

definition json_buffer_reserve :: "heap \<Rightarrow> JsonBuffer \<Rightarrow> nat \<Rightarrow> (JsonBuffer \<times> unit result) option" where
  "json_buffer_reserve heap buffer additional =
     (if additional > size_sub (size_sub SIZE_MAX (json_length buffer)) 1
      then Some (buffer, fail ''JSON payload is too large'')
      else let needed = size_add (size_add (json_length buffer) additional) 1 in
        if needed \<le> json_capacity buffer then Some (buffer, Inr ())
        else do {
          next_capacity \<leftarrow> grow_capacity (if json_capacity buffer = 0 then 128 else json_capacity buffer) needed;
          (case c_realloc heap (json_data buffer) next_capacity of
             None \<Rightarrow> Some (buffer, fail ''failed to expand JSON payload buffer'')
           | Some next_data \<Rightarrow> Some (buffer\<lparr>json_data := Some next_data, json_capacity := next_capacity\<rparr>, Inr ())) })"

definition json_buffer_append_raw :: "heap \<Rightarrow> string option \<Rightarrow> JsonBuffer \<Rightarrow> (JsonBuffer \<times> unit result) option" where
  "json_buffer_append_raw heap text buffer =
     (case text of
        None \<Rightarrow> Some (buffer, Inr ())
      | Some t \<Rightarrow> do {
          (buffer, res) \<leftarrow> json_buffer_reserve heap buffer (length t);
          (case res of
             Inl e \<Rightarrow> Some (buffer, Inl e)
           | Inr _ \<Rightarrow> do {
               mem \<leftarrow> json_data buffer;
               mem \<leftarrow> c_memcpy mem (json_length buffer) t;
               mem \<leftarrow> arr_set mem (size_add (json_length buffer) (length t)) NUL;
               Some (buffer\<lparr>json_data := Some mem, json_length := size_add (json_length buffer) (length t)\<rparr>, Inr ()) }) })"

definition json_buffer_append_quoted :: "heap \<Rightarrow> string option \<Rightarrow> JsonBuffer \<Rightarrow> (JsonBuffer \<times> unit result) option" where
  "json_buffer_append_quoted heap text buffer =
     (case sql_json_quote heap text of
        Inl e \<Rightarrow> Some (buffer, Inl e)
      | Inr quoted \<Rightarrow> json_buffer_append_raw heap (Some quoted) buffer)"

definition json_buffer_finalize :: "JsonBuffer \<Rightarrow> JsonBuffer \<times> string" where
  "json_buffer_finalize buffer =
     (empty_buffer, case json_data buffer of None \<Rightarrow> [] | Some mem \<Rightarrow> cstr mem)"

text \<open>The operator \<^verbatim>\<open>&&\<close> between two appends: the second is called when the first succeeds.\<close>

definition json_and ::
  "(JsonBuffer \<Rightarrow> (JsonBuffer \<times> unit result) option) \<Rightarrow> (JsonBuffer \<Rightarrow> (JsonBuffer \<times> unit result) option) \<Rightarrow>
     JsonBuffer \<Rightarrow> (JsonBuffer \<times> unit result) option" where
  "json_and f g buffer =
     (case f buffer of
        None \<Rightarrow> None
      | Some (buffer, Inl e) \<Rightarrow> Some (buffer, Inl e)
      | Some (buffer, Inr _) \<Rightarrow> g buffer)"

section \<open>Growing\<close>

text \<open>The loop ends for every positive capacity.\<close>

lemma grow_capacity_returns:
  assumes "0 < c" "c \<le> SIZE_MAX" "needed \<le> SIZE_MAX"
  shows "\<exists>c'. grow_capacity c needed = Some c' \<and> c \<le> c' \<and> needed \<le> c' \<and> c' \<le> SIZE_MAX \<and> (c' = c \<or> c' = needed \<or> c' < 2 * needed)"
  using assms
proof (induction "needed - c" arbitrary: c rule: less_induct)
  case less
  show ?case
  proof (cases "c < needed \<and> c \<le> SIZE_MAX div 2")
    case True
    have dbl: "size_mul c 2 = 2 * c" "2 * c \<le> SIZE_MAX" using True by (simp_all add: size_mul_def)
    have lt: "needed - 2 * c < needed - c" using True less(2) by linarith
    obtain c' where c': "grow_capacity (2 * c) needed = Some c'" "2 * c \<le> c'" "needed \<le> c'" "c' \<le> SIZE_MAX"
        "c' = 2 * c \<or> c' = needed \<or> c' < 2 * needed"
      using less(1)[of "2 * c"] less(2,4) True dbl(2) lt by auto
    then show ?thesis using True dbl(1) grow_capacity.simps[of c needed] by auto
  next
    case False
    then show ?thesis using less(3,4) grow_capacity.simps[of c needed] by auto
  qed
qed

section \<open>What the buffer holds\<close>

definition buffer_rep :: "JsonBuffer \<Rightarrow> string \<Rightarrow> bool" where
  "buffer_rep b s \<longleftrightarrow>
     json_length b = length s \<and> json_capacity b \<le> SIZE_MAX \<and>
     (case json_data b of
        None \<Rightarrow> s = [] \<and> json_capacity b = 0
      | Some mem \<Rightarrow> length mem = json_capacity b \<and> length s < json_capacity b \<and> take (length s) mem = s \<and> mem ! length s = NUL)"

lemma buffer_rep_empty [simp]: "buffer_rep empty_buffer []"
  by (simp add: buffer_rep_def empty_buffer_def)

lemma cstr_stops: "cstr (s @ NUL # r) = cstr s"
  by (induction s) (auto simp: cstr_def)

lemma finalize_rep: "buffer_rep b s \<Longrightarrow> json_buffer_finalize b = (empty_buffer, cstr s)"
proof -
  assume rep: "buffer_rep b s"
  show ?thesis
  proof (cases "json_data b")
    case None
    then show ?thesis using rep by (simp add: buffer_rep_def json_buffer_finalize_def cstr_def)
  next
    case (Some mem)
    then have mem: "length s < length mem" "take (length s) mem = s" "mem ! length s = NUL" using rep by (auto simp: buffer_rep_def)
    then have "mem = s @ NUL # drop (Suc (length s)) mem" using id_take_nth_drop[OF mem(1)] by simp
    then have "cstr mem = cstr s" using cstr_stops[of s "drop (Suc (length s)) mem"] by simp
    then show ?thesis using Some by (simp add: json_buffer_finalize_def)
  qed
qed

lemma reserve_outcome:
  assumes "buffer_rep b s" "heap_ok heap"
  obtains (failed) b' e where "json_buffer_reserve heap b n = Some (b', Inl e)"
      "SIZE_MAX \<le> length s + n \<or> (\<exists>k. k \<le> SIZE_MAX \<and> heap k = None)"
  | (reserved) b' mem where "json_buffer_reserve heap b n = Some (b', Inr ())" "json_data b' = Some mem" "length mem = json_capacity b'"
      "json_length b' = length s" "length s + n < json_capacity b'" "json_capacity b' \<le> SIZE_MAX" "take (length s) mem = s"
proof -
  have len: "json_length b = length s" "json_capacity b \<le> SIZE_MAX" "length s \<le> json_capacity b" "length s < 2 ^ 64"
    using assms(1) by (auto simp: buffer_rep_def split: option.splits)
  have room: "size_sub (size_sub SIZE_MAX (length s)) 1 = SIZE_MAX - length s - 1" if "length s < SIZE_MAX"
    using that len(4) by (simp add: size_sub_def mod_if) linarith
  have small: "length s < SIZE_MAX" using assms(1) by (auto simp: buffer_rep_def split: option.splits)
  show thesis
  proof (cases "n > SIZE_MAX - length s - 1")
    case True
    then show thesis using small room len(1) by (intro failed[of b]) (auto simp: json_buffer_reserve_def)
  next
    case False
    then have need: "size_add (size_add (length s) n) 1 = length s + n + 1" "length s + n + 1 \<le> SIZE_MAX"
      using small by (auto simp: size_add_def)
    have guard: "\<not> n > size_sub (size_sub SIZE_MAX (json_length b)) 1" using False room[OF small] len(1) by simp
    show thesis
    proof (cases "length s + n + 1 \<le> json_capacity b")
      case True
      then obtain mem where "json_data b = Some mem" "length mem = json_capacity b" "take (length s) mem = s"
        using assms(1) by (auto simp: buffer_rep_def split: option.splits)
      then show thesis using True guard need len by (intro reserved[of b mem]) (auto simp: json_buffer_reserve_def)
    next
      case grow: False
      let ?c = "if json_capacity b = 0 then 128 else json_capacity b"
      have "0 < ?c" "?c \<le> SIZE_MAX" using len(2) by auto
      then obtain c' where c': "grow_capacity ?c (length s + n + 1) = Some c'" "?c \<le> c'" "length s + n + 1 \<le> c'" "c' \<le> SIZE_MAX"
        using grow_capacity_returns[OF _ _ need(2)] by blast
      let ?d = "case json_data b of None \<Rightarrow> [] | Some d \<Rightarrow> d"
      have d: "take (length s) ?d = s" "length ?d = json_capacity b" "length ?d \<le> c'"
        using assms(1) c'(2) by (auto simp: buffer_rep_def split: option.splits if_splits)
      show thesis
      proof (cases "heap c'")
        case None
        then show thesis using guard need grow len(1) c' by (intro failed[of b]) (auto simp: json_buffer_reserve_def c_realloc_def)
      next
        case (Some block)
        then have blk: "length block = c'" using assms(2) by (simp add: heap_ok_def)
        define mem where "mem = take c' ?d @ drop (length ?d) block"
        have "json_buffer_reserve heap b n = Some (b\<lparr>json_data := Some mem, json_capacity := c'\<rparr>, Inr ())"
          using guard need(1) grow len(1) c'(1) Some by (simp add: json_buffer_reserve_def c_realloc_def mem_def Let_def)
        moreover have "length mem = c'" "take (length s) mem = s" using d blk len(3) by (simp_all add: mem_def)
        ultimately show thesis using c'(3,4) len(1) by (intro reserved[of "b\<lparr>json_data := Some mem, json_capacity := c'\<rparr>" mem]) simp_all
      qed
    qed
  qed
qed

section \<open>Appending\<close>

text \<open>
  \<open>appends heap f t\<close>: \<open>f\<close> adds the text \<open>t\<close> to whatever the buffer holds, without leaving the buffer, or
  fails; with a heap that never refuses it fails only when the whole text is of the order of \<open>SIZE_MAX\<close>.
\<close>

definition heap_total :: "heap \<Rightarrow> bool" where
  "heap_total heap \<longleftrightarrow> (\<forall>n \<le> SIZE_MAX. heap n \<noteq> None)"

definition text_fits :: "nat \<Rightarrow> bool" where
  "text_fits n \<longleftrightarrow> 6 * n + 8 \<le> SIZE_MAX"

definition appends :: "heap \<Rightarrow> (JsonBuffer \<Rightarrow> (JsonBuffer \<times> unit result) option) \<Rightarrow> string \<Rightarrow> bool" where
  "appends heap f t \<longleftrightarrow>
     (\<forall>b s. buffer_rep b s \<longrightarrow>
        (case f b of
           None \<Rightarrow> False
         | Some (b', Inr _) \<Rightarrow> buffer_rep b' (s @ t)
         | Some (b', Inl e) \<Rightarrow> \<not> heap_total heap \<or> \<not> text_fits (length s + length t)))"

lemma text_fits_mono: "text_fits n \<Longrightarrow> m \<le> n \<Longrightarrow> text_fits m"
  by (simp add: text_fits_def)

lemma appends_raw: "heap_ok heap \<Longrightarrow> appends heap (json_buffer_append_raw heap (Some t)) t"
  unfolding appends_def
proof (intro allI impI)
  fix b s assume hp: "heap_ok heap" and rep: "buffer_rep b s"
  show "case json_buffer_append_raw heap (Some t) b of None \<Rightarrow> False | Some (b', Inr _) \<Rightarrow> buffer_rep b' (s @ t)
      | Some (b', Inl e) \<Rightarrow> \<not> heap_total heap \<or> \<not> text_fits (length s + length t)"
    using rep hp
  proof (cases rule: reserve_outcome[where n = "length t"])
    case (failed b' e)
    then show ?thesis by (auto simp: json_buffer_append_raw_def heap_total_def text_fits_def)
  next
    case (reserved b' mem)
    have sum: "size_add (length s) (length t) = length s + length t" using reserved(5,6) by (simp add: size_add_def)
    let ?mem = "(take (length s) mem @ t @ drop (length s + length t) mem)[length s + length t := NUL]"
    have "json_buffer_append_raw heap (Some t) b = Some (b'\<lparr>json_data := Some ?mem, json_length := length s + length t\<rparr>, Inr ())"
      using reserved sum by (simp add: json_buffer_append_raw_def c_memcpy_def)
    moreover have "buffer_rep (b'\<lparr>json_data := Some ?mem, json_length := length s + length t\<rparr>) (s @ t)"
      using reserved by (simp add: buffer_rep_def)
    ultimately show ?thesis by simp
  qed
qed

lemma appends_quoted:
  assumes "heap_ok heap"
  shows "appends heap (json_buffer_append_quoted heap (Some t)) (DQUOTE # json_escape_all t @ [DQUOTE])"
proof (cases "length t > (SIZE_MAX - 3) div 6")
  case True
  have "length t \<le> length (json_escape_all t)"
  proof (induction t)
    case (Cons c t)
    then show ?case using json_escape_length(1)[of c] unfolding json_escape_all.simps length_append list.size by linarith
  qed simp
  then have "\<not> text_fits (n + length (DQUOTE # json_escape_all t @ [DQUOTE]))" for n using True by (auto simp: text_fits_def)
  then show ?thesis using True by (simp add: appends_def json_buffer_append_quoted_def sql_json_quote_def)
next
  case False
  show ?thesis
  proof (cases "heap (json_quote_capacity (length t))")
    case None
    moreover have "json_quote_capacity (length t) \<le> SIZE_MAX" using False by (simp add: json_quote_capacity_def)
    ultimately have "\<not> heap_total heap" unfolding heap_total_def by blast
    then show ?thesis using False None by (simp add: appends_def json_buffer_append_quoted_def sql_json_quote_def)
  next
    case (Some block)
    then have "sql_json_quote heap (Some t) = Inr (DQUOTE # json_escape_all t @ [DQUOTE])" using False by (simp add: sql_json_quote_def)
    then show ?thesis using appends_raw[OF assms, of "DQUOTE # json_escape_all t @ [DQUOTE]"]
      unfolding appends_def json_buffer_append_quoted_def by simp
  qed
qed

lemma appends_and:
  assumes "appends heap f s" "appends heap g t"
  shows "appends heap (json_and f g) (s @ t)"
  unfolding appends_def
proof (intro allI impI)
  fix b r assume rep: "buffer_rep b r"
  then have f: "case f b of None \<Rightarrow> False | Some (b', Inr _) \<Rightarrow> buffer_rep b' (r @ s)
      | Some (b', Inl e) \<Rightarrow> \<not> heap_total heap \<or> \<not> text_fits (length r + length s)"
    using assms(1) by (simp add: appends_def)
  show "case json_and f g b of None \<Rightarrow> False | Some (b', Inr _) \<Rightarrow> buffer_rep b' (r @ s @ t)
      | Some (b', Inl e) \<Rightarrow> \<not> heap_total heap \<or> \<not> text_fits (length r + length (s @ t))"
  proof (cases "\<exists>b1 u. f b = Some (b1, Inr u)")
    case True
    then obtain b1 u where b1: "f b = Some (b1, Inr u)" by blast
    then have "buffer_rep b1 (r @ s)" using f by simp
    then have "case g b1 of None \<Rightarrow> False | Some (b', Inr _) \<Rightarrow> buffer_rep b' ((r @ s) @ t)
      | Some (b', Inl e) \<Rightarrow> \<not> heap_total heap \<or> \<not> text_fits (length (r @ s) + length t)"
      using assms(2) unfolding appends_def by blast
    then show ?thesis using b1 by (auto simp: json_and_def add.assoc split: option.splits sum.splits)
  next
    case False
    obtain b1 q where q: "f b = Some (b1, q)" using f by (cases "f b") auto
    then obtain e where "f b = Some (b1, Inl e)" using False by (cases q) auto
    then show ?thesis using f text_fits_mono[of "length r + length (s @ t)" "length r + length s"] by (auto simp: json_and_def)
  qed
qed

lemma appends_nothing: "appends heap (\<lambda>b. Some (b, Inr ())) []"
  by (simp add: appends_def)

section \<open>Properties\<close>

text \<open>
  C34. Appending never writes outside the buffer: for every buffer that holds a text, appending another one
  raw or as a JSON string literal either leaves a buffer that holds both, with its terminator inside its
  memory, or fails; and it fails only when the heap refuses a block or the text is of the order of \<open>SIZE_MAX\<close>.
\<close>

theorem json_buffer_append_safe:
  assumes "buffer_rep b s" "heap_ok heap"
  shows "(case json_buffer_append_raw heap (Some t) b of
      None \<Rightarrow> False
    | Some (b', Inr _) \<Rightarrow> buffer_rep b' (s @ t)
    | Some (b', Inl e) \<Rightarrow> \<not> heap_total heap \<or> \<not> text_fits (length s + length t)) \<and>
    (case json_buffer_append_quoted heap (Some t) b of
      None \<Rightarrow> False
    | Some (b', Inr _) \<Rightarrow> buffer_rep b' (s @ DQUOTE # json_escape_all t @ [DQUOTE])
    | Some (b', Inl e) \<Rightarrow> \<not> heap_total heap \<or> \<not> text_fits (length s + length (DQUOTE # json_escape_all t @ [DQUOTE])))"
  using appends_raw[OF assms(2), of t] appends_quoted[OF assms(2), of t] assms(1) unfolding appends_def by blast

definition sample_heap :: heap where
  "sample_heap n = Some (replicate n (CHR ''?''))"

lemma sample_heap_ok [simp]: "heap_ok sample_heap" "heap_total sample_heap"
  by (simp_all add: heap_ok_def heap_total_def sample_heap_def)

theorem json_buffer_append_safe_witness:
  "\<exists>b. json_buffer_append_raw sample_heap (Some ''[]'') empty_buffer = Some (b, Inr ()) \<and> buffer_rep b ''[]''"
  using json_buffer_append_safe[of empty_buffer "[]" sample_heap "''[]''"]
  by (auto simp: text_fits_def split: option.splits sum.splits)

end
