(* ===== verification/Sql_Service.thy ===== *)
theory Sql_Service
  imports Executor Json_Buffer
begin

text \<open>
  \<^verbatim>\<open>src/server/request/sql_service.c\<close> and \<^verbatim>\<open>include/sql_service.h\<close>: from the text of a statement to
  the JSON answer of the server.

  The payload of a result is \<open>None\<close> where the sources leave a null pointer. \<open>service_world\<close> collects what
  the outside decides: the heap of the JSON buffer, the other allocations, and the temporary file the
  executor prints to. The error object is the one set last, \<open>None\<close> when the statement succeeded. The
  sources have their own copies of the number checks and of the column search; so does the model.
\<close>

section \<open>Texts\<close>

datatype stream_fault = Flush_Fails | Stream_Seek_End_Fails | Stream_Tell_Fails | Stream_Seek_Set_Fails | Payload_Refused | Stream_Short_Read

record service_world =
  world_allocator :: allocator
  world_heap :: heap
  copy_granted :: bool
  service_granted :: bool
  tmpfile_ok :: bool
  stream_fault_at :: "stream_fault option"

definition read_stream_payload :: "service_world \<Rightarrow> string option \<Rightarrow> string result" where
  "read_stream_payload world stream =
     (case stream of
        None \<Rightarrow> fail ''SQL result stream must not be null''
      | Some bytes \<Rightarrow>
          (case stream_fault_at world of
             Some Flush_Fails \<Rightarrow> fail ''failed to flush SQL result stream''
           | Some Stream_Seek_End_Fails \<Rightarrow> fail ''failed to seek SQL result stream''
           | Some Stream_Tell_Fails \<Rightarrow> fail ''failed to measure SQL result stream''
           | Some Stream_Seek_Set_Fails \<Rightarrow> fail ''failed to rewind SQL result stream''
           | Some Payload_Refused \<Rightarrow> fail ''failed to allocate SQL result payload''
           | Some Stream_Short_Read \<Rightarrow> fail ''failed to read SQL result payload''
           | None \<Rightarrow> Inr (cstr bytes)))"

function skip_sql_prefix :: "string \<Rightarrow> string" where
  "skip_sql_prefix sql_text =
     (let cursor = dropWhile isspace sql_text in
      if peek cursor = CHR ''-'' \<and> peek (tl cursor) = CHR ''-''
      then skip_sql_prefix (dropWhile (\<lambda>c. c \<noteq> NEWLINE) (drop 2 cursor))
      else if peek cursor = CHR '';'' then skip_sql_prefix (tl cursor)
      else cursor)"
  by pat_completeness auto

termination skip_sql_prefix
proof (relation "measure length", goal_cases)
  case (2 s c)
  have "c \<noteq> []" using 2(2) by (intro notI) simp
  moreover have "length c \<le> length s" using 2(1) by (simp add: length_dropWhile_le)
  ultimately show ?case using length_dropWhile_le[of "\<lambda>c. c \<noteq> NEWLINE" "drop 2 c"] by (cases c) auto
next
  case (3 s c)
  have "c \<noteq> []" using 3(2,3) by (intro notI) simp
  moreover have "length c \<le> length s" using 3(1) by (simp add: length_dropWhile_le)
  ultimately show ?case by (cases c) auto
qed simp

declare skip_sql_prefix.simps [simp del]

definition is_sql_identifier_char :: "char \<Rightarrow> bool" where
  "is_sql_identifier_char ch \<longleftrightarrow> isalnum ch \<or> ch = CHR ''_''"

fun matches_keyword :: "string \<Rightarrow> string \<Rightarrow> bool" where
  "matches_keyword text [] = (\<not> is_sql_identifier_char (peek text))"
| "matches_keyword text (k # keyword) = (if toupper (peek text) \<noteq> k then False else matches_keyword (tl text) keyword)"

definition service_is_integer_string :: "string option \<Rightarrow> bool" where
  "service_is_integer_string text =
     (case text of
        None \<Rightarrow> False
      | Some s \<Rightarrow> (let s = skip_sign s in if peek s = NUL then False else digits_loop s))"

definition service_is_float_string :: "string option \<Rightarrow> bool" where
  "service_is_float_string text = (case text of None \<Rightarrow> False | Some s \<Rightarrow> float_loop (skip_sign s) False False)"

definition service_find_column_index :: "Schema \<Rightarrow> string \<Rightarrow> int" where
  "service_find_column_index schema name = find_column_loop (columns schema) name 0"

fun trimmed_loop :: "string \<Rightarrow> nat \<Rightarrow> nat" where
  "trimmed_loop msg 0 = 0"
| "trimmed_loop msg (Suc n) = (if msg ! n = NEWLINE \<or> msg ! n = RETURN then trimmed_loop msg n else Suc n)"

definition trimmed_message_length :: "string option \<Rightarrow> nat" where
  "trimmed_message_length msg = (case msg of None \<Rightarrow> 0 | Some m \<Rightarrow> trimmed_loop m (length m))"

definition trimmed_message_copy :: "service_world \<Rightarrow> string option \<Rightarrow> string result" where
  "trimmed_message_copy world msg =
     (if \<not> copy_granted world then fail ''failed to allocate trimmed SQL message''
      else Inr (take (trimmed_message_length msg) (case msg of None \<Rightarrow> [] | Some m \<Rightarrow> m)))"

section \<open>Answers\<close>

text \<open>The end of every function that fills a buffer: the payload, or the error with the buffer freed.\<close>

definition finish_payload :: "(JsonBuffer \<times> unit result) option \<Rightarrow> string result option" where
  "finish_payload w =
     (case w of
        None \<Rightarrow> None
      | Some (json, Inl e) \<Rightarrow> Some (Inl e)
      | Some (json, Inr _) \<Rightarrow> Some (Inr (snd (json_buffer_finalize json))))"

definition service_error_payload :: "service_world \<Rightarrow> string option \<Rightarrow> string result option" where
  \<open>service_error_payload world msg =
     (let heap = world_heap world in
      case trimmed_message_copy world (Some (case msg of None \<Rightarrow> ''unknown SQL error'' | Some m \<Rightarrow> m)) of
        Inl e \<Rightarrow> Some (Inl e)
      | Inr trimmed \<Rightarrow>
          finish_payload
            (json_and (json_buffer_append_raw heap (Some ''{"ok":false,"error":{"message":''))
              (json_and (json_buffer_append_quoted heap (Some trimmed))
                 (json_buffer_append_raw heap (Some ''}}''))) empty_buffer))\<close>

definition append_field_value :: "heap \<Rightarrow> ColumnDef \<Rightarrow> string \<Rightarrow> JsonBuffer \<Rightarrow> (JsonBuffer \<times> unit result) option" where
  "append_field_value heap col field json =
     (if column_type col = COLUMN_TYPE_STRING then json_buffer_append_quoted heap (Some field) json
      else if column_type col = COLUMN_TYPE_INT \<and> \<not> service_is_integer_string (Some field)
      then Some (json, fail (''invalid persisted int for column '' @ column_name col))
      else if column_type col = COLUMN_TYPE_FLOAT \<and> \<not> service_is_float_string (Some field)
      then Some (json, fail (''invalid persisted float for column '' @ column_name col))
      else json_buffer_append_raw heap (Some field) json)"

fun append_columns :: "heap \<Rightarrow> nat \<Rightarrow> ColumnDef list \<Rightarrow> string list \<Rightarrow> JsonBuffer \<Rightarrow> (JsonBuffer \<times> unit result) option" where
  "append_columns heap column_index [] row = (\<lambda>json. Some (json, Inr ()))"
| "append_columns heap column_index (col # cols) [] = (\<lambda>json. None)"
| "append_columns heap column_index (col # cols) (field # row) =
     json_and (if column_index > 0 then json_buffer_append_raw heap (Some '','') else (\<lambda>json. Some (json, Inr ())))
       (json_and (json_buffer_append_quoted heap (Some (column_name col)))
          (json_and (json_buffer_append_raw heap (Some '':''))
             (json_and (append_field_value heap col field) (append_columns heap (Suc column_index) cols row))))"

definition append_row_object :: "heap \<Rightarrow> TableState \<Rightarrow> Row \<Rightarrow> JsonBuffer \<Rightarrow> (JsonBuffer \<times> unit result) option" where
  "append_row_object heap table row =
     json_and (json_buffer_append_raw heap (Some ''{''))
       (json_and (append_columns heap 0 (columns (ts_schema table)) (row_fields row)) (json_buffer_append_raw heap (Some ''}'')))"

text \<open>One round of the two loops of \<open>build_select_payload\<close> that appends a row.\<close>

definition append_next_row :: "heap \<Rightarrow> TableState \<Rightarrow> bool \<Rightarrow> Row \<Rightarrow> JsonBuffer \<Rightarrow> (JsonBuffer \<times> unit result) option" where
  "append_next_row heap table first_row row =
     json_and (if \<not> first_row then json_buffer_append_raw heap (Some '','') else (\<lambda>json. Some (json, Inr ()))) (append_row_object heap table row)"

fun append_all_rows :: "heap \<Rightarrow> TableState \<Rightarrow> bool \<Rightarrow> Row list \<Rightarrow> JsonBuffer \<Rightarrow> (JsonBuffer \<times> unit result) option" where
  "append_all_rows heap table first_row [] = (\<lambda>json. Some (json, Inr ()))"
| "append_all_rows heap table first_row (r # rs) = json_and (append_next_row heap table first_row r) (append_all_rows heap table False rs)"

fun append_matching_rows ::
  "heap \<Rightarrow> TableState \<Rightarrow> int \<Rightarrow> string option \<Rightarrow> bool \<Rightarrow> Row list \<Rightarrow> JsonBuffer \<Rightarrow> (JsonBuffer \<times> unit result) option" where
  "append_matching_rows heap table column_index val first_row [] = (\<lambda>json. Some (json, Inr ()))"
| "append_matching_rows heap table column_index val first_row (r # rs) =
     (case (arr_get (row_fields r) (nat column_index), val) of
        (Some field, Some v) \<Rightarrow>
          if field \<noteq> v then append_matching_rows heap table column_index val first_row rs
          else json_and (append_next_row heap table first_row r) (append_matching_rows heap table column_index val False rs)
      | _ \<Rightarrow> (\<lambda>json. None))"

text \<open>The rows between the brackets, as a function of the buffer.\<close>

definition append_selected_rows :: "heap \<Rightarrow> TableState \<Rightarrow> Query \<Rightarrow> JsonBuffer \<Rightarrow> (JsonBuffer \<times> unit result) option" where
  "append_selected_rows heap table query json =
     (if \<not> has_condition query then append_all_rows heap table True (rows (ts_rowset table)) json
      else do {
        col \<leftarrow> condition_column (condition query);
        (let val = raw (condition_value (condition query)) in
         if col = ''id''
         then if \<not> service_is_integer_string val then Some (json, fail ''WHERE id requires an integer value'')
              else do {
                (found, matched) \<leftarrow> bptree_search (ts_index table) (atoi (the val));
                (if found
                 then do {
                   r \<leftarrow> (if matched < 0 then None else arr_get (rows (ts_rowset table)) (nat matched));
                   append_row_object heap table r json }
                 else Some (json, Inr ())) }
         else (let column_index = service_find_column_index (ts_schema table) col in
               if column_index < 0 then Some (json, fail (''unknown column in WHERE clause: '' @ col))
               else append_matching_rows heap table column_index val True (rows (ts_rowset table)) json)) })"

definition build_select_payload ::
  "service_world \<Rightarrow> filesystem \<Rightarrow> DbContext \<Rightarrow> Query \<Rightarrow> (DbContext \<times> string result) option" where
  \<open>build_select_payload world fs ctx query = do {
     (ctx, res) \<leftarrow> db_context_get_table (world_allocator world) fs ctx (table_name query);
     (case res of
        Inl e \<Rightarrow> Some (ctx, Inl e)
      | Inr i \<Rightarrow> do {
          table \<leftarrow> arr_get (ctx_tables ctx) i;
          (let heap = world_heap world in do {
             payload \<leftarrow> finish_payload
               (json_and (json_buffer_append_raw heap (Some ''{"ok":true,"type":"select","table":''))
                 (json_and (json_buffer_append_quoted heap (table_name query))
                   (json_and (json_buffer_append_raw heap (Some '',"rows":[''))
                     (json_and (append_selected_rows heap table query) (json_buffer_append_raw heap (Some '']}''))))) empty_buffer);
             Some (ctx, payload) }) }) }\<close>

definition build_insert_payload :: "service_world \<Rightarrow> Query \<Rightarrow> string option \<Rightarrow> string result option" where
  \<open>build_insert_payload world query msg =
     (let heap = world_heap world in
      case trimmed_message_copy world msg of
        Inl e \<Rightarrow> Some (Inl e)
      | Inr trimmed \<Rightarrow>
          finish_payload
            (json_and (json_buffer_append_raw heap (Some ''{"ok":true,"type":"insert","table":''))
              (json_and (json_buffer_append_quoted heap (table_name query))
                (json_and (json_buffer_append_raw heap (Some '',"affected_rows":1,"message":''))
                  (json_and (json_buffer_append_quoted heap (Some trimmed)) (json_buffer_append_raw heap (Some ''}''))))) empty_buffer))\<close>

section \<open>The service\<close>

record SqlServiceResult =
  ok :: bool
  payload :: "string option"

datatype SqlOperationKind = SQL_OPERATION_UNKNOWN | SQL_OPERATION_READ | SQL_OPERATION_WRITE

record SqlService =
  db_context :: "DbContext option"
  service_db_root :: string

definition sql_service_create :: "service_world \<Rightarrow> string option \<Rightarrow> SqlService result" where
  "sql_service_create world db_root =
     (case db_root of
        None \<Rightarrow> fail ''sql_service_create requires a db_root''
      | Some r \<Rightarrow>
          if r = [] then fail ''sql_service_create requires a db_root''
          else if length r \<ge> SQL_PATH_BUFFER_SIZE then fail ''db_root path is too long''
          else if \<not> service_granted world then fail ''failed to allocate SQL service''
          else (case db_context_create (world_allocator world) db_root of
                  Inl e \<Rightarrow> Inl e
                | Inr ctx \<Rightarrow> Inr \<lparr>db_context = Some ctx, service_db_root = r\<rparr>))"

text \<open>The operation, and whether the call succeeds.\<close>

definition sql_service_classify_operation :: "string option \<Rightarrow> SqlOperationKind \<times> unit result" where
  "sql_service_classify_operation sql_text =
     (case sql_text of
        None \<Rightarrow> (SQL_OPERATION_UNKNOWN, fail ''sql_service_classify_operation received invalid arguments'')
      | Some sql \<Rightarrow>
          (let cursor = skip_sql_prefix sql in
           if peek cursor = NUL then (SQL_OPERATION_UNKNOWN, fail ''sql_service_classify_operation received empty SQL'')
           else if matches_keyword cursor ''SELECT'' then (SQL_OPERATION_READ, Inr ())
           else if matches_keyword cursor ''INSERT'' then (SQL_OPERATION_WRITE, Inr ())
           else (SQL_OPERATION_UNKNOWN, fail ''sql_service_classify_operation could not classify SQL'')))"

text \<open>A result that reports an error: \<open>e\<close> is the error object when the payload is built from \<open>msg\<close>.\<close>

definition error_result :: "service_world \<Rightarrow> SqlError \<Rightarrow> string \<Rightarrow> (SqlServiceResult \<times> SqlError option) option" where
  "error_result world e msg = do {
     p \<leftarrow> service_error_payload world (Some msg);
     Some (case p of
             Inl e' \<Rightarrow> (\<lparr>ok = False, payload = None\<rparr>, Some e')
           | Inr text \<Rightarrow> (\<lparr>ok = False, payload = Some text\<rparr>, Some e)) }"

text \<open>The part of \<open>sql_service_execute\<close> after the \<open>tmpfile\<close> call, for an insertion.\<close>

definition execute_to_stream ::
  "service_world \<Rightarrow> filesystem \<Rightarrow> SqlService \<Rightarrow> Query \<Rightarrow> (SqlService \<times> filesystem \<times> SqlServiceResult \<times> SqlError option) option" where
  "execute_to_stream world fs service query = do {
     (ctx, fs, stream, res) \<leftarrow> execute_query (world_allocator world) fs (Some query) (db_context service) (Some []);
     (let service = service\<lparr>db_context := ctx\<rparr> in
      case res of
        Inl e \<Rightarrow> do { r \<leftarrow> error_result world e (message e); Some (service, fs, r) }
      | Inr _ \<Rightarrow>
          (case read_stream_payload world stream of
             Inl e \<Rightarrow> do { r \<leftarrow> error_result world e (message e); Some (service, fs, r) }
           | Inr msg \<Rightarrow> do {
               p \<leftarrow> build_insert_payload world query (Some msg);
               (case p of
                  Inl e \<Rightarrow> do { r \<leftarrow> error_result world e (message e); Some (service, fs, r) }
                | Inr text \<Rightarrow> Some (service, fs, \<lparr>ok = True, payload = Some text\<rparr>, None)) })) }"

definition sql_service_execute ::
  "service_world \<Rightarrow> filesystem \<Rightarrow> SqlService option \<Rightarrow> string option \<Rightarrow>
     (SqlService option \<times> filesystem \<times> SqlServiceResult \<times> SqlError option) option" where
  "sql_service_execute world fs service sql_text =
     (case (service, sql_text) of
        (Some s, Some sql) \<Rightarrow>
          (case db_context s of
             None \<Rightarrow> do {
               r \<leftarrow> error_result world (sql_set_error 0 0 ''sql_service_execute requires an initialized db_context'')
                      ''SQL service is not initialized.'';
               Some (service, fs, r) }
           | Some ctx \<Rightarrow>
               (case parse_sql_text sql_text (Some zeroed_query) of
                  (_, Inl e) \<Rightarrow> do { r \<leftarrow> error_result world e (message e); Some (service, fs, r) }
                | (query, Inr _) \<Rightarrow>
                    (case query_type (the query) of
                       QUERY_SELECT \<Rightarrow> do {
                         (ctx, p) \<leftarrow> build_select_payload world fs ctx (the query);
                         (let service = Some (s\<lparr>db_context := Some ctx\<rparr>) in
                          case p of
                            Inr text \<Rightarrow> Some (service, fs, \<lparr>ok = True, payload = Some text\<rparr>, None)
                          | Inl e \<Rightarrow> do { r \<leftarrow> error_result world e (message e); Some (service, fs, r) }) }
                     | QUERY_INSERT \<Rightarrow>
                         if \<not> tmpfile_ok world
                         then do {
                           r \<leftarrow> error_result world (sql_set_error 0 0 ''failed to create SQL result stream'') ''Failed to create SQL result stream.'';
                           Some (service, fs, r) }
                         else do {
                           (s, fs, r) \<leftarrow> execute_to_stream world fs s (the query);
                           Some (Some s, fs, r) })))
      | _ \<Rightarrow> do {
          r \<leftarrow> error_result world (sql_set_error 0 0 ''sql_service_execute received invalid arguments'')
                 ''sql_service_execute received invalid arguments'';
          Some (service, fs, r) })"

definition sql_service_result_destroy :: "SqlServiceResult \<Rightarrow> SqlServiceResult" where
  "sql_service_result_destroy result = result\<lparr>payload := None, ok := False\<rparr>"

definition sql_service_destroy :: "SqlService option \<Rightarrow> unit option" where
  "sql_service_destroy service =
     (case service of None \<Rightarrow> Some () | Some s \<Rightarrow> (if db_context s = None then Some () else db_context_destroy (db_context s)))"

section \<open>The operation and the statement\<close>

lemma toupper_tolower: "isupper k \<Longrightarrow> toupper c = k \<longleftrightarrow> tolower c = tolower k"
proof -
  assume k: "isupper k"
  have "toupper c = k \<longleftrightarrow> c = k \<or> c = tolower k"
  proof (cases "islower c")
    case True
    have "char_of ((of_char c :: nat) - 32) = k \<longleftrightarrow> c = char_of ((of_char k :: nat) + 32)"
      using True k by (auto simp: islower_def isupper_def) 
    then show ?thesis using True k by (auto simp: toupper_def tolower_def islower_def isupper_def)
  next
    case False
    then show ?thesis using k by (auto simp: toupper_def tolower_def islower_def isupper_def)
  qed
  also have "\<dots> \<longleftrightarrow> tolower c = tolower k"
    using k by (auto simp: tolower_def islower_def isupper_def)
  finally show ?thesis .
qed

lemma matches_keyword_loop:
  "list_all isupper keyword \<Longrightarrow>
     matches_keyword s keyword \<longleftrightarrow> (\<exists>rest. match_loop s (map tolower keyword) = Some rest \<and> \<not> is_identifier_char (peek rest))"
proof (induction s keyword rule: matches_keyword.induct)
  case (2 s k keyword)
  have "tolower (tolower c) = tolower c" for c by (simp add: tolower_def isupper_def)
  then show ?case using 2 toupper_tolower[of k "peek s"] by auto
qed (simp add: is_sql_identifier_char_def is_identifier_char_def)

lemma match_keyword_classified:
  assumes "match_keyword s (map tolower keyword) = Some rest" "list_all isupper keyword" "keyword \<noteq> []"
  shows "skip_sql_prefix s = skip_whitespace s \<and> matches_keyword (skip_whitespace s) keyword \<and> toupper (peek (skip_whitespace s)) = hd keyword"
proof -
  have m: "matches_keyword (skip_whitespace s) keyword"
    using assms(1) matches_keyword_loop[OF assms(2), of "skip_whitespace s"] by (auto simp: match_keyword_def split: option.splits if_splits)
  moreover from m assms(3) have u: "toupper (peek (skip_whitespace s)) = hd keyword" by (cases keyword) (auto split: if_splits)
  moreover have up: "isupper (hd keyword)" using assms(2,3) by (cases keyword) auto
  have "peek (skip_whitespace s) \<noteq> c" if "\<not> isupper (toupper c)" for c using u up that by auto
  from this[of "CHR ''-''"] this[of "CHR '';''"] have "peek (skip_whitespace s) \<noteq> CHR ''-''" "peek (skip_whitespace s) \<noteq> CHR '';''"
    by (auto simp: toupper_def islower_def isupper_def)
  then have "skip_sql_prefix s = skip_whitespace s" by (simp add: skip_sql_prefix.simps[of s] skip_whitespace_def Let_def)
  ultimately show ?thesis by simp
qed

lemma parse_sql_text_keyword:
  assumes "parse_sql_text (Some sql) (Some zeroed_query) = (Some q, Inr ())" "cstring sql"
  obtains (select) rest where "query_ok q" "query_type q = QUERY_SELECT" "match_keyword sql ''select'' = Some rest"
  | (insert) rest where "query_ok q" "query_type q = QUERY_INSERT" "match_keyword sql ''insert'' = Some rest"
proof -
  obtain q1 r1 where sel: "parse_select sql zeroed_query = (q1, r1)" by (cases "parse_select sql zeroed_query")
  define q2 where "q2 = free_query_condition (free_query_values (q1\<lparr>table_name := None\<rparr>))"
  obtain q3 r3 where ins: "parse_insert sql q2 = (q3, r3)" by (cases "parse_insert sql q2")
  have n: "\<not> has_condition q2" by (simp add: q2_def)
  have "r1 = Inr () \<and> q = q1 \<or> r3 = Inr () \<and> q = q3"
    using assms(1) sel ins by (auto simp: parse_sql_text_def q2_def Let_def split: if_splits sum.splits)
  then show thesis
  proof
    assume a: "r1 = Inr () \<and> q = q1"
    then obtain rest where "match_keyword sql ''select'' = Some rest"
      using sel by (cases "match_keyword sql ''select''") (auto simp: parse_select_def Let_def)
    then show thesis using select parse_select_ok[of sql q1] sel a assms(2) by auto
  next
    assume a: "r3 = Inr () \<and> q = q3"
    then obtain rest where "match_keyword sql ''insert'' = Some rest"
      using ins by (cases "match_keyword sql ''insert''") (auto simp: parse_insert_def Let_def)
    then show thesis using insert parse_insert_ok[of sql q2 q3] ins a n assms(2) by auto
  qed
qed

lemma query_ok_condition:
  "query_ok q \<Longrightarrow> query_type q = QUERY_SELECT \<Longrightarrow>
     \<exists>c v. has_condition q \<longrightarrow> condition_column (condition q) = Some c \<and> raw (condition_value (condition q)) = Some v"
  by (auto simp: query_ok_def)

lemma classify_parsed:
  assumes "parse_sql_text (Some sql) (Some zeroed_query) = (Some q, Inr ())" "cstring sql"
  shows "sql_service_classify_operation (Some sql) =
    ((case query_type q of QUERY_SELECT \<Rightarrow> SQL_OPERATION_READ | QUERY_INSERT \<Rightarrow> SQL_OPERATION_WRITE), Inr ())"
  using assms
proof (cases rule: parse_sql_text_keyword)
  case (select rest)
  have up: "map tolower ''SELECT'' = ''select''" "list_all isupper ''SELECT''" by code_simp+
  note c = match_keyword_classified[of sql "''SELECT''" rest, unfolded up(1), OF select(3) up(2)]
  then have "peek (skip_whitespace sql) \<noteq> NUL" by (auto simp: toupper_def islower_def)
  then show ?thesis using select(2) c by (simp add: sql_service_classify_operation_def del: matches_keyword.simps)
next
  case (insert rest)
  have up: "map tolower ''INSERT'' = ''insert''" "list_all isupper ''INSERT''" by code_simp+
  note c = match_keyword_classified[of sql "''INSERT''" rest, unfolded up(1), OF insert(3) up(2)]
  then have "peek (skip_whitespace sql) \<noteq> NUL" by (auto simp: toupper_def islower_def)
  moreover have "\<not> matches_keyword (skip_whitespace sql) ''SELECT''" using c by simp
  ultimately show ?thesis using insert(2) c by (simp add: sql_service_classify_operation_def del: matches_keyword.simps)
qed

section \<open>The answers as text\<close>

definition json_string :: "string \<Rightarrow> string" where
  "json_string t = DQUOTE # json_escape_all t @ [DQUOTE]"

definition json_member :: "ColumnDef \<Rightarrow> string \<Rightarrow> string" where
  "json_member col field =
     json_string (column_name col) @ '':'' @ (if column_type col = COLUMN_TYPE_STRING then json_string field else field)"

definition json_row :: "Schema \<Rightarrow> Row \<Rightarrow> string" where
  "json_row schema r = ''{'' @ joined (map2 json_member (columns schema) (row_fields r)) @ ''}''"

definition select_json :: "string \<Rightarrow> Schema \<Rightarrow> Row list \<Rightarrow> string" where
  \<open>select_json name schema rs =
     ''{"ok":true,"type":"select","table":'' @ json_string name @ '',"rows":['' @ joined (map (json_row schema) rs) @ '']}''\<close>

definition insert_json :: "string \<Rightarrow> string" where
  \<open>insert_json name = ''{"ok":true,"type":"insert","table":'' @ json_string name @ '',"affected_rows":1,"message":"INSERT 1"}''\<close>

definition error_json :: "string \<Rightarrow> string" where
  \<open>error_json msg = ''{"ok":false,"error":{"message":'' @ json_string msg @ ''}}''\<close>

definition trimmed :: "string \<Rightarrow> string" where
  "trimmed msg = rev (dropWhile (\<lambda>c. c = NEWLINE \<or> c = RETURN) (rev msg))"

lemma trimmed_loop_take: "n \<le> length msg \<Longrightarrow> take (trimmed_loop msg n) msg = trimmed (take n msg)"
proof (induction msg n rule: trimmed_loop.induct)
  case (2 msg n)
  then have "take (Suc n) msg = take n msg @ [msg ! n]" by (simp add: take_Suc_conv_app_nth)
  then show ?case using 2 by (auto simp: trimmed_def)
qed (simp add: trimmed_def)

lemma trimmed_message_copy_granted: "copy_granted world \<Longrightarrow> trimmed_message_copy world (Some m) = Inr (trimmed m)"
  using trimmed_loop_take[of "length m" m] by (simp add: trimmed_message_copy_def trimmed_message_length_def)

section \<open>Filling the buffer\<close>

lemmas appends_json = appends_and appends_nothing appends_raw appends_quoted[folded json_string_def]

lemma service_checks [simp]:
  "service_is_integer_string (Some s) = is_integer_string s" "service_is_float_string (Some s) = is_float_string s"
  "service_is_integer_string None = False" "service_find_column_index schema name = find_column_index schema name"
  by (simp_all add: service_is_integer_string_def service_is_float_string_def is_integer_string_def is_float_string_def
      service_find_column_index_def find_column_index_def)

lemma appends_field_value:
  assumes "heap_ok heap" "value_valid col field"
  shows "appends heap (append_field_value heap col field) (if column_type col = COLUMN_TYPE_STRING then json_string field else field)"
proof -
  have "append_field_value heap col field =
      (if column_type col = COLUMN_TYPE_STRING then json_buffer_append_quoted heap (Some field) else json_buffer_append_raw heap (Some field))"
    using assms(2) by (auto simp: append_field_value_def value_valid_def fun_eq_iff)
  then show ?thesis using assms(1) appends_json by simp
qed

lemma appends_columns:
  assumes "heap_ok heap"
  shows "list_all2 value_valid cols row \<Longrightarrow>
    appends heap (append_columns heap i cols row) ((if 0 < i \<and> cols \<noteq> [] then '','' else []) @ joined (map2 json_member cols row))"
proof (induction cols arbitrary: i row)
  case (Cons col cols)
  then obtain field fs where row: "row = field # fs" "value_valid col field" "list_all2 value_valid cols fs" by (cases row) auto
  have eq: "(if 0 < i \<and> col # cols \<noteq> [] then '','' else []) @ joined (map2 json_member (col # cols) (field # fs)) =
    (if 0 < i then '','' else []) @ json_string (column_name col) @ '':'' @
      (if column_type col = COLUMN_TYPE_STRING then json_string field else field) @
      ((if 0 < Suc i \<and> cols \<noteq> [] then '','' else []) @ joined (map2 json_member cols fs))"
    using row(3) by (cases cols; cases fs) (auto simp: json_member_def)
  have "appends heap (if 0 < i then json_buffer_append_raw heap (Some '','') else (\<lambda>json. Some (json, Inr ()))) (if 0 < i then '','' else [])"
    using assms by (simp add: appends_raw appends_nothing)
  then show ?case unfolding row(1) append_columns.simps eq
    by (rule appends_and) (intro appends_and appends_raw appends_quoted[folded json_string_def] appends_field_value Cons.IH assms row)
qed (simp add: appends_nothing)

lemma appends_row_object:
  assumes "heap_ok heap" "row_valid (ts_schema table) r"
  shows "appends heap (append_row_object heap table r) (json_row (ts_schema table) r)"
  using appends_columns[OF assms(1), of "columns (ts_schema table)" "row_fields r" 0] assms
  unfolding append_row_object_def json_row_def by (intro appends_and appends_raw) (simp_all add: row_valid_def)

lemma appends_next_row:
  assumes "heap_ok heap" "row_valid (ts_schema table) r"
  shows "appends heap (append_next_row heap table first_row r) ((if first_row then [] else '','') @ json_row (ts_schema table) r)"
  unfolding append_next_row_def
  by (rule appends_and) (use assms in \<open>simp_all add: appends_raw appends_nothing appends_row_object\<close>)

lemma joined_Cons: "joined (x # xs) = x @ (if xs = [] then [] else '','' @ joined xs)"
  by (cases xs) simp_all

lemma appends_all_rows:
  assumes "heap_ok heap"
  shows "\<forall>r\<in>set rs. row_valid (ts_schema table) r \<Longrightarrow>
    appends heap (append_all_rows heap table first_row rs)
      ((if first_row \<or> rs = [] then [] else '','') @ joined (map (json_row (ts_schema table)) rs))"
proof (induction rs arbitrary: first_row)
  case (Cons r rs)
  then show ?case using appends_and[OF appends_next_row[OF assms, of table r first_row] Cons.IH[of False]]
    by (simp add: joined_Cons split: if_splits)
qed (simp add: appends_nothing)

lemma appends_matching_rows:
  assumes "heap_ok heap"
  shows "\<forall>r\<in>set rs. row_valid (ts_schema table) r \<and> nat ci < length (row_fields r) \<Longrightarrow>
    appends heap (append_matching_rows heap table ci (Some v) first_row rs)
      ((if first_row \<or> filter (\<lambda>r. row_fields r ! nat ci = v) rs = [] then [] else '','') @
        joined (map (json_row (ts_schema table)) (filter (\<lambda>r. row_fields r ! nat ci = v) rs)))"
proof (induction rs arbitrary: first_row)
  case (Cons r rs)
  then show ?case using appends_and[OF appends_next_row[OF assms, of table r first_row] Cons.IH[of False]] Cons.IH[of first_row]
    by (simp add: joined_Cons split: if_splits)
qed (simp add: appends_nothing)

lemma appends_selected_rows:
  assumes hp: "heap_ok heap" and t: "table_ok t"
    and cond: "has_condition q \<Longrightarrow> condition_column (condition q) = Some c \<and> raw (condition_value (condition q)) = Some v"
  shows "case condition_error q (ts_schema t) of
      None \<Rightarrow> appends heap (append_selected_rows heap t q) (joined (map (json_row (ts_schema t)) (selected_rows q t)))
    | Some e \<Rightarrow> append_selected_rows heap t q = (\<lambda>json. Some (json, fail e))"
proof -
  have valid: "\<forall>r\<in>set (rows (ts_rowset t)). row_valid (ts_schema t) r" using t by (simp add: table_ok_def)
  consider (all) "\<not> has_condition q" | (refused) e where "has_condition q" "condition_error q (ts_schema t) = Some e"
    | (key) "has_condition q" "condition_error q (ts_schema t) = None" "c = ''id''"
    | (scan) "has_condition q" "condition_error q (ts_schema t) = None" "c \<noteq> ''id''" by (cases "condition_error q (ts_schema t)") auto
  then show ?thesis
  proof cases
    case all
    have "append_selected_rows heap t q = append_all_rows heap t True (rows (ts_rowset t))"
      using all by (simp add: append_selected_rows_def fun_eq_iff)
    then show ?thesis using all appends_all_rows[OF hp valid, of True] by (simp add: condition_error_def selected_rows_def)
  next
    case refused
    then show ?thesis using cond find_column_index_spec(1)[of "ts_schema t" c]
      by (auto simp: append_selected_rows_def condition_error_def fun_eq_iff Let_def split: if_splits)
  next
    case key
    then have v: "is_integer_string v" using cond by (simp add: condition_error_def split: if_splits)
    have "int32 (atoi v)" by simp
    from table_index_scan[OF t this] show ?thesis
    proof cases
      case 1
      then have "append_selected_rows heap t q = (\<lambda>json. Some (json, Inr ()))"
        using key v cond by (simp add: append_selected_rows_def fun_eq_iff)
      then show ?thesis using 1 key cond by (simp add: selected_rows_def matches_condition_fun appends_nothing)
    next
      case (2 n)
      then have "append_selected_rows heap t q = append_row_object heap t (rows (ts_rowset t) ! n)"
        using key v cond by (simp add: append_selected_rows_def fun_eq_iff)
      then show ?thesis using 2 key cond valid hp by (simp add: selected_rows_def matches_condition_fun appends_row_object)
    qed
  next
    case scan
    let ?ci = "find_column_index (ts_schema t) c"
    have ci: "0 \<le> ?ci" using scan cond find_column_index_spec(1)[of "ts_schema t" c] by (auto simp: condition_error_def split: if_splits)
    then have len: "\<forall>r\<in>set (rows (ts_rowset t)). row_valid (ts_schema t) r \<and> nat ?ci < length (row_fields r)"
      using valid row_valid_length find_column_index_spec(2)[OF ci] by fastforce
    have "append_selected_rows heap t q = append_matching_rows heap t ?ci (Some v) True (rows (ts_rowset t))"
      using scan cond ci by (simp add: append_selected_rows_def fun_eq_iff Let_def)
    then show ?thesis using scan cond appends_matching_rows[OF hp len, of v True] by (simp add: selected_rows_def matches_condition_fun)
  qed
qed

lemma finish_appends:
  assumes "appends heap f text"
  shows "\<exists>p. finish_payload (f empty_buffer) = Some p \<and>
    (case p of Inr s \<Rightarrow> s = cstr text | Inl e \<Rightarrow> \<not> heap_total heap \<or> \<not> text_fits (length text))"
proof -
  have "case f empty_buffer of None \<Rightarrow> False | Some (b', Inr _) \<Rightarrow> buffer_rep b' ([] @ text)
    | Some (b', Inl e) \<Rightarrow> \<not> heap_total heap \<or> \<not> text_fits (length ([] :: string) + length text)"
    by (rule assms[unfolded appends_def, rule_format, OF buffer_rep_empty])
  then show ?thesis using finalize_rep[of _ "text"] by (auto simp: finish_payload_def split: option.splits sum.splits)
qed

text \<open>What an answer depends on besides the statement: the heap hands out whole blocks.\<close>

lemma error_payload_text:
  assumes "heap_ok (world_heap world)"
  shows "\<exists>p. service_error_payload world (Some msg) = Some p \<and>
    (case p of Inr s \<Rightarrow> s = cstr (error_json (trimmed msg))
     | Inl e \<Rightarrow> \<not> copy_granted world \<or> \<not> heap_total (world_heap world) \<or> \<not> text_fits (length (error_json (trimmed msg))))"
proof (cases "copy_granted world")
  case True
  have "appends (world_heap world)
      (json_and (json_buffer_append_raw (world_heap world) (Some ''{\"ok\":false,\"error\":{\"message\":''))
        (json_and (json_buffer_append_quoted (world_heap world) (Some (trimmed msg))) (json_buffer_append_raw (world_heap world) (Some ''}}''))))
      (error_json (trimmed msg))"
    unfolding error_json_def by (intro appends_json assms)
  from finish_appends[OF this] show ?thesis
    using True by (auto simp: service_error_payload_def trimmed_message_copy_granted Let_def split: sum.splits)
next
  case False
  then show ?thesis by (simp add: service_error_payload_def trimmed_message_copy_def)
qed

lemma error_result_text:
  assumes "heap_ok (world_heap world)"
  shows "\<exists>r e'. error_result world e msg = Some (r, Some e') \<and> \<not> ok r \<and>
    (case payload r of
       Some s \<Rightarrow> s = cstr (error_json (trimmed msg)) \<and> e' = e
     | None \<Rightarrow> \<not> copy_granted world \<or> \<not> heap_total (world_heap world) \<or> \<not> text_fits (length (error_json (trimmed msg))))"
proof -
  obtain p where p: "service_error_payload world (Some msg) = Some p" and cs: "case p of Inr s \<Rightarrow> s = cstr (error_json (trimmed msg))
     | Inl e \<Rightarrow> \<not> copy_granted world \<or> \<not> heap_total (world_heap world) \<or> \<not> text_fits (length (error_json (trimmed msg)))"
    using error_payload_text[OF assms, of msg] by blast
  then show ?thesis by (cases p) (simp_all add: error_result_def)
qed

lemma select_payload_text:
  assumes hp: "heap_ok (world_heap world)" and t: "table_ok t"
    and get: "db_context_get_table (world_allocator world) fs ctx (Some n) = Some (ctx', Inr i)" "i < length (ctx_tables ctx')" "ctx_tables ctx' ! i = t"
    and q: "table_name q = Some n"
    and cond: "has_condition q \<Longrightarrow> condition_column (condition q) = Some c \<and> raw (condition_value (condition q)) = Some v"
  shows "\<exists>p. build_select_payload world fs ctx q = Some (ctx', p) \<and>
    (let text = select_json n (ts_schema t) (selected_rows q t) in
     case p of
       Inr s \<Rightarrow> condition_error q (ts_schema t) = None \<and> s = cstr text
     | Inl e \<Rightarrow> (case condition_error q (ts_schema t) of
          Some m \<Rightarrow> \<not> heap_total (world_heap world) \<or> \<not> text_fits (length text) \<or> e = sql_set_error 0 0 m
        | None \<Rightarrow> \<not> heap_total (world_heap world) \<or> \<not> text_fits (length text)))"
proof -
  let ?heap = "world_heap world"
  let ?w = "json_and (json_buffer_append_raw ?heap (Some ''{\"ok\":true,\"type\":\"select\",\"table\":''))
    (json_and (json_buffer_append_quoted ?heap (Some n))
      (json_and (json_buffer_append_raw ?heap (Some '',\"rows\":[''))
        (json_and (append_selected_rows ?heap t q) (json_buffer_append_raw ?heap (Some '']}'')))))"
  let ?text = "select_json n (ts_schema t) (selected_rows q t)"
  have build: "build_select_payload world fs ctx q = do { p \<leftarrow> finish_payload (?w empty_buffer); Some (ctx', p) }"
    using get q by (simp add: build_select_payload_def Let_def)
  note rows = appends_selected_rows[OF hp t cond]
  show ?thesis
  proof (cases "condition_error q (ts_schema t)")
    case None
    then have "appends ?heap ?w ?text" using rows unfolding select_json_def by (intro appends_json hp) auto
    from finish_appends[OF this] show ?thesis using None build by (auto simp: Let_def split: sum.splits)
  next
    case (Some m)
    then have sel: "append_selected_rows ?heap t q = (\<lambda>json. Some (json, fail m))" using rows by simp
    have stop: "json_and (append_selected_rows ?heap t q) g = (\<lambda>json. Some (json, fail m))" for g
      by (simp add: sel json_and_def fun_eq_iff)
    define pre where "pre = json_and (json_buffer_append_raw ?heap (Some ''{\"ok\":true,\"type\":\"select\",\"table\":''))
      (json_and (json_buffer_append_quoted ?heap (Some n)) (json_buffer_append_raw ?heap (Some '',\"rows\":['')))"
    have "appends ?heap pre (''{\"ok\":true,\"type\":\"select\",\"table\":'' @ json_string n @ '',\"rows\":['')"
      unfolding pre_def by (intro appends_json hp)
    from this[unfolded appends_def, rule_format, OF buffer_rep_empty]
    have pre: "case pre empty_buffer of None \<Rightarrow> False | Some (b', Inr _) \<Rightarrow> True
      | Some (b', Inl e) \<Rightarrow> \<not> heap_total ?heap \<or> \<not> text_fits (length ?text)"
      using text_fits_mono[of "length ?text"] by (auto simp: select_json_def split: option.splits sum.splits)
    have "?w empty_buffer = json_and pre (\<lambda>json. Some (json, fail m)) empty_buffer"
      by (simp add: stop pre_def json_and_def split: option.splits sum.splits)
    then show ?thesis using build Some pre
      by (auto simp: Let_def finish_payload_def json_and_def split: option.splits sum.splits)
  qed
qed

lemma json_string_length: "length (json_string t) \<le> 6 * length t + 2"
  using json_escape_all_length[of t] by (simp add: json_string_def)

lemma error_text_fits: "length m < SQL_ERROR_MESSAGE_SIZE \<Longrightarrow> text_fits (length (error_json (trimmed m)))"
proof -
  assume "length m < SQL_ERROR_MESSAGE_SIZE"
  moreover have "length (trimmed m) \<le> length m" by (metis length_dropWhile_le length_rev trimmed_def)
  ultimately show ?thesis using json_string_length[of "trimmed m"] by (simp add: error_json_def text_fits_def)
qed

lemma execute_insert_output:
  "execute_insert al fs q ctx out = Some (ctx', fs', out', Inr u) \<Longrightarrow> out' = out @ ''INSERT 1'' @ [NEWLINE]"
  by (auto simp: execute_insert_def insert_in_memory_def Let_def split: bind_splits sum.splits option.splits if_splits prod.splits)

lemma insert_payload_text:
  assumes "heap_ok (world_heap world)" "table_name q = Some n"
  shows "\<exists>p. build_insert_payload world q (Some (''INSERT 1'' @ [NEWLINE])) = Some p \<and>
    (case p of Inr s \<Rightarrow> s = cstr (insert_json n)
     | Inl e \<Rightarrow> \<not> copy_granted world \<or> \<not> heap_total (world_heap world) \<or> \<not> text_fits (length (insert_json n)))"
proof (cases "copy_granted world")
  case True
  have tr: "trimmed (''INSERT 1'' @ [NEWLINE]) = ''INSERT 1''" and js: "json_string ''INSERT 1'' = DQUOTE # ''INSERT 1'' @ [DQUOTE]" by code_simp+
  have "appends (world_heap world)
      (json_and (json_buffer_append_raw (world_heap world) (Some ''{\"ok\":true,\"type\":\"insert\",\"table\":''))
        (json_and (json_buffer_append_quoted (world_heap world) (Some n))
          (json_and (json_buffer_append_raw (world_heap world) (Some '',\"affected_rows\":1,\"message\":''))
            (json_and (json_buffer_append_quoted (world_heap world) (Some ''INSERT 1'')) (json_buffer_append_raw (world_heap world) (Some ''}''))))))
      (''{\"ok\":true,\"type\":\"insert\",\"table\":'' @ json_string n @ '',\"affected_rows\":1,\"message\":'' @ json_string ''INSERT 1'' @ ''}'')"
    by (intro appends_json assms)
  then have "appends (world_heap world)
      (json_and (json_buffer_append_raw (world_heap world) (Some ''{\"ok\":true,\"type\":\"insert\",\"table\":''))
        (json_and (json_buffer_append_quoted (world_heap world) (Some n))
          (json_and (json_buffer_append_raw (world_heap world) (Some '',\"affected_rows\":1,\"message\":''))
            (json_and (json_buffer_append_quoted (world_heap world) (Some ''INSERT 1'')) (json_buffer_append_raw (world_heap world) (Some ''}''))))))
      (insert_json n)"
    by (simp add: insert_json_def js)
  from finish_appends[OF this] show ?thesis
    using True trimmed_message_copy_granted[OF True, of "''INSERT 1'' @ [NEWLINE]"] assms(2) tr
    by (auto simp: build_insert_payload_def Let_def split: sum.splits)
next
  case False
  then show ?thesis by (simp add: build_insert_payload_def trimmed_message_copy_def)
qed

section \<open>Whole answers\<close>

lemma select_answer:
  assumes "ready fs ctx n" "db_context s = Some ctx" "parse_sql_text (Some sql) (Some zeroed_query) = (Some q, Inr ())" "cstring sql"
    and "query_type q = QUERY_SELECT" "table_name q = Some n" "heap_ok (world_heap world)"
    and "db_context_get_table (world_allocator world) fs ctx (Some n) = Some (ctx', Inr i)" "t = ctx_tables ctx' ! i"
  shows "\<exists>r e. sql_service_execute world fs (Some s) (Some sql) = Some (Some (s\<lparr>db_context := Some ctx'\<rparr>), fs, r, e) \<and>
    (ok r \<longrightarrow> condition_error q (ts_schema t) = None \<and> payload r = Some (cstr (select_json n (ts_schema t) (selected_rows q t)))) \<and>
    (heap_total (world_heap world) \<and> copy_granted world \<and> text_fits (length (select_json n (ts_schema t) (selected_rows q t))) \<longrightarrow>
      (case condition_error q (ts_schema t) of
         None \<Rightarrow> ok r
       | Some m \<Rightarrow> \<not> ok r \<and> payload r = Some (cstr (error_json (trimmed (message (sql_set_error 0 0 m)))))))"
  using assms(1)
proof (cases rule: ready_get_table[of _ _ _ "world_allocator world"])
  case (found ctx1 j)
  then have eq: "ctx1 = ctx'" "j = i" using assms(8) by simp_all
  obtain c v where "has_condition q \<Longrightarrow> condition_column (condition q) = Some c \<and> raw (condition_value (condition q)) = Some v"
    using parse_sql_text_keyword[OF assms(3,4)] assms(5) by (metis query_ok_condition)
  moreover have "table_ok t" "i < length (ctx_tables ctx')" using found(4,5) eq assms(9) by simp_all
  ultimately obtain p where p: "build_select_payload world fs ctx q = Some (ctx', p)"
    and cs: "case p of
       Inr text \<Rightarrow> condition_error q (ts_schema t) = None \<and> text = cstr (select_json n (ts_schema t) (selected_rows q t))
     | Inl e \<Rightarrow> (case condition_error q (ts_schema t) of
          Some m \<Rightarrow> \<not> heap_total (world_heap world) \<or> \<not> text_fits (length (select_json n (ts_schema t) (selected_rows q t))) \<or> e = sql_set_error 0 0 m
        | None \<Rightarrow> \<not> heap_total (world_heap world) \<or> \<not> text_fits (length (select_json n (ts_schema t) (selected_rows q t))))"
    using select_payload_text[OF assms(7) _ assms(8) _ assms(9)[symmetric] assms(6), of c v] unfolding Let_def by blast
  show ?thesis
  proof (cases p)
    case (Inr answer)
    then show ?thesis using p cs assms(2,3,5) by (simp add: sql_service_execute_def)
  next
    case (Inl e)
    obtain r e' where r: "error_result world e (message e) = Some (r, Some e')" "\<not> ok r"
      "case payload r of Some s \<Rightarrow> s = cstr (error_json (trimmed (message e))) \<and> e' = e
       | None \<Rightarrow> \<not> copy_granted world \<or> \<not> heap_total (world_heap world) \<or> \<not> text_fits (length (error_json (trimmed (message e))))"
      using error_result_text[OF assms(7), of e "message e"] by blast
    have "sql_service_execute world fs (Some s) (Some sql) = Some (Some (s\<lparr>db_context := Some ctx'\<rparr>), fs, r, Some e')"
      using p Inl r(1) assms(2,3,5) by (simp add: sql_service_execute_def)
    then show ?thesis using cs Inl r(2,3) error_text_fits[OF message_bound]
      by (auto split: option.splits)
  qed
qed (use assms(8) in simp)

lemma missing_table_answer:
  assumes "db_context_get_table (world_allocator world) fs ctx (Some n) = Some (ctx, Inl e0)"
    and "db_context s = Some ctx" "parse_sql_text (Some sql) (Some zeroed_query) = (Some q, Inr ())"
    and "query_type q = QUERY_SELECT" "table_name q = Some n" "heap_ok (world_heap world)"
  shows "\<exists>r e. sql_service_execute world fs (Some s) (Some sql) = Some (Some (s\<lparr>db_context := Some ctx\<rparr>), fs, r, e) \<and> \<not> ok r \<and>
    (heap_total (world_heap world) \<and> copy_granted world \<and> length (message e0) < SQL_ERROR_MESSAGE_SIZE \<longrightarrow>
       payload r = Some (cstr (error_json (trimmed (message e0)))))"
proof -
  obtain r e' where r: "error_result world e0 (message e0) = Some (r, Some e')" "\<not> ok r"
    "case payload r of Some s \<Rightarrow> s = cstr (error_json (trimmed (message e0))) \<and> e' = e0
     | None \<Rightarrow> \<not> copy_granted world \<or> \<not> heap_total (world_heap world) \<or> \<not> text_fits (length (error_json (trimmed (message e0))))"
    using error_result_text[OF assms(6), of e0 "message e0"] by blast
  have "sql_service_execute world fs (Some s) (Some sql) = Some (Some (s\<lparr>db_context := Some ctx\<rparr>), fs, r, Some e')"
    using assms(1-5) r(1) by (simp add: sql_service_execute_def build_select_payload_def)
  then show ?thesis using r(2,3) error_text_fits[of "message e0"] by (auto split: option.splits)
qed

lemma insert_answer:
  assumes "db_context s = Some ctx" "parse_sql_text (Some sql) (Some zeroed_query) = (Some q, Inr ())"
    and "query_type q = QUERY_INSERT" "table_name q = Some n" "heap_ok (world_heap world)" "tmpfile_ok world"
    and run: "execute_query (world_allocator world) fs (Some q) (Some ctx) (Some []) = Some (Some ctx', fs', out, res)"
  shows "\<exists>r e. sql_service_execute world fs (Some s) (Some sql) = Some (Some (s\<lparr>db_context := Some ctx'\<rparr>), fs', r, e) \<and>
    (ok r \<longrightarrow> res = Inr () \<and> payload r = Some (cstr (insert_json n))) \<and>
    (heap_total (world_heap world) \<and> copy_granted world \<and> stream_fault_at world = None \<and> text_fits (length (insert_json n)) \<longrightarrow>
      (case res of
         Inr _ \<Rightarrow> ok r
       | Inl e' \<Rightarrow> \<not> ok r \<and> (length (message e') < SQL_ERROR_MESSAGE_SIZE \<longrightarrow> payload r = Some (cstr (error_json (trimmed (message e')))))))"
proof -
  have go: "sql_service_execute world fs (Some s) (Some sql) = do { (s, fs, r) \<leftarrow> execute_to_stream world fs s q; Some (Some s, fs, r) }"
    using assms(1-3,6) by (simp add: sql_service_execute_def)
  have failed: "\<exists>r e'. execute_to_stream world fs s q = Some (s\<lparr>db_context := Some ctx'\<rparr>, fs', r, e') \<and> \<not> ok r \<and>
      (heap_total (world_heap world) \<and> copy_granted world \<and> length (message e) < SQL_ERROR_MESSAGE_SIZE \<longrightarrow>
         payload r = Some (cstr (error_json (trimmed (message e)))))"
    if "execute_to_stream world fs s q = do { r \<leftarrow> error_result world e (message e); Some (s\<lparr>db_context := Some ctx'\<rparr>, fs', r) }" for e
    using error_result_text[OF assms(5), of e "message e"] error_text_fits[of "message e"] unfolding that by (auto split: option.splits)
  show ?thesis
  proof (cases res)
    case (Inl e)
    then have "execute_to_stream world fs s q = do { r \<leftarrow> error_result world e (message e); Some (s\<lparr>db_context := Some ctx'\<rparr>, fs', r) }"
      using run assms(1) by (simp add: execute_to_stream_def)
    from failed[OF this] show ?thesis using Inl by (auto simp: go)
  next
    case (Inr u)
    have out: "out = Some (''INSERT 1'' @ [NEWLINE])"
      using run assms(3) Inr execute_insert_output[of "world_allocator world" fs q ctx "[]"] by (auto simp: execute_query_def split: bind_splits)
    have cst: "cstr (''INSERT 1'' @ [NEWLINE]) = ''INSERT 1'' @ [NEWLINE]" by code_simp
    obtain p where p: "build_insert_payload world q (Some (''INSERT 1'' @ [NEWLINE])) = Some p"
      "case p of Inr s \<Rightarrow> s = cstr (insert_json n)
       | Inl e \<Rightarrow> \<not> copy_granted world \<or> \<not> heap_total (world_heap world) \<or> \<not> text_fits (length (insert_json n))"
      using insert_payload_text[OF assms(5,4)] by blast
    show ?thesis
    proof (cases "read_stream_payload world out")
      case (Inl e)
      then have "execute_to_stream world fs s q = do { r \<leftarrow> error_result world e (message e); Some (s\<lparr>db_context := Some ctx'\<rparr>, fs', r) }"
        using run assms(1) Inr by (simp add: execute_to_stream_def)
      note stopped = failed[OF this]
      have "stream_fault_at world \<noteq> None" using Inl out by (cases "stream_fault_at world") (auto simp: read_stream_payload_def)
      then show ?thesis using stopped by (auto simp: go)
    next
      case msg: (Inr msg)
      then have msg: "read_stream_payload world out = Inr (''INSERT 1'' @ [NEWLINE])"
        using out cst by (auto simp: read_stream_payload_def split: option.splits stream_fault.splits)
      show ?thesis
      proof (cases p)
        case (Inl e)
        then have "execute_to_stream world fs s q = do { r \<leftarrow> error_result world e (message e); Some (s\<lparr>db_context := Some ctx'\<rparr>, fs', r) }"
          using run assms(1) Inr msg p(1) by (simp add: execute_to_stream_def)
        from failed[OF this] show ?thesis using Inl p(2) by (auto simp: go)
      next
        case (Inr answer)
        then show ?thesis using run assms(1) \<open>res = Inr u\<close> msg p by (simp add: go execute_to_stream_def)
      qed
    qed
  qed
qed

section \<open>Properties\<close>

text \<open>
  C37. The lock matches the statement: the text of every statement the parser accepts is classified as a
  read when it is a SELECT and as a write when it is an INSERT, so no insertion ever runs under the read
  lock.
\<close>

theorem classify_agrees_with_parser:
  assumes "parse_sql_text (Some sql) (Some zeroed_query) = (Some q, Inr ())" "cstring sql"
  shows "sql_service_classify_operation (Some sql) =
    ((case query_type q of QUERY_SELECT \<Rightarrow> SQL_OPERATION_READ | QUERY_INSERT \<Rightarrow> SQL_OPERATION_WRITE), Inr ())"
  using classify_parsed[OF assms] .

theorem classify_agrees_with_parser_witness:
  "parse_sql_text (Some '' select * from users'') (Some zeroed_query) = (Some (select_query ''users'' None), Inr ()) \<and>
   sql_service_classify_operation (Some '' select * from users'') = (SQL_OPERATION_READ, Inr ())"
proof -
  have "parse_sql_text (Some '' select * from users'') (Some zeroed_query) = (Some (select_query ''users'' None), Inr ())" by code_simp
  moreover have "cstring '' select * from users''" "query_type (select_query ''users'' None) = QUERY_SELECT" by code_simp+
  ultimately show ?thesis using classify_agrees_with_parser by fastforce
qed

text \<open>
  The converse fails: the classification skips comments and empty statements, which the parser refuses.
\<close>

theorem comment_is_classified_but_not_parsed:
  "sql_service_classify_operation (Some (''-- all users'' @ [NEWLINE] @ ''SELECT * FROM users'')) = (SQL_OPERATION_READ, Inr ()) \<and>
   snd (parse_sql_text (Some (''-- all users'' @ [NEWLINE] @ ''SELECT * FROM users'')) (Some zeroed_query)) = fail ''unsupported SQL statement''"
  by code_simp


definition sample_world :: service_world where
  "sample_world =
     \<lparr>world_allocator = sample_allocator 20, world_heap = sample_heap, copy_granted = True, service_granted = True,
      tmpfile_ok = True, stream_fault_at = None\<rparr>"


text \<open>
  C36. An INSERT is answered with what the executor did: the context and the files afterwards are those the
  executor leaves, a result marked ok implies that the row was inserted, and when memory and the temporary
  file hold out the answer is the insertion object for an inserted row and the message of the executor for
  a refused one.
\<close>

theorem service_answers_insert:
  assumes "db_context s = Some ctx" "parse_sql_text (Some sql) (Some zeroed_query) = (Some q, Inr ())"
    and "query_type q = QUERY_INSERT" "table_name q = Some n" "heap_ok (world_heap world)" "tmpfile_ok world"
    and run: "execute_query (world_allocator world) fs (Some q) (Some ctx) (Some []) = Some (Some ctx', fs', out, res)"
  shows "\<exists>r e. sql_service_execute world fs (Some s) (Some sql) = Some (Some (s\<lparr>db_context := Some ctx'\<rparr>), fs', r, e) \<and>
    (ok r \<longrightarrow> res = Inr () \<and> payload r = Some (cstr (insert_json n))) \<and>
    (heap_total (world_heap world) \<and> copy_granted world \<and> stream_fault_at world = None \<and> text_fits (length (insert_json n)) \<longrightarrow>
      (case res of
         Inr _ \<Rightarrow> ok r
       | Inl e' \<Rightarrow> \<not> ok r \<and> (length (message e') < SQL_ERROR_MESSAGE_SIZE \<longrightarrow> payload r = Some (cstr (error_json (trimmed (message e')))))))"
  using insert_answer[OF assms] .

theorem service_answers_insert_witness:
  \<open>\<exists>s s' fs' r e. db_context s = Some \<lparr>ctx_db_root = ''db'', ctx_tables = []\<rparr> \<and>
     sql_service_execute sample_world (sample_db []) (Some s) (Some ''INSERT INTO users VALUES ('Bob')'') = Some (Some s', fs', r, e) \<and>
     ok r \<and> payload r = Some ''{"ok":true,"type":"insert","table":"users","affected_rows":1,"message":"INSERT 1"}''\<close>
proof -
  let ?ctx = "\<lparr>ctx_db_root = ''db'', ctx_tables = []\<rparr>"
  let ?s = "\<lparr>db_context = Some ?ctx, service_db_root = ''db''\<rparr>"
  let ?q = "insert_query ''users'' [''Bob'']"
  have parse: "parse_sql_text (Some ''INSERT INTO users VALUES ('Bob')'') (Some zeroed_query) = (Some ?q, Inr ())"
    "query_type ?q = QUERY_INSERT" "table_name ?q = Some ''users''" by code_simp+
  have w: "heap_ok (world_heap sample_world)" "tmpfile_ok sample_world" "heap_total (world_heap sample_world)" "copy_granted sample_world"
    "stream_fault_at sample_world = None" "world_allocator sample_world = sample_allocator 20" by (simp_all add: sample_world_def)
  have "case execute_query (sample_allocator 20) (sample_db []) (Some ?q) (Some ?ctx) (Some []) of
      Some (Some _, _, _, Inr _) \<Rightarrow> True | _ \<Rightarrow> False" by code_simp
  then obtain ctx' fs' out where run: "execute_query (world_allocator sample_world) (sample_db []) (Some ?q) (Some ?ctx) (Some []) = Some (Some ctx', fs', out, Inr ())"
    unfolding w(6) by (auto split: option.splits sum.splits prod.splits)
  have json: "cstr (insert_json ''users'') =
      ''{\"ok\":true,\"type\":\"insert\",\"table\":\"users\",\"affected_rows\":1,\"message\":\"INSERT 1\"}''"
    "length (insert_json ''users'') \<le> 100" by code_simp+
  from this(2) have fits: "text_fits (length (insert_json ''users''))" by (simp add: text_fits_def)
  from service_answers_insert[OF _ parse w(1,2) run, of ?s] show ?thesis using w(3-5) fits
    unfolding json(1) by (intro exI[of _ ?s] exI[of _ "?s\<lparr>db_context := Some ctx'\<rparr>"] exI[of _ fs']) auto
qed

end
