(* ===== verification/Http_Protocol.thy ===== *)
theory Http_Protocol
  imports Common
begin

text \<open>
  \<^verbatim>\<open>src/server/request/http_protocol.c\<close> and \<^verbatim>\<open>include/http_protocol.h\<close>: reading a request and writing a
  response.

  A position in a text is the number of bytes before it. The body of a response is the memory its
  pointer refers to, up to the terminating NUL; copying more than that is the value \<open>None\<close>.
\<close>

section \<open>Searching\<close>

text \<open>\<open>strstr\<close>, as the number of bytes before the first occurrence; with a text of one byte it is \<open>strchr\<close>.\<close>

fun find_text :: "string \<Rightarrow> string \<Rightarrow> nat option" where
  "find_text [] pat = (if pat = [] then Some 0 else None)"
| "find_text (c # cs) pat =
     (if prefix pat (c # cs) then Some 0 else (case find_text cs pat of None \<Rightarrow> None | Some n \<Rightarrow> Some (Suc n)))"

abbreviation (input) CRLF :: string where
  "CRLF \<equiv> [RETURN, NEWLINE]"

definition find_request_line_end :: "string \<Rightarrow> nat option" where
  "find_request_line_end raw_request =
     (let crlf = find_text raw_request CRLF; lf = find_text raw_request [NEWLINE] in
      if crlf \<noteq> None \<and> (lf = None \<or> the crlf < the lf) then crlf else lf)"

definition find_body_start :: "string \<Rightarrow> nat option" where
  "find_body_start raw_request =
     (let crlf = find_text raw_request (CRLF @ CRLF); lf = find_text raw_request [NEWLINE, NEWLINE] in
      if crlf \<noteq> None \<and> (lf = None \<or> the crlf < the lf) then Some (the crlf + 4)
      else if lf \<noteq> None then Some (the lf + 2)
      else None)"

section \<open>Requests\<close>

record HttpRequest =
  http_method :: string
  http_path :: string
  request_body :: "string option"
  request_body_length :: nat

record HttpResponse =
  status_code :: int
  content_type :: "string option"
  response_body :: "string option"
  response_body_length :: nat

definition copy_request_token :: "nat \<Rightarrow> string \<Rightarrow> string \<Rightarrow> string result" where
  "copy_request_token dest_size token label =
     (if length token = 0 then fail (label @ '' must not be empty'')
      else if length token \<ge> dest_size then fail (label @ '' is too long'')
      else Inr token)"

definition blank :: "char \<Rightarrow> bool" where
  "blank c \<longleftrightarrow> c = CHR '' '' \<or> c = TAB"

definition http_parse_request :: "bool \<Rightarrow> string option \<Rightarrow> HttpRequest result" where
  "http_parse_request body_granted raw_request =
     (case raw_request of
        None \<Rightarrow> fail ''http_parse_request received invalid arguments''
      | Some rq \<Rightarrow>
          if peek rq = NUL then fail ''raw HTTP request must not be empty''
          else (case find_request_line_end rq of
             None \<Rightarrow> fail ''HTTP request line must end with newline''
           | Some line_end \<Rightarrow>
               (let request_line = take line_end rq;
                    rest = dropWhile blank (dropWhile (\<lambda>c. \<not> blank c) request_line) in
                case copy_request_token 16 (takeWhile (\<lambda>c. \<not> blank c) request_line) ''HTTP method'' of
                  Inl e \<Rightarrow> Inl e
                | Inr m \<Rightarrow>
                    (case copy_request_token 128 (takeWhile (\<lambda>c. \<not> blank c) rest) ''HTTP path'' of
                       Inl e \<Rightarrow> Inl e
                     | Inr p \<Rightarrow>
                         (case find_body_start rq of
                            None \<Rightarrow> Inr \<lparr>http_method = m, http_path = p, request_body = None, request_body_length = 0\<rparr>
                          | Some body_start \<Rightarrow>
                              if peek (drop body_start rq) = NUL
                              then Inr \<lparr>http_method = m, http_path = p, request_body = None, request_body_length = 0\<rparr>
                              else if \<not> body_granted then fail ''failed to allocate HTTP request body''
                              else Inr \<lparr>http_method = m, http_path = p, request_body = Some (drop body_start rq),
                                        request_body_length = length (drop body_start rq)\<rparr>)))))"

definition http_request_destroy :: "HttpRequest \<Rightarrow> HttpRequest" where
  "http_request_destroy request = \<lparr>http_method = [], http_path = [], request_body = None, request_body_length = 0\<rparr>"

section \<open>Responses\<close>

definition http_reason_phrase :: "int \<Rightarrow> string" where
  "http_reason_phrase code =
     (if code = 200 then ''OK'' else if code = 400 then ''Bad Request'' else if code = 404 then ''Not Found''
      else if code = 405 then ''Method Not Allowed'' else if code = 500 then ''Internal Server Error''
      else if code = 503 then ''Service Unavailable'' else ''Unknown'')"

definition response_header :: "int \<Rightarrow> string \<Rightarrow> string \<Rightarrow> nat \<Rightarrow> string" where
  "response_header code reason content len =
     ''HTTP/1.1 '' @ show_int code @ '' '' @ reason @ CRLF @
     ''Content-Type: '' @ content @ CRLF @
     ''Content-Length: '' @ show_nat len @ CRLF @
     ''Connection: close'' @ CRLF @ CRLF"

definition http_serialize_response :: "bool \<Rightarrow> HttpResponse option \<Rightarrow> string result option" where
  "http_serialize_response buffer_granted response =
     (case response of
        None \<Rightarrow> Some (fail ''http_serialize_response received invalid arguments'')
      | Some r \<Rightarrow>
          if response_body r = None \<and> response_body_length r \<noteq> 0
          then Some (fail ''HTTP response body pointer/length are inconsistent'')
          else (let body = (case response_body r of None \<Rightarrow> [] | Some b \<Rightarrow> b);
                    body_length = (if response_body r \<noteq> None \<and> response_body_length r = 0 then length body else response_body_length r);
                    content = (case content_type r of None \<Rightarrow> ''text/plain; charset=utf-8'' | Some c \<Rightarrow> c);
                    header = response_header (status_code r) (http_reason_phrase (status_code r)) content body_length in
                if int (length header) > INT_MAX then Some (fail ''failed to calculate HTTP response size'')
                else if \<not> buffer_granted then Some (fail ''failed to allocate HTTP response buffer'')
                else if body_length > length body then None
                else Some (Inr (header @ take body_length body))))"

definition http_response_destroy :: "HttpResponse \<Rightarrow> HttpResponse" where
  "http_response_destroy response = \<lparr>status_code = 0, content_type = None, response_body = None, response_body_length = 0\<rparr>"

section \<open>Lemmas on searching\<close>

lemma find_text_prefix: "prefix pat s \<Longrightarrow> find_text s pat = Some 0"
  by (cases s) auto

lemma find_text_skip: "a \<notin> set u \<Longrightarrow> find_text (u @ v) (a # pat) = map_option (\<lambda>n. length u + n) (find_text v (a # pat))"
proof (induction u)
  case Nil
  then show ?case by (cases "find_text v (a # pat)") simp_all
next
  case (Cons c u)
  then show ?case by (cases "find_text v (a # pat)") (auto split: option.splits)
qed

lemma find_text_Some:
  "find_text s pat = Some n \<Longrightarrow> n \<le> length s \<and> prefix pat (drop n s) \<and> (\<forall>i<n. \<not> prefix pat (drop i s))"
proof (induction s arbitrary: n)
  case (Cons c s)
  show ?case
  proof (cases "prefix pat (c # s)")
    case False
    then obtain m where "find_text s pat = Some m" "n = Suc m" using Cons.prems by (auto split: option.splits)
    then show ?thesis using Cons.IH[of m] False by (auto simp: less_Suc_eq_0_disj)
  qed (use Cons.prems in simp)
qed (auto split: if_splits)

lemma find_text_None: "find_text s pat = None \<Longrightarrow> \<not> prefix pat (drop i s)"
proof (induction s arbitrary: i)
  case (Cons c s)
  then show ?case by (cases i) (auto split: if_splits option.splits)
qed (auto split: if_splits)

lemma find_text_least:
  assumes "prefix pat (drop n s)" "\<forall>i<n. \<not> prefix pat (drop i s)"
  shows "find_text s pat = Some n"
proof (cases "find_text s pat")
  case None
  then show ?thesis using assms(1) find_text_None by blast
next
  case (Some m)
  then show ?thesis using assms find_text_Some[OF Some] by (metis linorder_neqE_nat)
qed

section \<open>Lines\<close>

text \<open>The head of a message: lines that are not empty, each with its line end, and the blank line.\<close>

definition head_text :: "string list \<Rightarrow> string" where
  "head_text ls = concat (map (\<lambda>l. l @ CRLF) ls) @ CRLF"

definition head_line :: "string \<Rightarrow> bool" where
  "head_line l \<longleftrightarrow> l \<noteq> [] \<and> RETURN \<notin> set l \<and> NEWLINE \<notin> set l"

lemma head_text_Cons: "head_text (l # ls) = l @ CRLF @ head_text ls"
  by (simp add: head_text_def)

lemma head_text_start: "list_all head_line ls \<Longrightarrow> \<exists>c r. head_text ls = c # r \<and> (ls \<noteq> [] \<longrightarrow> c \<noteq> RETURN) \<and> c \<noteq> NEWLINE"
  by (cases ls) (auto simp: head_text_def head_line_def neq_Nil_conv)

lemma find_blank_crlf:
  "list_all head_line ls \<Longrightarrow> ls \<noteq> [] \<Longrightarrow> find_text (head_text ls @ b) (CRLF @ CRLF) = Some (length (head_text ls) - 4)"
proof (induction ls)
  case (Cons l ls)
  have skip: "find_text (l @ CRLF @ head_text ls @ b) (CRLF @ CRLF) =
      map_option (\<lambda>n. length l + n) (find_text (CRLF @ head_text ls @ b) (CRLF @ CRLF))"
    using Cons.prems find_text_skip[of RETURN l _ "NEWLINE # CRLF"] by (simp add: head_line_def)
  show ?case
  proof (cases "ls = []")
    case True
    then show ?thesis using skip by (simp add: head_text_Cons) (simp add: head_text_def)
  next
    case False
    then obtain c r where c: "head_text ls = c # r" "c \<noteq> RETURN" using head_text_start[of ls] Cons.prems by auto
    have "2 \<le> length (head_text ls) \<and> 4 \<le> length (head_text ls)" using False by (cases ls) (auto simp: head_text_def)
    then show ?thesis using skip Cons False c by (auto simp: head_text_Cons)
  qed
qed simp

lemma find_blank_lf:
  "list_all head_line ls \<Longrightarrow> find_text (head_text ls @ b) [NEWLINE, NEWLINE] = map_option (\<lambda>n. length (head_text ls) - 2 + n) (find_text (CRLF @ b) [NEWLINE, NEWLINE])"
proof (induction ls)
  case Nil
  then show ?case by (simp add: head_text_def option.map_ident)
next
  case (Cons l ls)
  obtain c r where c: "head_text ls = c # r" "c \<noteq> NEWLINE" using head_text_start[of ls] Cons.prems by auto
  have "2 \<le> length (head_text ls)" by (simp add: head_text_def)
  moreover have "find_text (l @ CRLF @ head_text ls @ b) [NEWLINE, NEWLINE] =
      map_option (\<lambda>n. length l + n) (find_text (CRLF @ head_text ls @ b) [NEWLINE, NEWLINE])"
    using Cons.prems find_text_skip[of NEWLINE l _ "[NEWLINE]"] by (simp add: head_line_def)
  ultimately show ?case using Cons c
    by (cases "find_text (CRLF @ b) [NEWLINE, NEWLINE]") (auto simp: head_text_Cons)
qed

lemma find_body_start_head:
  assumes "list_all head_line ls" "ls \<noteq> []"
  shows "find_body_start (head_text ls @ b) = Some (length (head_text ls))"
proof -
  have len: "4 < length (head_text ls)" using assms by (cases ls) (auto simp: head_text_def head_line_def neq_Nil_conv)
  then show ?thesis
    using find_blank_crlf[OF assms, of b] find_blank_lf[OF assms(1), of b]
    by (cases "find_text (CRLF @ b) [NEWLINE, NEWLINE]") (auto simp: find_body_start_def Let_def)
qed

lemma find_line_end_head:
  assumes "head_line l"
  shows "find_request_line_end (head_text (l # ls) @ b) = Some (length l)"
proof -
  have "find_text (l @ CRLF @ v) CRLF = Some (length l)" for v
    using assms find_text_skip[of RETURN l "CRLF @ v" "[NEWLINE]"] by (simp add: head_line_def)
  moreover have "find_text (l @ CRLF @ v) [NEWLINE] = Some (length l + 1)" for v
    using assms find_text_skip[of NEWLINE l "CRLF @ v" "[]"] by (simp add: head_line_def)
  ultimately show ?thesis by (simp add: find_request_line_end_def head_text_Cons)
qed

section \<open>The head of a response\<close>

lemma show_nat_length: "0 < k \<Longrightarrow> n < 10 ^ k \<Longrightarrow> length (show_nat n) \<le> k"
proof (induction k arbitrary: n)
  case (Suc k)
  show ?case
  proof (cases "n < 10")
    case False
    then have "0 < k" using Suc.prems by (cases k) auto
    moreover have "n div 10 < 10 ^ k" using Suc.prems by (simp add: less_mult_imp_div_less mult.commute)
    ultimately have "length (show_nat (n div 10)) \<le> k" using Suc.IH by blast
    then show ?thesis using False by (subst show_nat.simps) simp
  qed (subst show_nat.simps, simp)
qed simp

lemma response_header_head:
  "response_header code reason content n =
     head_text [''HTTP/1.1 '' @ show_int code @ '' '' @ reason, ''Content-Type: '' @ content, ''Content-Length: '' @ show_nat n, ''Connection: close'']"
  by (simp add: response_header_def head_text_def)

lemma show_status: "show_int 200 = ''200''" "show_int 400 = ''400''"
  by code_simp+

lemma serialize_json:
  assumes "code \<in> {200, 400}" "n = length body" "n < 10 ^ 20"
  shows "http_serialize_response True (Some \<lparr>status_code = code, content_type = Some ''application/json; charset=utf-8'',
      response_body = Some body, response_body_length = n\<rparr>) =
    Some (Inr (response_header code (http_reason_phrase code) ''application/json; charset=utf-8'' n @ body))"
proof -
  have "length (show_int code) = 3" "length (http_reason_phrase code) \<le> 11"
    using assms(1) by (auto simp: show_status http_reason_phrase_def)
  moreover have "length (show_nat n) \<le> 20" using assms(3) by (intro show_nat_length) auto
  ultimately have "length (response_header code (http_reason_phrase code) ''application/json; charset=utf-8'' n) \<le> 1000"
    by (simp add: response_header_def)
  then show ?thesis using assms(2) by (auto simp: http_serialize_response_def Let_def)
qed

lemma cstring_digits: "list_all isdigit s \<Longrightarrow> cstring s"
  by (auto simp: cstring_def list_all_iff isdigit_def)

lemma cstring_response_header:
  "code \<in> {200, 400} \<Longrightarrow> cstring (response_header code (http_reason_phrase code) ''application/json; charset=utf-8'' n)"
  using cstring_digits[OF show_nat_digits[of n]]
  by (auto simp: response_header_def http_reason_phrase_def show_status)

section \<open>Properties\<close>

definition http_token :: "nat \<Rightarrow> string \<Rightarrow> bool" where
  "http_token dest_size t \<longleftrightarrow> t \<noteq> [] \<and> length t < dest_size \<and> NUL \<notin> set t \<and> \<not> list_ex blank t \<and> RETURN \<notin> set t \<and> NEWLINE \<notin> set t"

lemma parse_written:
  assumes "http_token 16 m" "http_token 128 p" "RETURN \<notin> set version" "NEWLINE \<notin> set version" "list_all head_line headers" "cstring body"
  shows "http_parse_request True (Some (head_text ((m @ '' '' @ p @ '' '' @ version) # headers) @ body)) =
    Inr \<lparr>http_method = m, http_path = p, request_body = (if body = [] then None else Some body), request_body_length = length body\<rparr>"
proof -
  let ?l = "m @ '' '' @ p @ '' '' @ version"
  let ?r = "head_text (?l # headers) @ body"
  have l: "head_line ?l" using assms(1-4) by (auto simp: head_line_def http_token_def)
  have "?r = ?l @ CRLF @ head_text headers @ body" by (simp add: head_text_Cons)
  then have t: "take (length ?l) ?r = ?l" by simp
  have m: "takeWhile (\<lambda>c. \<not> blank c) ?l = m" "dropWhile (\<lambda>c. \<not> blank c) ?l = '' '' @ p @ '' '' @ version"
    using assms(1) dropWhile_app_stop[of "\<lambda>c. \<not> blank c" m "'' '' @ p @ '' '' @ version"] by (simp_all add: http_token_def list_ex_iff list_all_iff blank_def)
  have "\<not> blank (hd p)" "p \<noteq> []" using assms(2) by (auto simp: http_token_def list_ex_iff)
  then have d: "dropWhile blank ('' '' @ p @ '' '' @ version) = p @ '' '' @ version" by (cases p) (simp_all add: blank_def)
  have p: "takeWhile (\<lambda>c. \<not> blank c) (p @ '' '' @ version) = p"
    using assms(2) dropWhile_app_stop[of "\<lambda>c. \<not> blank c" p "'' '' @ version"] by (simp add: http_token_def list_ex_iff list_all_iff blank_def)
  have "peek ?r \<noteq> NUL" using assms(1) by (cases m) (auto simp: http_token_def head_text_Cons)
  moreover have "find_body_start ?r = Some (length (head_text (?l # headers)))"
    using l assms(5) by (intro find_body_start_head) simp_all
  moreover have "peek body = NUL \<longleftrightarrow> body = []" using assms(6) by (rule cstring_peek)
  ultimately show ?thesis
    using find_line_end_head[OF l, of headers body] t m d p assms(1,2)
    by (simp add: http_parse_request_def copy_request_token_def http_token_def del: append_assoc)
qed

text \<open>
  C38. A request is read back as it was written: for every method and path that fit their buffers and
  contain neither blanks nor line ends, every version, all header lines and every body, parsing the text
  of the request gives the method, the path and exactly the body.
\<close>

theorem http_request_round_trip:
  assumes "http_token 16 m" "http_token 128 p" "RETURN \<notin> set version" "NEWLINE \<notin> set version" "list_all head_line headers" "cstring body"
  shows "http_parse_request True (Some (head_text ((m @ '' '' @ p @ '' '' @ version) # headers) @ body)) =
    Inr \<lparr>http_method = m, http_path = p, request_body = (if body = [] then None else Some body), request_body_length = length body\<rparr>"
  using parse_written[OF assms] .

theorem http_request_round_trip_witness:
  "http_parse_request True (Some (''POST /query HTTP/1.1'' @ CRLF @ ''Content-Length: 19'' @ CRLF @ CRLF @ ''SELECT * FROM users'')) =
     Inr \<lparr>http_method = ''POST'', http_path = ''/query'', request_body = Some ''SELECT * FROM users'', request_body_length = 19\<rparr>"
proof -
  have "http_token 16 ''POST''" "http_token 128 ''/query''" "list_all head_line [''Content-Length: 19'']" "cstring ''SELECT * FROM users''" by code_simp+
  then show ?thesis
    using http_request_round_trip[of "''POST''" "''/query''" "''HTTP/1.1''" "[''Content-Length: 19'']" "''SELECT * FROM users''"]
    by (simp add: head_text_def)
qed

end
