(* ===== verification/Db_Guard.thy ===== *)
theory Db_Guard
  imports Common
begin

text \<open>
  \<^verbatim>\<open>src/server/concurrency/db_guard.c\<close>: the spinning reader/writer lock around the database.

  Every call of \<open>db_guard_execute_read\<close> or \<open>db_guard_execute_write\<close> is a thread; its program counter says
  which access comes next, and one step of the system is one access of one thread, in any interleaving.
  The atomic accesses have the memory orders of the sources, \<open>acquire\<close>, \<open>release\<close> and \<open>acq_rel\<close>, which are
  weaker than sequential consistency: an atomic object is the list of all values written to it, in
  modification order; a thread has a view, for every object the position of the oldest value it may still
  read; a load returns any value from there on, and an acquiring load of a value takes over the view
  of the thread that released it. A read-modify-write reads the latest value. On some platforms (the
  locked instructions of x86) it is a full fence as well; \<open>platform_fence\<close> says whether it is.

  The work function reads the shared data when it starts and stores what it computed from that copy in
  a later step, so that a second thread in the section would be noticed; the data is not atomic, and a
  thread may read any version its view admits. The work under the read lock may store too: the request
  handler loads tables under it. A weak compare-and-exchange may fail for no reason. A thread here has
  a guard and a work function; the checks for null arguments, which return an error before the first
  access, are not part of its steps.
\<close>

section \<open>Atomic objects\<close>

datatype location = Reader_Count | Writer_Active | Writers_Waiting | Shared_Data

type_synonym view = "location \<Rightarrow> nat"

definition join_views :: "view \<Rightarrow> view \<Rightarrow> view" where
  "join_views v w = (\<lambda>l. max (v l) (w l))"

text \<open>A written value, and what a thread that acquires it comes to know.\<close>

record message =
  written :: int
  known :: view

type_synonym atomic_int = "message list"

definition atomic_init :: "int \<Rightarrow> atomic_int" where
  "atomic_init n = [\<lparr>written = n, known = (\<lambda>_. 0)\<rparr>]"

definition latest :: "atomic_int \<Rightarrow> int" where
  "latest c = written (last c)"

text \<open>
  \<open>atomic_load_explicit\<close> with \<open>memory_order_acquire\<close>: \<open>lag\<close> says how far behind the latest value the load
  is, as far as the view allows.
\<close>

definition atomic_load :: "location \<Rightarrow> atomic_int \<Rightarrow> nat \<Rightarrow> view \<Rightarrow> int \<times> view" where
  "atomic_load l c lag v =
     (let i = max (v l) (length c - 1 - lag) in (written (c ! i), join_views (v(l := i)) (known (c ! i))))"

datatype memory_order = Acquire | Release | Acq_Rel

text \<open>
  \<open>atomic_fetch_add_explicit\<close>, and \<open>atomic_fetch_sub_explicit\<close> with a negative \<open>k\<close>. What the previous value
  made known stays known through it, also when it does not release (a release sequence).
\<close>

definition atomic_fetch_add :: "memory_order \<Rightarrow> location \<Rightarrow> int \<Rightarrow> atomic_int \<Rightarrow> view \<Rightarrow> atomic_int \<times> view" where
  "atomic_fetch_add order l k c v =
     (let m = last c; v' = (if order = Release then v else join_views v (known m))(l := length c);
          carried = (if order = Acquire then (known m)(l := length c) else join_views v' (known m)) in
      (c @ [\<lparr>written = written m + k, known = carried\<rparr>], v'))"

text \<open>\<open>atomic_store_explicit\<close> with \<open>memory_order_release\<close>.\<close>

definition atomic_store :: "location \<Rightarrow> int \<Rightarrow> atomic_int \<Rightarrow> view \<Rightarrow> atomic_int \<times> view" where
  "atomic_store l n c v = (c @ [\<lparr>written = n, known = v(l := length c)\<rparr>], v(l := length c))"

text \<open>
  \<open>atomic_compare_exchange_weak_explicit\<close> from 0 to 1, with \<open>memory_order_acq_rel\<close> and, for a failure,
  \<open>memory_order_acquire\<close>: whether it succeeded. A failure reads a value as a load does.
\<close>

definition atomic_compare_exchange :: "bool \<Rightarrow> nat \<Rightarrow> location \<Rightarrow> atomic_int \<Rightarrow> view \<Rightarrow> bool \<times> atomic_int \<times> view" where
  "atomic_compare_exchange spurious lag l c v =
     (if latest c = 0 \<and> \<not> spurious
      then (let v' = (join_views v (known (last c)))(l := length c) in (True, c @ [\<lparr>written = 1, known = v'\<rparr>], v'))
      else (False, c, snd (atomic_load l c lag v)))"

text \<open>What a full fence adds to a read-modify-write: the views of all earlier fences, and from now on this one.\<close>

definition after_rmw :: "bool \<Rightarrow> view \<Rightarrow> view \<Rightarrow> view \<times> view" where
  "after_rmw rmw_fence fences v = (if rmw_fence then (join_views fences v, join_views fences v) else (fences, v))"

section \<open>The lock\<close>

record DbGuard =
  reader_count :: atomic_int
  writer_active :: atomic_int
  writers_waiting :: atomic_int

definition db_guard_create :: "bool \<Rightarrow> 'c option \<Rightarrow> DbGuard result" where
  "db_guard_create calloc_granted ctx =
     (case ctx of
        None \<Rightarrow> fail ''db_guard_create received NULL db context''
      | Some _ \<Rightarrow>
          if \<not> calloc_granted then fail ''db_guard_create failed to allocate guard''
          else Inr \<lparr>reader_count = atomic_init 0, writer_active = atomic_init 0, writers_waiting = atomic_init 0\<rparr>)"

datatype 'd guard_pc =
  Read_Load_Active | Read_Load_Waiting | Read_Enter | Read_Recheck_Active | Read_Recheck_Waiting | Read_Back_Off
| Read_Locked | Read_Working 'd | Read_Worked
| Write_Announce | Write_Swap | Write_Load_Readers | Write_Withdraw | Write_Back_Off
| Write_Locked | Write_Working 'd | Write_Worked
| Finished

text \<open>
  One atomic access of \<open>db_guard_lock_read\<close>: the lock, the view of the fences, the view of the thread and what
  the thread does next. The lock is taken when it is at \<open>Read_Locked\<close>.
\<close>

fun db_guard_lock_read ::
  "bool \<Rightarrow> nat \<Rightarrow> DbGuard \<Rightarrow> view \<Rightarrow> view \<Rightarrow> 'd guard_pc \<Rightarrow> DbGuard \<times> view \<times> view \<times> 'd guard_pc" where
  "db_guard_lock_read rmw_fence lag g fences v Read_Load_Active =
     (let (n, v) = atomic_load Writer_Active (writer_active g) lag v in
      (g, fences, v, if n \<noteq> 0 then Read_Load_Active else Read_Load_Waiting))"
| "db_guard_lock_read rmw_fence lag g fences v Read_Load_Waiting =
     (let (n, v) = atomic_load Writers_Waiting (writers_waiting g) lag v in
      (g, fences, v, if n \<noteq> 0 then Read_Load_Active else Read_Enter))"
| "db_guard_lock_read rmw_fence lag g fences v Read_Enter =
     (let (c, v) = atomic_fetch_add Acquire Reader_Count 1 (reader_count g) v; (fences, v) = after_rmw rmw_fence fences v in
      (g\<lparr>reader_count := c\<rparr>, fences, v, Read_Recheck_Active))"
| "db_guard_lock_read rmw_fence lag g fences v Read_Recheck_Active =
     (let (n, v) = atomic_load Writer_Active (writer_active g) lag v in
      (g, fences, v, if n = 0 then Read_Recheck_Waiting else Read_Back_Off))"
| "db_guard_lock_read rmw_fence lag g fences v Read_Recheck_Waiting =
     (let (n, v) = atomic_load Writers_Waiting (writers_waiting g) lag v in
      (g, fences, v, if n = 0 then Read_Locked else Read_Back_Off))"
| "db_guard_lock_read rmw_fence lag g fences v Read_Back_Off =
     (let (c, v) = atomic_fetch_add Release Reader_Count (- 1) (reader_count g) v; (fences, v) = after_rmw rmw_fence fences v in
      (g\<lparr>reader_count := c\<rparr>, fences, v, Read_Load_Active))"
| "db_guard_lock_read rmw_fence lag g fences v pc = (g, fences, v, pc)"

text \<open>One atomic access of \<open>db_guard_lock_write\<close>; the lock is taken at \<open>Write_Locked\<close>.\<close>

fun db_guard_lock_write ::
  "bool \<Rightarrow> bool \<Rightarrow> nat \<Rightarrow> DbGuard \<Rightarrow> view \<Rightarrow> view \<Rightarrow> 'd guard_pc \<Rightarrow> DbGuard \<times> view \<times> view \<times> 'd guard_pc" where
  "db_guard_lock_write rmw_fence spurious lag g fences v Write_Announce =
     (let (c, v) = atomic_fetch_add Acq_Rel Writers_Waiting 1 (writers_waiting g) v; (fences, v) = after_rmw rmw_fence fences v in
      (g\<lparr>writers_waiting := c\<rparr>, fences, v, Write_Swap))"
| "db_guard_lock_write rmw_fence spurious lag g fences v Write_Swap =
     (let (swapped, c, v) = atomic_compare_exchange spurious lag Writer_Active (writer_active g) v in
      if \<not> swapped then (g, fences, v, Write_Swap)
      else (let (fences, v) = after_rmw rmw_fence fences v in (g\<lparr>writer_active := c\<rparr>, fences, v, Write_Load_Readers)))"
| "db_guard_lock_write rmw_fence spurious lag g fences v Write_Load_Readers =
     (let (n, v) = atomic_load Reader_Count (reader_count g) lag v in
      (g, fences, v, if n = 0 then Write_Withdraw else Write_Back_Off))"
| "db_guard_lock_write rmw_fence spurious lag g fences v Write_Withdraw =
     (let (c, v) = atomic_fetch_add Acq_Rel Writers_Waiting (- 1) (writers_waiting g) v; (fences, v) = after_rmw rmw_fence fences v in
      (g\<lparr>writers_waiting := c\<rparr>, fences, v, Write_Locked))"
| "db_guard_lock_write rmw_fence spurious lag g fences v Write_Back_Off =
     (let (c, v) = atomic_store Writer_Active 0 (writer_active g) v in (g\<lparr>writer_active := c\<rparr>, fences, v, Write_Swap))"
| "db_guard_lock_write rmw_fence spurious lag g fences v pc = (g, fences, v, pc)"

definition db_guard_unlock_read :: "bool \<Rightarrow> DbGuard \<Rightarrow> view \<Rightarrow> view \<Rightarrow> DbGuard \<times> view \<times> view" where
  "db_guard_unlock_read rmw_fence g fences v =
     (let (c, v) = atomic_fetch_add Release Reader_Count (- 1) (reader_count g) v in
      (g\<lparr>reader_count := c\<rparr>, after_rmw rmw_fence fences v))"

definition db_guard_unlock_write :: "DbGuard \<Rightarrow> view \<Rightarrow> DbGuard \<times> view" where
  "db_guard_unlock_write g v =
     (let (c, v) = atomic_store Writer_Active 0 (writer_active g) v in (g\<lparr>writer_active := c\<rparr>, v))"

section \<open>Threads\<close>

text \<open>
  The versions of the shared data, oldest first, the threads and their views by number, and the writers that
  have stored their result, in the order in which they did.
\<close>

record 'd guard_system =
  guard :: DbGuard
  fence_view :: view
  versions :: "'d list"
  threads :: "'d guard_pc list"
  views :: "view list"
  committed :: "nat list"

abbreviation database :: "'d guard_system \<Rightarrow> 'd" where
  "database s \<equiv> last (versions s)"

definition move_thread :: "nat \<Rightarrow> DbGuard \<Rightarrow> view \<Rightarrow> view \<Rightarrow> 'd guard_pc \<Rightarrow> 'd guard_system \<Rightarrow> 'd guard_system" where
  "move_thread t g fences v pc s = s\<lparr>guard := g, fence_view := fences, views := (views s)[t := v], threads := (threads s)[t := pc]\<rparr>"

text \<open>The two accesses of a work function to the shared data: a copy of some version, and a new version.\<close>

definition read_data :: "nat \<Rightarrow> nat \<Rightarrow> ('d \<Rightarrow> 'd guard_pc) \<Rightarrow> 'd guard_system \<Rightarrow> 'd guard_system" where
  "read_data lag t pc s =
     (let v = views s ! t; i = max (v Shared_Data) (length (versions s) - 1 - lag) in
      move_thread t (guard s) (fence_view s) (v(Shared_Data := i)) (pc (versions s ! i)) s)"

definition write_data :: "nat \<Rightarrow> 'd \<Rightarrow> 'd guard_pc \<Rightarrow> 'd guard_system \<Rightarrow> 'd guard_system" where
  "write_data t d pc s =
     (move_thread t (guard s) (fence_view s) ((views s ! t)(Shared_Data := length (versions s))) pc s)\<lparr>versions := versions s @ [d]\<rparr>"

text \<open>
  The reading thread: lock, work, unlock. \<open>look t\<close> is what the work function of thread \<open>t\<close> makes of the data;
  nothing is stored when that is what it was.
\<close>

definition db_guard_execute_read ::
  "bool \<Rightarrow> (nat \<Rightarrow> 'd \<Rightarrow> 'd) \<Rightarrow> nat \<Rightarrow> nat \<Rightarrow> 'd guard_system \<Rightarrow> 'd guard_system" where
  "db_guard_execute_read rmw_fence look lag t s =
     (case threads s ! t of
        Read_Locked \<Rightarrow> read_data lag t Read_Working s
      | Read_Working copy \<Rightarrow>
          if look t copy = copy then s\<lparr>threads := (threads s)[t := Read_Worked]\<rparr> else write_data t (look t copy) Read_Worked s
      | Read_Worked \<Rightarrow>
          (let (g, fences, v) = db_guard_unlock_read rmw_fence (guard s) (fence_view s) (views s ! t) in move_thread t g fences v Finished s)
      | pc \<Rightarrow>
          (let (g, fences, v, pc) = db_guard_lock_read rmw_fence lag (guard s) (fence_view s) (views s ! t) pc in move_thread t g fences v pc s))"

text \<open>The writing thread: lock, work on the copy, store the result, unlock.\<close>

definition db_guard_execute_write ::
  "bool \<Rightarrow> (nat \<Rightarrow> 'd \<Rightarrow> 'd) \<Rightarrow> bool \<Rightarrow> nat \<Rightarrow> nat \<Rightarrow> 'd guard_system \<Rightarrow> 'd guard_system" where
  "db_guard_execute_write rmw_fence work spurious lag t s =
     (case threads s ! t of
        Write_Locked \<Rightarrow> read_data lag t Write_Working s
      | Write_Working copy \<Rightarrow> (write_data t (work t copy) Write_Worked s)\<lparr>committed := committed s @ [t]\<rparr>
      | Write_Worked \<Rightarrow>
          (let (g, v) = db_guard_unlock_write (guard s) (views s ! t) in move_thread t g (fence_view s) v Finished s)
      | pc \<Rightarrow>
          (let (g, fences, v, pc) = db_guard_lock_write rmw_fence spurious lag (guard s) (fence_view s) (views s ! t) pc
           in move_thread t g fences v pc s))"

fun reading :: "'d guard_pc \<Rightarrow> bool" where
  "reading Read_Load_Active = True"
| "reading Read_Load_Waiting = True"
| "reading Read_Enter = True"
| "reading Read_Recheck_Active = True"
| "reading Read_Recheck_Waiting = True"
| "reading Read_Back_Off = True"
| "reading Read_Locked = True"
| "reading (Read_Working d) = True"
| "reading Read_Worked = True"
| "reading pc = False"

text \<open>What does not change from step to step: the platform and the work functions of the threads.\<close>

record 'd guard_run =
  platform_fence :: bool
  look_fn :: "nat \<Rightarrow> 'd \<Rightarrow> 'd"
  work_fn :: "nat \<Rightarrow> 'd \<Rightarrow> 'd"

definition thread_step :: "'d guard_run \<Rightarrow> bool \<Rightarrow> nat \<Rightarrow> nat \<Rightarrow> 'd guard_system \<Rightarrow> 'd guard_system" where
  "thread_step run spurious lag t s =
     (if reading (threads s ! t) then db_guard_execute_read (platform_fence run) (look_fn run) lag t s
      else db_guard_execute_write (platform_fence run) (work_fn run) spurious lag t s)"

inductive guard_step :: "'d guard_run \<Rightarrow> 'd guard_system \<Rightarrow> 'd guard_system \<Rightarrow> bool" for run where
  step: "t < length (threads s) \<Longrightarrow> guard_step run s (thread_step run spurious lag t s)"

text \<open>Threads that have not started: a reader for \<open>False\<close>, a writer for \<open>True\<close>.\<close>

definition guard_start :: "'d \<Rightarrow> bool list \<Rightarrow> 'd guard_system" where
  "guard_start db writers =
     \<lparr>guard = \<lparr>reader_count = atomic_init 0, writer_active = atomic_init 0, writers_waiting = atomic_init 0\<rparr>,
      fence_view = (\<lambda>_. 0), versions = [db],
      threads = map (\<lambda>w. if w then Write_Announce else Read_Load_Active) writers, views = map (\<lambda>_. (\<lambda>_. 0)) writers, committed = []\<rparr>"

definition guard_reachable :: "'d guard_run \<Rightarrow> 'd \<Rightarrow> bool list \<Rightarrow> 'd guard_system \<Rightarrow> bool" where
  "guard_reachable run db writers s \<longleftrightarrow> (guard_step run)\<^sup>*\<^sup>* (guard_start db writers) s"

section \<open>Views\<close>

text \<open>The number of values every object has had: a view points below it.\<close>

definition extent :: "DbGuard \<Rightarrow> nat \<Rightarrow> location \<Rightarrow> nat" where
  "extent g n l =
     (case l of
        Reader_Count \<Rightarrow> length (reader_count g)
      | Writer_Active \<Rightarrow> length (writer_active g)
      | Writers_Waiting \<Rightarrow> length (writers_waiting g)
      | Shared_Data \<Rightarrow> n)"

definition bounded :: "(location \<Rightarrow> nat) \<Rightarrow> view \<Rightarrow> bool" where
  "bounded e v \<longleftrightarrow> (\<forall>l. v l < e l)"

lemma join_views_apply [simp]: "join_views v w l = max (v l) (w l)"
  by (simp add: join_views_def)

lemma extent_simps [simp]:
  "extent g n Reader_Count = length (reader_count g)" "extent g n Writer_Active = length (writer_active g)"
  "extent g n Writers_Waiting = length (writers_waiting g)" "extent g n Shared_Data = n"
  by (simp_all add: extent_def)

lemma bounded_mono: "bounded e v \<Longrightarrow> (\<And>l. e l \<le> e' l) \<Longrightarrow> bounded e' v"
  unfolding bounded_def by (meson less_le_trans)

lemma bounded_join: "bounded e v \<Longrightarrow> bounded e w \<Longrightarrow> bounded e (join_views v w)"
  by (simp add: bounded_def)

lemma bounded_upd: "bounded e v \<Longrightarrow> i < e l \<Longrightarrow> bounded e (v(l := i))"
  by (simp add: bounded_def)

lemma load_bounded:
  assumes "bounded e v" "e l = length c" "\<forall>m\<in>set c. bounded e (known m)"
  shows "bounded e (snd (atomic_load l c lag v))"
proof -
  have i: "max (v l) (length c - 1 - lag) < length c" using assms(1,2) by (auto simp: bounded_def dest: spec[of _ l])
  then have "bounded e (v(l := max (v l) (length c - 1 - lag)))" using assms(1,2) by (intro bounded_upd) simp_all
  then show ?thesis using assms(3) nth_mem[OF i] by (simp add: atomic_load_def Let_def bounded_join)
qed

text \<open>A load without a lag returns the latest value; every load returns a value the view admits and only adds to the view.\<close>

lemma load_latest: "bounded e v \<Longrightarrow> e l = length c \<Longrightarrow> fst (atomic_load l c 0 v) = latest c"
proof -
  assume "bounded e v" "e l = length c"
  then have "v l < length c" by (metis bounded_def)
  then have "c \<noteq> []" "max (v l) (length c - 1 - 0) = length c - 1" by auto
  then show ?thesis by (simp add: atomic_load_def latest_def last_conv_nth Let_def)
qed

lemma load_mono: "v k \<le> snd (atomic_load l c lag v) k"
  by (simp add: atomic_load_def Let_def le_max_iff_disj)

lemma load_source:
  assumes "bounded e v" "e l = length c"
  obtains i where "v l \<le> i" "i < length c" "fst (atomic_load l c lag v) = written (c ! i)"
    "\<And>k. known (c ! i) k \<le> snd (atomic_load l c lag v) k"
proof -
  have "max (v l) (length c - 1 - lag) < length c" using assms by (auto simp: bounded_def dest: spec[of _ l])
  then show thesis by (intro that[of "max (v l) (length c - 1 - lag)"]) (simp_all add: atomic_load_def Let_def)
qed

text \<open>The system: every view points into the histories.\<close>

definition guard_memory :: "'d guard_system \<Rightarrow> bool" where
  "guard_memory s \<longleftrightarrow>
     length (views s) = length (threads s) \<and>
     (let e = extent (guard s) (length (versions s)) in
      bounded e (fence_view s) \<and> (\<forall>v\<in>set (views s). bounded e v) \<and>
      (\<forall>m\<in>set (reader_count (guard s)) \<union> set (writer_active (guard s)) \<union> set (writers_waiting (guard s)). bounded e (known m)))"

lemmas thread_step_defs = thread_step_def db_guard_execute_read_def db_guard_execute_write_def db_guard_unlock_read_def
  db_guard_unlock_write_def read_data_def write_data_def move_thread_def after_rmw_def atomic_store_def atomic_fetch_add_def
  atomic_compare_exchange_def Let_def case_prod_beta

lemma extent_update:
  "extent (g\<lparr>reader_count := c\<rparr>) n = (extent g n)(Reader_Count := length c)"
  "extent (g\<lparr>writer_active := c\<rparr>) n = (extent g n)(Writer_Active := length c)"
  "extent (g\<lparr>writers_waiting := c\<rparr>) n = (extent g n)(Writers_Waiting := length c)"
  by (auto simp: fun_eq_iff extent_def split: location.splits)

lemma bounded_grown: "bounded e v \<Longrightarrow> e l = n \<Longrightarrow> bounded (e(l := Suc n)) v"
  by (auto simp: bounded_def less_Suc_eq)

lemma bounded_newest: "bounded e v \<Longrightarrow> e l = n \<Longrightarrow> bounded (e(l := Suc n)) (v(l := n))"
  by (auto simp: bounded_def)

lemma fetch_add_bounded:
  assumes "bounded e v" "e l = length c" "\<forall>m\<in>set c. bounded e (known m)"
  shows "bounded (e(l := Suc (length c))) (snd (atomic_fetch_add order l k c v))"
    and "\<forall>m\<in>set (fst (atomic_fetch_add order l k c v)). bounded (e(l := Suc (length c))) (known m)"
    and "length (fst (atomic_fetch_add order l k c v)) = Suc (length c)"
proof -
  have "c \<noteq> []" using assms(1,2) by (auto simp: bounded_def dest: spec[of _ l])
  then have m: "bounded e (known (last c))" using assms(3) by simp
  note f = bounded_newest[OF assms(1,2)] bounded_newest[OF m assms(2)] bounded_newest[OF bounded_join[OF assms(1) m] assms(2)]
    bounded_grown[OF m assms(2)]
  show "bounded (e(l := Suc (length c))) (snd (atomic_fetch_add order l k c v))"
    "length (fst (atomic_fetch_add order l k c v)) = Suc (length c)" using f by (simp_all add: atomic_fetch_add_def Let_def)
  show "\<forall>m\<in>set (fst (atomic_fetch_add order l k c v)). bounded (e(l := Suc (length c))) (known m)"
    using f assms(2,3) by (auto simp: atomic_fetch_add_def Let_def bounded_join bounded_grown)
qed

lemma after_rmw_bounded:
  "bounded e fences \<Longrightarrow> bounded e v \<Longrightarrow> bounded e (fst (after_rmw f fences v)) \<and> bounded e (snd (after_rmw f fences v))"
  by (simp add: after_rmw_def bounded_join)

lemma guard_memory_move:
  assumes "guard_memory s" "\<And>l. extent (guard s) (length (versions s)) l \<le> extent g (length (versions s)) l"
    and "bounded (extent g (length (versions s))) v" "bounded (extent g (length (versions s))) fences"
    and "\<forall>m\<in>set (reader_count g) \<union> set (writer_active g) \<union> set (writers_waiting g). bounded (extent g (length (versions s))) (known m)"
  shows "guard_memory (move_thread t g fences v pc s)"
proof -
  have "\<forall>v\<in>set (views s). bounded (extent g (length (versions s))) v"
    using assms(1) bounded_mono[OF _ assms(2)] by (auto simp: guard_memory_def Let_def)
  then have "\<forall>v'\<in>set ((views s)[t := v]). bounded (extent g (length (versions s))) v'"
    using assms(3) by (auto dest!: set_update_subset_insert[THEN subsetD])
  then show ?thesis using assms by (simp add: guard_memory_def Let_def move_thread_def)
qed

lemma guard_memory_facts:
  assumes "guard_memory s" "t < length (threads s)"
  shows "bounded (extent (guard s) (length (versions s))) (views s ! t)" "bounded (extent (guard s) (length (versions s))) (fence_view s)"
    and "\<forall>m\<in>set (reader_count (guard s)). bounded (extent (guard s) (length (versions s))) (known m)"
    and "\<forall>m\<in>set (writer_active (guard s)). bounded (extent (guard s) (length (versions s))) (known m)"
    and "\<forall>m\<in>set (writers_waiting (guard s)). bounded (extent (guard s) (length (versions s))) (known m)"
    and "length (views s) = length (threads s)"
  using assms by (auto simp: guard_memory_def Let_def)

lemma guard_memory_fetch:
  assumes "guard_memory s" "t < length (threads s)"
  shows "(c, v) = atomic_fetch_add order Reader_Count k (reader_count (guard s)) (views s ! t) \<Longrightarrow>
      (fences, v') = after_rmw f (fence_view s) v \<Longrightarrow> guard_memory (move_thread t ((guard s)\<lparr>reader_count := c\<rparr>) fences v' pc s)"
    and "(c, v) = atomic_fetch_add order Writers_Waiting k (writers_waiting (guard s)) (views s ! t) \<Longrightarrow>
      (fences, v') = after_rmw f (fence_view s) v \<Longrightarrow> guard_memory (move_thread t ((guard s)\<lparr>writers_waiting := c\<rparr>) fences v' pc s)"
proof -
  let ?e = "extent (guard s) (length (versions s))"
  note m = guard_memory_facts[OF assms]
  {
    assume c: "(c, v) = atomic_fetch_add order Reader_Count k (reader_count (guard s)) (views s ! t)"
      and v': "(fences, v') = after_rmw f (fence_view s) v"
    have e: "?e Reader_Count = length (reader_count (guard s))" by simp
    note b = fetch_add_bounded[OF m(1) e m(3), of order k, folded c, simplified]
    note r = after_rmw_bounded[OF bounded_grown[OF m(2) e] b(1), of f, folded v', simplified]
    show "guard_memory (move_thread t ((guard s)\<lparr>reader_count := c\<rparr>) fences v' pc s)"
      using b r m(4,5) by (intro guard_memory_move[OF assms(1)]) (auto simp: extent_update bounded_grown)
  next
    assume c: "(c, v) = atomic_fetch_add order Writers_Waiting k (writers_waiting (guard s)) (views s ! t)"
      and v': "(fences, v') = after_rmw f (fence_view s) v"
    have e: "?e Writers_Waiting = length (writers_waiting (guard s))" by simp
    note b = fetch_add_bounded[OF m(1) e m(5), of order k, folded c, simplified]
    note r = after_rmw_bounded[OF bounded_grown[OF m(2) e] b(1), of f, folded v', simplified]
    show "guard_memory (move_thread t ((guard s)\<lparr>writers_waiting := c\<rparr>) fences v' pc s)"
      using b r m(3,4) by (intro guard_memory_move[OF assms(1)]) (auto simp: extent_update bounded_grown)
  }
qed

text \<open>A new value of \<open>writer_active\<close>, stored or swapped in.\<close>

lemma guard_memory_active:
  assumes "guard_memory s" "t < length (threads s)" "v = w(Writer_Active := length (writer_active (guard s)))"
    and "w = views s ! t \<or> w = join_views (views s ! t) (known (last (writer_active (guard s))))"
    and "(fences, v') = (fence_view s, v) \<or> (fences, v') = after_rmw f (fence_view s) v"
  shows "guard_memory (move_thread t ((guard s)\<lparr>writer_active := writer_active (guard s) @ [\<lparr>written = n, known = v\<rparr>]\<rparr>) fences v' pc s)"
proof -
  let ?e = "extent (guard s) (length (versions s))"
  note m = guard_memory_facts[OF assms(1,2)]
  have e: "?e Writer_Active = length (writer_active (guard s))" by simp
  have "writer_active (guard s) \<noteq> []" using m(1) by (auto simp: bounded_def dest: spec[of _ Writer_Active])
  then have "bounded ?e w" using assms(4) m(1,4) by (auto intro: bounded_join)
  then have v: "bounded (?e(Writer_Active := Suc (length (writer_active (guard s))))) v" unfolding assms(3) using bounded_newest[of ?e w Writer_Active] by simp
  have r: "bounded (?e(Writer_Active := Suc (length (writer_active (guard s))))) fences \<and>
      bounded (?e(Writer_Active := Suc (length (writer_active (guard s))))) v'"
    using after_rmw_bounded[OF bounded_grown[OF m(2) e] v, of f] bounded_grown[OF m(2) e] v assms(5) by (metis Pair_inject fst_conv snd_conv)
  show ?thesis
    using v r m(3-5) by (intro guard_memory_move[OF assms(1)]) (auto simp: extent_update bounded_grown)
qed

lemma guard_memory_load:
  assumes "guard_memory s" "t < length (threads s)" "extent (guard s) (length (versions s)) l = length c"
    and "\<forall>m\<in>set c. bounded (extent (guard s) (length (versions s))) (known m)"
  shows "guard_memory (move_thread t (guard s) (fence_view s) (snd (atomic_load l c lag (views s ! t))) pc s)"
  using guard_memory_facts[OF assms(1,2)] load_bounded[OF _ assms(3,4)] by (intro guard_memory_move[OF assms(1)]) auto

lemma guard_memory_data:
  assumes "guard_memory s" "t < length (threads s)"
  shows "guard_memory (read_data lag t pc s)" "guard_memory (write_data t d pc' s)"
proof -
  let ?e = "extent (guard s) (length (versions s))"
  note m = guard_memory_facts[OF assms]
  have "max ((views s ! t) Shared_Data) (length (versions s) - 1 - lag) < length (versions s)"
    using m(1) by (auto simp: bounded_def dest: spec[of _ Shared_Data])
  then show "guard_memory (read_data lag t pc s)"
    unfolding read_data_def Let_def using m by (intro guard_memory_move[OF assms(1)]) (auto intro: bounded_upd)
  have e: "?e Shared_Data = length (versions s)" "extent (guard s) (Suc (length (versions s))) = ?e(Shared_Data := Suc (length (versions s)))"
    by (auto simp: fun_eq_iff extent_def split: location.splits)
  have "\<forall>v\<in>set (views s). bounded (?e(Shared_Data := Suc (length (versions s)))) v"
    using assms(1) bounded_grown[of ?e _ Shared_Data] by (auto simp: guard_memory_def Let_def)
  then have "\<forall>v'\<in>set ((views s)[t := (views s ! t)(Shared_Data := length (versions s))]). bounded (?e(Shared_Data := Suc (length (versions s)))) v'"
    using bounded_newest[OF m(1) e(1)] by (auto dest!: set_update_subset_insert[THEN subsetD])
  then show "guard_memory (write_data t d pc' s)"
    unfolding guard_memory_def Let_def write_data_def move_thread_def
    using m(2-6) bounded_grown[of ?e _ Shared_Data] by (auto simp: e(2))
qed

lemma guard_memory_step:
  assumes "guard_memory s" "t < length (threads s)"
  shows "guard_memory (thread_step run spurious lag t s)"
proof -
  note m = guard_memory_facts[OF assms]
  note load = guard_memory_load[OF assms(1,2)]
  note step_defs = thread_step_def db_guard_execute_read_def db_guard_execute_write_def Let_def case_prod_beta
  show ?thesis
  proof (cases "threads s ! t")
    case Write_Swap
    then show ?thesis
      using load[of Writer_Active "writer_active (guard s)"] m(4)
        guard_memory_active[OF assms refl disjI2[OF refl] disjI2[OF prod.collapse]]
      by (auto simp: step_defs atomic_compare_exchange_def)
  next
    case Write_Back_Off
    then show ?thesis using guard_memory_active[OF assms refl disjI1[OF refl] disjI1[OF refl]] by (simp add: step_defs atomic_store_def)
  next
    case Write_Worked
    then show ?thesis using guard_memory_active[OF assms refl disjI1[OF refl] disjI1[OF refl]]
      by (simp add: step_defs atomic_store_def db_guard_unlock_write_def)
  next
    case (Read_Working d)
    then show ?thesis using guard_memory_data(2)[OF assms] assms(1) by (auto simp: step_defs guard_memory_def)
  next
    case (Write_Working d)
    then show ?thesis using guard_memory_data(2)[OF assms, of "work_fn run t d" Write_Worked] by (auto simp: step_defs guard_memory_def)
  next
    case Finished
    then show ?thesis using m by (simp add: step_defs) (rule guard_memory_move[OF assms(1)], auto)
  qed (use load[of Writer_Active "writer_active (guard s)"] load[of Writers_Waiting "writers_waiting (guard s)"]
        load[of Reader_Count "reader_count (guard s)"] m(3-5) guard_memory_fetch[OF assms prod.collapse prod.collapse]
        guard_memory_data(1)[OF assms]
      in \<open>simp_all add: step_defs db_guard_unlock_read_def\<close>)
qed

section \<open>Counting the threads\<close>

fun counted :: "'d guard_pc \<Rightarrow> bool" where
  "counted Read_Recheck_Active = True"
| "counted Read_Recheck_Waiting = True"
| "counted Read_Back_Off = True"
| "counted Read_Locked = True"
| "counted (Read_Working d) = True"
| "counted Read_Worked = True"
| "counted pc = False"

fun admitted :: "'d guard_pc \<Rightarrow> bool" where
  "admitted Read_Recheck_Waiting = True"
| "admitted Read_Locked = True"
| "admitted (Read_Working d) = True"
| "admitted Read_Worked = True"
| "admitted pc = False"

fun holding :: "'d guard_pc \<Rightarrow> bool" where
  "holding Write_Load_Readers = True"
| "holding Write_Withdraw = True"
| "holding Write_Back_Off = True"
| "holding Write_Locked = True"
| "holding (Write_Working d) = True"
| "holding Write_Worked = True"
| "holding pc = False"

fun exclusive :: "'d guard_pc \<Rightarrow> bool" where
  "exclusive Write_Withdraw = True"
| "exclusive Write_Locked = True"
| "exclusive (Write_Working d) = True"
| "exclusive Write_Worked = True"
| "exclusive pc = False"

fun announced :: "'d guard_pc \<Rightarrow> bool" where
  "announced Write_Swap = True"
| "announced Write_Load_Readers = True"
| "announced Write_Withdraw = True"
| "announced Write_Back_Off = True"
| "announced pc = False"

definition tally :: "('a \<Rightarrow> bool) \<Rightarrow> 'a list \<Rightarrow> int" where
  "tally P xs = int (length (filter P xs))"

lemma tally_update: "t < length xs \<Longrightarrow> tally P (xs[t := y]) = tally P xs - of_bool (P (xs ! t)) + of_bool (P y)"
proof (induction xs arbitrary: t)
  case (Cons x xs)
  then show ?case by (cases t) (auto simp: tally_def)
qed simp

lemma tally_zero: "tally P xs = 0 \<longleftrightarrow> (\<forall>x\<in>set xs. \<not> P x)" and tally_nonneg [simp]: "0 \<le> tally P xs"
  by (auto simp: tally_def filter_empty_conv)

lemma tally_pos: "x \<in> set xs \<Longrightarrow> P x \<Longrightarrow> 0 < tally P xs"
  by (metis order_le_less tally_nonneg tally_zero)

lemma tally_one:
  assumes "tally P xs \<le> 1" "t < length xs" "u < length xs" "P (xs ! t)" "P (xs ! u)"
  shows "t = u"
proof -
  have "card {i. i < length xs \<and> P (xs ! i)} \<le> 1" using assms(1) by (simp add: tally_def length_filter_conv_card)
  then show ?thesis using assms(2-5) card_le_Suc0_iff_eq[of "{i. i < length xs \<and> P (xs ! i)}"] by auto
qed

text \<open>The latest values of the counters count the threads that are between the accesses that change them.\<close>

definition guard_counts :: "'d guard_system \<Rightarrow> bool" where
  "guard_counts s \<longleftrightarrow>
     latest (reader_count (guard s)) = tally counted (threads s) \<and> latest (writer_active (guard s)) = tally holding (threads s) \<and>
     tally holding (threads s) \<le> 1 \<and> latest (writers_waiting (guard s)) = tally announced (threads s)"

lemma pc_implications: "admitted pc \<Longrightarrow> counted pc" "exclusive pc \<Longrightarrow> holding pc" "counted pc \<Longrightarrow> \<not> holding pc"
  by (cases pc; simp)+

lemma guard_counts_facts:
  assumes "guard_counts s" "t < length (threads s)"
  shows "holding (threads s ! t) \<Longrightarrow> latest (writer_active (guard s)) = 1"
    "holding (threads s ! t) \<Longrightarrow> u < length (threads s) \<Longrightarrow> holding (threads s ! u) \<Longrightarrow> u = t"
    "announced (threads s ! t) \<Longrightarrow> 0 < latest (writers_waiting (guard s))"
    "counted (threads s ! t) \<Longrightarrow> 0 < latest (reader_count (guard s))"
proof -
  note mem = nth_mem[OF assms(2)]
  show "holding (threads s ! t) \<Longrightarrow> latest (writer_active (guard s)) = 1"
    using assms(1) tally_pos[OF mem, of holding] by (auto simp: guard_counts_def)
  show "holding (threads s ! t) \<Longrightarrow> u < length (threads s) \<Longrightarrow> holding (threads s ! u) \<Longrightarrow> u = t"
    using assms tally_one[of holding "threads s" u t] by (auto simp: guard_counts_def)
  show "announced (threads s ! t) \<Longrightarrow> 0 < latest (writers_waiting (guard s))"
    using assms(1) tally_pos[OF mem, of announced] by (auto simp: guard_counts_def)
  show "counted (threads s ! t) \<Longrightarrow> 0 < latest (reader_count (guard s))"
    using assms(1) tally_pos[OF mem, of counted] by (auto simp: guard_counts_def)
qed

lemma latest_snoc [simp]: "latest (c @ [m]) = written m"
  by (simp add: latest_def)

lemma guard_counts_step:
  assumes "guard_counts s" "t < length (threads s)"
  shows "guard_counts (thread_step run spurious lag t s)"
  using assms guard_counts_facts(1)[OF assms]
  by (cases "threads s ! t") (auto simp: guard_counts_def thread_step_defs tally_update latest_def[symmetric])

section \<open>What one step does\<close>

lemma thread_step_other:
  assumes "u \<noteq> t"
  shows "threads (thread_step run spurious lag t s) ! u = threads s ! u" "views (thread_step run spurious lag t s) ! u = views s ! u"
  using assms by (cases "threads s ! t"; simp add: thread_step_defs)+

lemma thread_step_length [simp]:
  "length (threads (thread_step run spurious lag t s)) = length (threads s)" "length (views (thread_step run spurious lag t s)) = length (views s)"
  by (cases "threads s ! t"; simp add: thread_step_defs)+

text \<open>Views only grow.\<close>

lemma thread_step_grows:
  assumes "guard_memory s" "t < length (threads s)"
  shows "(views s ! u) l \<le> (views (thread_step run spurious lag t s) ! u) l" "fence_view s l \<le> fence_view (thread_step run spurious lag t s) l"
proof -
  note m = guard_memory_facts[OF assms]
  have b: "(views s ! t) k < extent (guard s) (length (versions s)) k" for k using m(1) by (simp add: bounded_def)
  have "(views s ! t) l \<le> (views (thread_step run spurious lag t s) ! t) l"
    using b[of Reader_Count] b[of Writer_Active] b[of Writers_Waiting] b[of Shared_Data] m(6) assms(2) load_mono
    by (cases "threads s ! t") (auto simp: thread_step_defs le_max_iff_disj)
  then show "(views s ! u) l \<le> (views (thread_step run spurious lag t s) ! u) l"
    using thread_step_other(2)[of u t run spurious lag s] by (cases "u = t") auto
  show "fence_view s l \<le> fence_view (thread_step run spurious lag t s) l"
    by (cases "threads s ! t") (auto simp: thread_step_defs)
qed

text \<open>The counter of the readers changes by one value at most, and so does the flag; who changes the flag.\<close>

lemma thread_step_readers:
  "reader_count (guard (thread_step run spurious lag t s)) = reader_count (guard s) \<or>
   (\<exists>m. reader_count (guard (thread_step run spurious lag t s)) = reader_count (guard s) @ [m]) \<and> reading (threads s ! t)"
  by (cases "threads s ! t") (auto simp: thread_step_defs)

lemma thread_step_active:
  assumes "t < length (threads s)" "length (views s) = length (threads s)"
  obtains (kept) "writer_active (guard (thread_step run spurious lag t s)) = writer_active (guard s)"
      "holding (threads (thread_step run spurious lag t s) ! t) = holding (threads s ! t)"
  | (taken) m where "writer_active (guard (thread_step run spurious lag t s)) = writer_active (guard s) @ [m]" "written m = 1"
      "latest (writer_active (guard s)) = 0" "threads s ! t = Write_Swap" "threads (thread_step run spurious lag t s) ! t = Write_Load_Readers"
      "known (last (writer_active (guard s))) Shared_Data \<le> (views (thread_step run spurious lag t s) ! t) Shared_Data"
      "(views (thread_step run spurious lag t s) ! t) Writer_Active \<ge> length (writer_active (guard s))"
  | (freed) m where "writer_active (guard (thread_step run spurious lag t s)) = writer_active (guard s) @ [m]" "written m = 0"
      "holding (threads s ! t)" "\<not> holding (threads (thread_step run spurious lag t s) ! t)"
      "known m Shared_Data = (views s ! t) Shared_Data"
proof -
  have "(writer_active (guard (thread_step run spurious lag t s)) = writer_active (guard s) \<and>
      holding (threads (thread_step run spurious lag t s) ! t) = holding (threads s ! t)) \<or>
    (\<exists>m. writer_active (guard (thread_step run spurious lag t s)) = writer_active (guard s) @ [m] \<and> written m = 1 \<and>
      latest (writer_active (guard s)) = 0 \<and> threads s ! t = Write_Swap \<and> threads (thread_step run spurious lag t s) ! t = Write_Load_Readers \<and>
      known (last (writer_active (guard s))) Shared_Data \<le> (views (thread_step run spurious lag t s) ! t) Shared_Data \<and>
      (views (thread_step run spurious lag t s) ! t) Writer_Active \<ge> length (writer_active (guard s))) \<or>
    (\<exists>m. writer_active (guard (thread_step run spurious lag t s)) = writer_active (guard s) @ [m] \<and> written m = 0 \<and>
      holding (threads s ! t) \<and> \<not> holding (threads (thread_step run spurious lag t s) ! t) \<and> known m Shared_Data = (views s ! t) Shared_Data)"
    using assms by (cases "threads s ! t") (auto simp: thread_step_defs)
  then show thesis using kept taken freed by blast
qed

text \<open>A thread that takes the flag or enters the count has, after a fence, seen all earlier fences.\<close>

lemma thread_step_fenced:
  assumes "t < length (threads s)" "length (views s) = length (threads s)" "platform_fence run"
    and "holding (threads (thread_step run spurious lag t s) ! t) \<and> \<not> holding (threads s ! t) \<or>
      counted (threads (thread_step run spurious lag t s) ! t) \<and> \<not> counted (threads s ! t)"
  shows "fence_view s l \<le> (views (thread_step run spurious lag t s) ! t) l"
  using assms by (cases "threads s ! t") (auto simp: thread_step_defs split: if_splits)

text \<open>The values the two decisive loads have returned.\<close>

lemma thread_step_exclusive:
  assumes "guard_memory s" "t < length (threads s)"
    and "exclusive (threads (thread_step run spurious lag t s) ! t)" "\<not> exclusive (threads s ! t)"
  shows "\<exists>i. (views s ! t) Reader_Count \<le> i \<and> i < length (reader_count (guard s)) \<and> written (reader_count (guard s) ! i) = 0"
proof -
  have pc: "threads s ! t = Write_Load_Readers" "fst (atomic_load Reader_Count (reader_count (guard s)) lag (views s ! t)) = 0"
    using assms(2-4) by (cases "threads s ! t"; auto simp: thread_step_defs split: if_splits)+
  have "extent (guard s) (length (versions s)) Reader_Count = length (reader_count (guard s))" by simp
  from load_source[OF guard_memory_facts(1)[OF assms(1,2)] this, of lag] pc(2) show ?thesis by metis
qed

lemma thread_step_admitted:
  assumes "guard_memory s" "t < length (threads s)"
    and "admitted (threads (thread_step run spurious lag t s) ! t)" "\<not> admitted (threads s ! t)"
  shows "threads s ! t = Read_Recheck_Active" "\<exists>i. (views s ! t) Writer_Active \<le> i \<and> i < length (writer_active (guard s)) \<and> written (writer_active (guard s) ! i) = 0 \<and>
    known (writer_active (guard s) ! i) Shared_Data \<le> (views (thread_step run spurious lag t s) ! t) Shared_Data"
proof -
  have pc: "threads s ! t = Read_Recheck_Active" "fst (atomic_load Writer_Active (writer_active (guard s)) lag (views s ! t)) = 0"
    using assms(2-4) by (cases "threads s ! t"; auto simp: thread_step_defs split: if_splits)+
  then show "threads s ! t = Read_Recheck_Active" by simp
  have "extent (guard s) (length (versions s)) Writer_Active = length (writer_active (guard s))" by simp
  from load_source[OF guard_memory_facts(1)[OF assms(1,2)] this, of lag] obtain i where i: "(views s ! t) Writer_Active \<le> i"
    "i < length (writer_active (guard s))" "fst (atomic_load Writer_Active (writer_active (guard s)) lag (views s ! t)) = written (writer_active (guard s) ! i)"
    "known (writer_active (guard s) ! i) Shared_Data \<le> snd (atomic_load Writer_Active (writer_active (guard s)) lag (views s ! t)) Shared_Data"
    by metis
  moreover have "views (thread_step run spurious lag t s) ! t = snd (atomic_load Writer_Active (writer_active (guard s)) lag (views s ! t))"
    using pc(1) assms(2) guard_memory_facts(6)[OF assms(1,2)] by (simp add: thread_step_defs)
  ultimately show "\<exists>i. (views s ! t) Writer_Active \<le> i \<and> i < length (writer_active (guard s)) \<and> written (writer_active (guard s) ! i) = 0 \<and>
    known (writer_active (guard s) ! i) Shared_Data \<le> (views (thread_step run spurious lag t s) ! t) Shared_Data" using pc(2) by auto
qed

text \<open>
  The thread that holds the flag has seen its latest value. It is the only one that stores to the flag, so
  what it stores can only come last in the modification order, as \<open>atomic_store\<close> has it.
\<close>

definition guard_owner :: "'d guard_system \<Rightarrow> bool" where
  "guard_owner s \<longleftrightarrow>
     (\<forall>t<length (threads s). holding (threads s ! t) \<longrightarrow> Suc ((views s ! t) Writer_Active) = length (writer_active (guard s)))"

lemma guard_owner_step:
  assumes "guard_memory s" "guard_counts s" "guard_owner s" "t < length (threads s)"
  shows "guard_owner (thread_step run spurious lag t s)"
proof -
  let ?s = "thread_step run spurious lag t s"
  note other = thread_step_other[of _ t run spurious lag s]
  have "Suc ((views ?s ! u) Writer_Active) = length (writer_active (guard ?s))" if u: "u < length (threads s)" "holding (threads ?s ! u)" for u
  proof -
    have "bounded (extent (guard ?s) (length (versions ?s))) (views ?s ! u)"
      using guard_memory_facts(1)[OF guard_memory_step[OF assms(1,4)], of u] u(1) by simp
    then have b: "(views ?s ! u) Writer_Active < length (writer_active (guard ?s))" by (metis bounded_def extent_simps(2))
    show ?thesis using assms(4) guard_memory_facts(6)[OF assms(1,4)]
    proof (cases rule: thread_step_active[of t s run spurious lag])
      case kept
      then have "holding (threads s ! u)" using u other(1)[of u] by (cases "u = t") auto
      then have "Suc ((views s ! u) Writer_Active) = length (writer_active (guard s))" using assms(3) u(1) by (simp add: guard_owner_def)
      then show ?thesis using b kept(1) thread_step_grows(1)[OF assms(1,4), of u Writer_Active run spurious lag] by simp
    next
      case (taken m)
      then have "u = t" using u other(1)[of u] guard_counts_facts(1)[OF assms(2) u(1)] by (cases "u = t") auto
      then show ?thesis using b taken(1,7) by simp
    next
      case (freed m)
      then have "u = t" using u other(1)[of u] guard_counts_facts(2)[OF assms(2,4), of u] by (cases "u = t") auto
      then show ?thesis using freed u by simp
    qed
  qed
  then show ?thesis by (simp add: guard_owner_def)
qed

section \<open>Mutual exclusion\<close>

text \<open>All values of an object from a position on satisfy a condition.\<close>

definition ahead :: "(int \<Rightarrow> bool) \<Rightarrow> atomic_int \<Rightarrow> nat \<Rightarrow> bool" where
  "ahead P c i \<longleftrightarrow> (\<forall>j. i \<le> j \<and> j < length c \<longrightarrow> P (written (c ! j)))"

lemma ahead_mono: "ahead P c i \<Longrightarrow> i \<le> j \<Longrightarrow> ahead P c j"
  by (auto simp: ahead_def)

lemma ahead_snoc: "ahead P c i \<Longrightarrow> P (written m) \<Longrightarrow> ahead P (c @ [m]) i"
  by (auto simp: ahead_def nth_append less_Suc_eq)

lemma ahead_grown: "ahead P c i \<Longrightarrow> i \<le> j \<Longrightarrow> c' = c \<or> (\<exists>m. c' = c @ [m]) \<and> P (latest c') \<Longrightarrow> ahead P c' j"
  by (metis ahead_mono ahead_snoc latest_snoc)

lemma ahead_last: "Suc i = length c \<Longrightarrow> P (latest c) \<Longrightarrow> ahead P c i"
proof -
  assume i: "Suc i = length c" and P: "P (latest c)"
  then have "latest c = written (c ! i)" by (metis diff_Suc_1 last_conv_nth latest_def length_0_conv nat.simps(3))
  then show ?thesis using i P by (auto simp: ahead_def less_Suc_eq_le[symmetric] dest: le_less_Suc_eq[THEN iffD1, rotated])
qed

text \<open>The fences know the latest number of readers, and the flag while it is held.\<close>

definition guard_fences :: "'d guard_system \<Rightarrow> bool" where
  "guard_fences s \<longleftrightarrow>
     Suc (fence_view s Reader_Count) = length (reader_count (guard s)) \<and>
     ((\<exists>pc\<in>set (threads s). holding pc) \<longrightarrow> Suc (fence_view s Writer_Active) = length (writer_active (guard s)))"

text \<open>
  Of a writer that holds the flag and a counted reader one sees the other: either the writer can read
  positive numbers of readers only, and has not been let in, or the reader can read the flag as set
  only, and has not been let in.
\<close>

definition guard_handshake :: "'d guard_system \<Rightarrow> bool" where
  "guard_handshake s \<longleftrightarrow>
     (\<forall>w<length (threads s). \<forall>r<length (threads s). holding (threads s ! w) \<longrightarrow> counted (threads s ! r) \<longrightarrow>
        ahead (\<lambda>n. 0 < n) (reader_count (guard s)) ((views s ! w) Reader_Count) \<and> \<not> exclusive (threads s ! w) \<or>
        ahead (\<lambda>n. n \<noteq> 0) (writer_active (guard s)) ((views s ! r) Writer_Active) \<and> \<not> admitted (threads s ! r))"

lemma guard_fences_step:
  assumes "guard_memory s" "guard_counts s" "guard_fences s" "platform_fence run" "t < length (threads s)"
  shows "guard_fences (thread_step run spurious lag t s)"
proof -
  let ?s = "thread_step run spurious lag t s"
  note m = guard_memory_facts[OF assms(1,5)]
  have b: "fence_view s l < extent (guard s) (length (versions s)) l" "(views s ! t) l < extent (guard s) (length (versions s)) l" for l
    using m(1,2) by (simp_all add: bounded_def)
  have nonempty: "reader_count (guard s) \<noteq> []" "writer_active (guard s) \<noteq> []" "writers_waiting (guard s) \<noteq> []"
    using b(1)[of Reader_Count] b(1)[of Writer_Active] b(1)[of Writers_Waiting] by auto
  have k: "known (last (reader_count (guard s))) l < extent (guard s) (length (versions s)) l"
    "known (last (writer_active (guard s))) l < extent (guard s) (length (versions s)) l"
    "known (last (writers_waiting (guard s))) l < extent (guard s) (length (versions s)) l" for l
    using m(3-5) nonempty by (auto simp: bounded_def)
  have count: "Suc (fence_view ?s Reader_Count) = length (reader_count (guard ?s))"
    using assms(3,4) b(1)[of Reader_Count] b(2)[of Reader_Count] k(1-3)[of Reader_Count]
    by (cases "threads s ! t") (auto simp: guard_fences_def thread_step_defs)
  have "Suc (fence_view ?s Writer_Active) = length (writer_active (guard ?s))" if u: "u < length (threads s)" "holding (threads ?s ! u)" for u
    using assms(5) m(6)
  proof (cases rule: thread_step_active[of t s run spurious lag])
    case kept
    then have "holding (threads s ! u)" using u thread_step_other(1)[of u t run spurious lag s] by (cases "u = t") auto
    then have "Suc (fence_view s Writer_Active) = length (writer_active (guard s))" using assms(3) u(1) by (auto simp: guard_fences_def)
    moreover have "fence_view ?s Writer_Active < length (writer_active (guard ?s))"
      using guard_memory_facts(2)[OF guard_memory_step[OF assms(1,5), of run spurious lag]] assms(5) by (simp add: bounded_def) (metis extent_simps(2))
    ultimately show ?thesis using kept(1) thread_step_grows(2)[OF assms(1,5), of Writer_Active run spurious lag] by simp
  next
    case (taken x)
    then show ?thesis using assms(4) b(1)[of Writer_Active] b(2)[of Writer_Active] k(2)[of Writer_Active] by (auto simp: thread_step_defs)
  next
    case (freed x)
    then have "u = t" using u thread_step_other(1)[of u t run spurious lag s] guard_counts_facts(2)[OF assms(2,5), of u] by (cases "u = t") auto
    then show ?thesis using freed u by simp
  qed
  then show ?thesis using count by (auto simp: guard_fences_def in_set_conv_nth)
qed

lemma guard_handshake_step:
  assumes "guard_memory s" "guard_counts s" "guard_fences s" "guard_handshake s" "platform_fence run" "t < length (threads s)"
  shows "guard_handshake (thread_step run spurious lag t s)"
proof -
  let ?s = "thread_step run spurious lag t s"
  let ?rc = "reader_count (guard s)" and ?rc' = "reader_count (guard ?s)" and ?wa = "writer_active (guard s)" and ?wa' = "writer_active (guard ?s)"
  note m = guard_memory_facts[OF assms(1,6)] and grows = thread_step_grows(1)[OF assms(1,6), of _ _ run spurious lag]
  note other = thread_step_other[of _ t run spurious lag s]
  have counts': "guard_counts ?s" by (rule guard_counts_step[OF assms(2,6)])
  have "ahead (\<lambda>n. 0 < n) ?rc' ((views ?s ! w) Reader_Count) \<and> \<not> exclusive (threads ?s ! w) \<or>
      ahead (\<lambda>n. n \<noteq> 0) ?wa' ((views ?s ! r) Writer_Active) \<and> \<not> admitted (threads ?s ! r)"
    if w: "w < length (threads s)" "holding (threads ?s ! w)" and r: "r < length (threads s)" "counted (threads ?s ! r)" for w r
  proof -
    have rc_pos: "0 < latest ?rc'" using guard_counts_facts(4)[OF counts', of r] r by simp
    have wa_one: "latest ?wa' = 1" using guard_counts_facts(1)[OF counts', of w] w by simp
    have rc: "?rc' = ?rc \<or> (\<exists>m. ?rc' = ?rc @ [m])" using thread_step_readers[of run spurious lag t s] by blast
    have rc_ahead: "ahead (\<lambda>n. 0 < n) ?rc i \<Longrightarrow> i \<le> j \<Longrightarrow> ahead (\<lambda>n. 0 < n) ?rc' j" for i j
      using rc rc_pos ahead_grown by blast
    have wa_ahead: "ahead (\<lambda>n. n \<noteq> 0) ?wa i \<Longrightarrow> i \<le> j \<Longrightarrow> ahead (\<lambda>n. n \<noteq> 0) ?wa' j" for i j
    proof -
      have "?wa' = ?wa \<or> (\<exists>m. ?wa' = ?wa @ [m])" using assms(6) m(6) by (cases rule: thread_step_active[of t s run spurious lag]) auto
      then show "ahead (\<lambda>n. n \<noteq> 0) ?wa i \<Longrightarrow> i \<le> j \<Longrightarrow> ahead (\<lambda>n. n \<noteq> 0) ?wa' j" using wa_one ahead_grown[of "\<lambda>n. n \<noteq> 0" ?wa i j ?wa'] by simp
    qed
    consider (old) "holding (threads s ! w)" "counted (threads s ! r)"
      | (new_writer) "\<not> holding (threads s ! w)" | (new_reader) "holding (threads s ! w)" "\<not> counted (threads s ! r)" by blast
    then show ?thesis
    proof cases
      case old
      have view: "(views s ! w) Reader_Count \<le> (views ?s ! w) Reader_Count" "(views s ! r) Writer_Active \<le> (views ?s ! r) Writer_Active"
        using grows by blast+
      from assms(4) w(1) r(1) old consider
          (reader_seen) "ahead (\<lambda>n. 0 < n) ?rc ((views s ! w) Reader_Count)" "\<not> exclusive (threads s ! w)"
        | (writer_seen) "ahead (\<lambda>n. n \<noteq> 0) ?wa ((views s ! r) Writer_Active)" "\<not> admitted (threads s ! r)"
        by (auto simp: guard_handshake_def)
      then show ?thesis
      proof cases
        case reader_seen
        have "\<not> exclusive (threads ?s ! w)"
        proof
          assume "exclusive (threads ?s ! w)"
          then show False
            using reader_seen thread_step_exclusive[OF assms(1,6), of run spurious lag] other(1)[of w] by (cases "w = t") (auto simp: ahead_def)
        qed
        then show ?thesis using rc_ahead[OF reader_seen(1) view(1)] by blast
      next
        case writer_seen
        have "\<not> admitted (threads ?s ! r)"
        proof
          assume "admitted (threads ?s ! r)"
          then show False
            using writer_seen thread_step_admitted(2)[OF assms(1,6), of run spurious lag] other(1)[of r] by (cases "r = t") (auto simp: ahead_def)
        qed
        then show ?thesis using wa_ahead[OF writer_seen(1) view(2)] by blast
      qed
    next
      case new_writer
      then have t: "w = t" using w other(1)[of w] by (cases "w = t") auto
      have pc: "threads s ! t = Write_Swap \<and> threads ?s ! t = Write_Load_Readers"
        using assms(6) m(6) by (cases rule: thread_step_active[of t s run spurious lag]) (use new_writer w t in auto)
      then have "?rc' = ?rc" using thread_step_readers[of run spurious lag t s] by simp
      moreover have "Suc (fence_view s Reader_Count) = length ?rc" using assms(3) by (simp add: guard_fences_def)
      moreover have "fence_view s Reader_Count \<le> (views ?s ! w) Reader_Count"
        using thread_step_fenced[OF assms(6) m(6) assms(5)] new_writer w(2) t by blast
      ultimately have "ahead (\<lambda>n. 0 < n) ?rc' ((views ?s ! w) Reader_Count)"
        using rc_pos ahead_mono[OF ahead_last[of "fence_view s Reader_Count" ?rc "\<lambda>n. 0 < n"]] by simp
      then show ?thesis using t pc by simp
    next
      case new_reader
      then have t: "r = t" using r other(1)[of r] by (cases "r = t") auto
      then have wt: "w \<noteq> t" using new_reader w(2) r(2) pc_implications(3)[of "threads ?s ! t"] by auto
      have "?wa' = ?wa" using assms(6) m(6)
      proof (cases rule: thread_step_active[of t s run spurious lag])
        case (taken x)
        then show ?thesis using guard_counts_facts(1)[OF assms(2) w(1) new_reader(1)] by simp
      next
        case (freed x)
        then show ?thesis using guard_counts_facts(2)[OF assms(2,6) _ w(1) new_reader(1)] wt by simp
      qed
      moreover have "Suc (fence_view s Writer_Active) = length ?wa" using assms(3) w(1) new_reader(1) by (auto simp: guard_fences_def)
      moreover have "fence_view s Writer_Active \<le> (views ?s ! r) Writer_Active"
        using thread_step_fenced[OF assms(6) m(6) assms(5)] new_reader(2) r(2) t by blast
      ultimately have "ahead (\<lambda>n. n \<noteq> 0) ?wa' ((views ?s ! r) Writer_Active)"
        using wa_one ahead_mono[OF ahead_last[of "fence_view s Writer_Active" ?wa "\<lambda>n. n \<noteq> 0"]] by simp
      moreover have "\<not> admitted (threads ?s ! r)" using thread_step_admitted(1)[OF assms(1,6)] pc_implications(1)[of "threads s ! t"] new_reader(2) t by force
      ultimately show ?thesis by blast
    qed
  qed
  then show ?thesis by (simp add: guard_handshake_def)
qed

text \<open>Hence no reader is let in together with a writer.\<close>

lemma handshake_exclusion:
  assumes "guard_handshake s" "t < length (threads s)" "u < length (threads s)" "exclusive (threads s ! t)"
  shows "\<not> admitted (threads s ! u)"
  using assms pc_implications[of "threads s ! t"] pc_implications[of "threads s ! u"] unfolding guard_handshake_def by blast

section \<open>The shared data\<close>

definition read_only :: "'d guard_run \<Rightarrow> bool" where
  "read_only run \<longleftrightarrow> (\<forall>t d. look_fn run t d = d)"

text \<open>
  The thread that holds the flag, or else the flag itself, knows the newest version; a writer works on a
  copy of it; and the newest version is the result of the committed work.
\<close>

definition guard_writes :: "'d guard_run \<Rightarrow> 'd \<Rightarrow> 'd guard_system \<Rightarrow> bool" where
  "guard_writes run db0 s \<longleftrightarrow>
     (\<forall>t<length (threads s). holding (threads s ! t) \<longrightarrow> Suc ((views s ! t) Shared_Data) = length (versions s)) \<and>
     ((\<forall>pc\<in>set (threads s). \<not> holding pc) \<longrightarrow> Suc (known (last (writer_active (guard s))) Shared_Data) = length (versions s)) \<and>
     (\<forall>t<length (threads s). \<forall>d. threads s ! t = Write_Working d \<longrightarrow> d = database s) \<and>
     database s = foldl (\<lambda>d t. work_fn run t d) db0 (committed s) \<and> distinct (committed s) \<and>
     (\<forall>t\<in>set (committed s). t < length (threads s) \<and> (threads s ! t = Write_Worked \<or> threads s ! t = Finished))"

text \<open>A step that does not store a result leaves the versions as they are.\<close>

lemma thread_step_frame:
  assumes "read_only run" "\<not> (\<exists>d. threads s ! t = Write_Working d)"
  shows "versions (thread_step run spurious lag t s) = versions s" "committed (thread_step run spurious lag t s) = committed s"
  using assms by (cases "threads s ! t"; simp add: thread_step_defs read_only_def)+

lemma thread_step_writing:
  assumes "t < length (threads s)" "threads s ! t = Write_Working d" "length (views s) = length (threads s)"
  shows "versions (thread_step run spurious lag t s) = versions s @ [work_fn run t d]"
    "committed (thread_step run spurious lag t s) = committed s @ [t]"
    "threads (thread_step run spurious lag t s) = (threads s)[t := Write_Worked]"
    "guard (thread_step run spurious lag t s) = guard s"
    "(views (thread_step run spurious lag t s) ! t) Shared_Data = length (versions s)"
    "fence_view (thread_step run spurious lag t s) = fence_view s"
    "l \<noteq> Shared_Data \<Longrightarrow> (views (thread_step run spurious lag t s) ! t) l = (views s ! t) l"
  using assms by (simp_all add: thread_step_defs)

text \<open>The copy a thread takes when its view is at the newest version.\<close>

lemma newest_copy: "Suc i = length xs \<Longrightarrow> xs ! max i (length xs - 1 - lag) = last xs"
proof -
  assume "Suc i = length xs"
  then have "max i (length xs - 1 - lag) = length xs - 1" "xs \<noteq> []" by auto
  then show ?thesis by (simp add: last_conv_nth)
qed

lemma thread_step_copy:
  assumes "t < length (threads s)"
  shows "threads (thread_step run spurious lag t s) ! t = Write_Working d \<Longrightarrow>
      holding (threads s ! t) \<and> d = versions s ! max ((views s ! t) Shared_Data) (length (versions s) - 1 - lag)"
    "threads (thread_step run spurious lag t s) ! t = Read_Working d \<Longrightarrow>
      threads s ! t = Read_Locked \<and> d = versions s ! max ((views s ! t) Shared_Data) (length (versions s) - 1 - lag)"
    "threads s ! t = Write_Worked \<or> threads s ! t = Finished \<Longrightarrow> threads (thread_step run spurious lag t s) ! t = Finished"
  using assms by (cases "threads s ! t"; auto simp: thread_step_defs split: if_splits)+

text \<open>A view that was at the newest version of an object that got no other stays there.\<close>

lemma newest_kept:
  assumes "guard_memory s" "t < length (threads s)" "u < length (threads s)"
    and "versions (thread_step run spurious lag t s) = versions s" "n \<le> (views (thread_step run spurious lag t s) ! u) Shared_Data"
    and "Suc n = length (versions s)"
  shows "Suc ((views (thread_step run spurious lag t s) ! u) Shared_Data) = length (versions s)"
proof -
  have "bounded (extent (guard (thread_step run spurious lag t s)) (length (versions s))) (views (thread_step run spurious lag t s) ! u)"
    using guard_memory_facts(1)[OF guard_memory_step[OF assms(1,2)], of u run spurious lag] assms(3,4) by simp
  then have "(views (thread_step run spurious lag t s) ! u) Shared_Data < length (versions s)" by (metis bounded_def extent_simps(4))
  then show ?thesis using assms(5,6) by simp
qed

lemma guard_writes_store:
  assumes "guard_memory s" "guard_counts s" "guard_writes run db0 s" "t < length (threads s)" "threads s ! t = Write_Working d"
  shows "guard_writes run db0 (thread_step run spurious lag t s)"
proof -
  let ?s = "thread_step run spurious lag t s"
  note st = thread_step_writing(1-6)[OF assms(4,5) guard_memory_facts(6)[OF assms(1,4)], of run spurious lag]
  note other = thread_step_other[of _ t run spurious lag s]
  have alone: "u = t" if "u < length (threads s)" "holding (threads s ! u)" for u
    using guard_counts_facts(2)[OF assms(2,4) _ that] assms(5) by simp
  have pc: "threads ?s ! t = Write_Worked" using st(3) assms(4) by simp
  have "Write_Worked \<in> set (threads ?s)" using st(3) assms(4) by (simp add: set_update_memI)
  moreover have "Suc ((views ?s ! u) Shared_Data) = length (versions ?s)" if "u < length (threads s)" "holding (threads ?s ! u)" for u
    using alone[of u] that other[of u] st(1,5) by (cases "u = t") auto
  moreover have "threads ?s ! u \<noteq> Write_Working d'" if "u < length (threads s)" for u d'
    using alone[of u] that other(1)[of u] pc by (cases "u = t") auto
  moreover have "database ?s = foldl (\<lambda>d t. work_fn run t d) db0 (committed ?s)"
    using assms(3-5) st(1,2) by (auto simp: guard_writes_def)
  moreover have old: "u < length (threads s)" "u \<noteq> t" "threads s ! u = Write_Worked \<or> threads s ! u = Finished" if "u \<in> set (committed s)" for u
    using assms(3,5) that unfolding guard_writes_def by auto
  have "distinct (committed ?s)" using old(2) assms(3) st(2) by (auto simp: guard_writes_def)
  moreover have "\<forall>u\<in>set (committed ?s). u < length (threads s) \<and> (threads ?s ! u = Write_Worked \<or> threads ?s ! u = Finished)"
    using old st(2) pc other(1) assms(4) by auto
  ultimately show ?thesis unfolding guard_writes_def by (metis holding.simps(6) thread_step_length(1))
qed

lemma guard_writes_step:
  assumes "guard_memory s" "guard_counts s" "guard_writes run db0 s" "read_only run" "t < length (threads s)"
  shows "guard_writes run db0 (thread_step run spurious lag t s)"
proof (cases "\<exists>d. threads s ! t = Write_Working d")
  case True
  then show ?thesis using guard_writes_store[OF assms(1-3,5)] by blast
next
  case False
  let ?s = "thread_step run spurious lag t s"
  note frame = thread_step_frame[OF assms(4) False, of spurious lag]
  note other = thread_step_other[of _ t run spurious lag s] and len = guard_memory_facts(6)[OF assms(1,5)]
  note grows = thread_step_grows(1)[OF assms(1,5), of _ _ run spurious lag]
  have held: "Suc ((views s ! u) Shared_Data) = length (versions s)" if "u < length (threads s)" "holding (threads s ! u)" for u
    using assms(3) that by (simp add: guard_writes_def)
  have free: "Suc (known (last (writer_active (guard s))) Shared_Data) = length (versions s)" if "\<forall>pc\<in>set (threads s). \<not> holding pc"
    using assms(3) that by (simp add: guard_writes_def)
  have none: "\<forall>pc\<in>set (threads s). \<not> holding pc" if "latest (writer_active (guard s)) = 0"
    using assms(2) that by (simp add: guard_counts_def tally_zero)
  have "Suc ((views ?s ! u) Shared_Data) = length (versions ?s)" if u: "u < length (threads s)" "holding (threads ?s ! u)" for u
  proof (cases "holding (threads s ! u)")
    case True
    then show ?thesis using newest_kept[OF assms(1,5) u(1) frame(1) grows] held[OF u(1)] frame(1) by simp
  next
    case False
    then have t: "u = t" using u other(1)[of u] by (cases "u = t") auto
    have "latest (writer_active (guard s)) = 0 \<and> known (last (writer_active (guard s))) Shared_Data \<le> (views ?s ! t) Shared_Data"
      using assms(5) len by (cases rule: thread_step_active[of t s run spurious lag]) (use False u t in auto)
    then show ?thesis using newest_kept[OF assms(1,5,5) frame(1)] free none frame(1) t by auto
  qed
  moreover have "Suc (known (last (writer_active (guard ?s))) Shared_Data) = length (versions ?s)" if idle: "\<forall>pc\<in>set (threads ?s). \<not> holding pc"
    using assms(5) len
  proof (cases rule: thread_step_active[of t s run spurious lag])
    case kept
    have "\<not> holding (threads s ! u)" if "u < length (threads s)" for u
      using idle that other(1)[of u] kept(2) nth_mem[of u "threads ?s"] by (cases "u = t") auto
    then have "\<forall>pc\<in>set (threads s). \<not> holding pc" by (auto simp: in_set_conv_nth)
    then show ?thesis using free kept(1) frame(1) by simp
  next
    case (taken x)
    then show ?thesis using idle nth_mem[of t "threads ?s"] assms(5) by auto
  next
    case (freed x)
    then show ?thesis using held[OF assms(5)] frame(1) by simp
  qed
  moreover have "d = database ?s" if u: "u < length (threads s)" "threads ?s ! u = Write_Working d" for u d
  proof (cases "u = t")
    case True
    then show ?thesis using thread_step_copy(1)[OF assms(5), of run spurious lag d] u held[OF assms(5)] newest_copy frame(1) by metis
  next
    case False
    then have "threads s ! u = Write_Working d" using u other(1)[of u] by simp
    then show ?thesis using u(1) assms(3) frame(1) unfolding guard_writes_def by metis
  qed
  moreover have "\<forall>u\<in>set (committed ?s). u < length (threads s) \<and> (threads ?s ! u = Write_Worked \<or> threads ?s ! u = Finished)"
  proof
    fix u assume "u \<in> set (committed ?s)"
    then have "u < length (threads s)" "threads s ! u = Write_Worked \<or> threads s ! u = Finished"
      using assms(3) frame(2) by (auto simp: guard_writes_def)
    then show "u < length (threads s) \<and> (threads ?s ! u = Write_Worked \<or> threads ?s ! u = Finished)"
      using thread_step_copy(3)[OF assms(5), of run spurious lag] other(1)[of u] by (cases "u = t") auto
  qed
  ultimately show ?thesis using assms(3) frame unfolding guard_writes_def by simp
qed

text \<open>Every value 0 of the flag that can still be read from a position on makes the newest version known.\<close>

definition fresh_from :: "'d guard_system \<Rightarrow> nat \<Rightarrow> bool" where
  "fresh_from s i \<longleftrightarrow>
     (\<forall>j. i \<le> j \<and> j < length (writer_active (guard s)) \<and> written (writer_active (guard s) ! j) = 0 \<longrightarrow>
        Suc (known (writer_active (guard s) ! j) Shared_Data) = length (versions s))"

definition guard_reads :: "'d guard_system \<Rightarrow> bool" where
  "guard_reads s \<longleftrightarrow>
     fresh_from s (fence_view s Writer_Active) \<and>
     (\<forall>r<length (threads s). threads s ! r = Read_Recheck_Active \<longrightarrow> fresh_from s ((views s ! r) Writer_Active)) \<and>
     (\<forall>r<length (threads s). admitted (threads s ! r) \<longrightarrow> Suc ((views s ! r) Shared_Data) = length (versions s)) \<and>
     (\<forall>r<length (threads s). \<forall>d. threads s ! r = Read_Working d \<longrightarrow> d = database s)"

lemma fresh_mono: "fresh_from s i \<Longrightarrow> i \<le> j \<Longrightarrow> fresh_from s j"
  by (auto simp: fresh_from_def)

lemma ahead_fresh: "ahead (\<lambda>n. n \<noteq> 0) (writer_active (guard s)) i \<Longrightarrow> fresh_from s i"
  by (auto simp: fresh_from_def ahead_def)

lemma fresh_step:
  assumes "guard_memory s" "guard_writes run db0 s" "t < length (threads s)"
    and "versions (thread_step run spurious lag t s) = versions s" "fresh_from s i"
  shows "fresh_from (thread_step run spurious lag t s) i"
  using assms(3) guard_memory_facts(6)[OF assms(1,3)]
proof (cases rule: thread_step_active[of t s run spurious lag])
  case (freed m)
  then have "Suc (known m Shared_Data) = length (versions s)" using assms(2,3) by (simp add: guard_writes_def)
  then show ?thesis using freed(1) assms(4,5) by (auto simp: fresh_from_def nth_append)
qed (use assms(4,5) in \<open>auto simp: fresh_from_def nth_append\<close>)

lemma guard_reads_store:
  assumes "guard_memory s" "guard_counts s" "guard_fences s" "guard_handshake s" "t < length (threads s)" "threads s ! t = Write_Working d"
  shows "guard_reads (thread_step run spurious lag t s)"
proof -
  let ?s = "thread_step run spurious lag t s"
  note st = thread_step_writing(1-6)[OF assms(5,6) guard_memory_facts(6)[OF assms(1,5)], of run spurious lag]
  note other = thread_step_other[of _ t run spurious lag s]
  have "Write_Working d \<in> set (threads s)" using assms(5,6) nth_mem by metis
  then have "Suc (fence_view s Writer_Active) = length (writer_active (guard s))" using assms(3) by (force simp: guard_fences_def)
  moreover have "latest (writer_active (guard s)) = 1" using guard_counts_facts(1)[OF assms(2,5)] assms(6) by simp
  ultimately have "ahead (\<lambda>n. n \<noteq> 0) (writer_active (guard s)) (fence_view s Writer_Active)" by (simp add: ahead_last)
  then have "fresh_from ?s (fence_view ?s Writer_Active)" using ahead_fresh[of ?s] st(4,6) by simp
  moreover have "\<not> admitted (threads ?s ! r) \<and> fresh_from ?s ((views ?s ! r) Writer_Active)" if r: "r < length (threads s)" "counted (threads ?s ! r)" for r
  proof -
    have "r \<noteq> t" using r st(3) assms(5) by auto
    then have pc: "threads ?s ! r = threads s ! r" "views ?s ! r = views s ! r" using other[of r] by simp_all
    then have "ahead (\<lambda>n. n \<noteq> 0) (writer_active (guard s)) ((views s ! r) Writer_Active) \<and> \<not> admitted (threads s ! r)"
      using assms(4-6) r unfolding guard_handshake_def by fastforce
    then show ?thesis using pc st(4) ahead_fresh[of ?s] by simp
  qed
  moreover have "threads ?s ! r \<noteq> Read_Working d'" if "r < length (threads s)" for r d'
    using calculation(2)[OF that] by auto
  ultimately show ?thesis using pc_implications(1) unfolding guard_reads_def by (metis counted.simps(1) thread_step_length(1))
qed

lemma guard_reads_step:
  assumes "guard_memory s" "guard_counts s" "guard_fences s" "guard_handshake s" "guard_writes run db0 s" "guard_reads s"
    and "platform_fence run" "read_only run" "t < length (threads s)"
  shows "guard_reads (thread_step run spurious lag t s)"
proof (cases "\<exists>d. threads s ! t = Write_Working d")
  case True
  then show ?thesis using guard_reads_store[OF assms(1-4,9)] by blast
next
  case False
  let ?s = "thread_step run spurious lag t s"
  note frame = thread_step_frame[OF assms(8) False, of spurious lag]
  note other = thread_step_other[of _ t run spurious lag s] and len = guard_memory_facts(6)[OF assms(1,9)]
  note grows = thread_step_grows[OF assms(1,9)]
  note fresh = fresh_step[OF assms(1,5,9) frame(1)]
  have fences: "fresh_from s (fence_view s Writer_Active)" using assms(6) by (simp add: guard_reads_def)
  have known_last: "Suc ((views s ! r) Shared_Data) = length (versions s)" if "r < length (threads s)" "admitted (threads s ! r)" for r
    using assms(6) that by (auto simp: guard_reads_def)
  have waiting: "fresh_from s ((views s ! r) Writer_Active)" if "r < length (threads s)" "threads s ! r = Read_Recheck_Active" for r
    using assms(6) that by (auto simp: guard_reads_def)
  have "Suc ((views ?s ! r) Shared_Data) = length (versions ?s)" if r: "r < length (threads s)" "admitted (threads ?s ! r)" for r
  proof (cases "admitted (threads s ! r)")
    case True
    then show ?thesis using newest_kept[OF assms(1,9) r(1) frame(1) grows(1)] known_last[OF r(1)] frame(1) by simp
  next
    case False
    then have t: "r = t" using r other(1)[of r] by (cases "r = t") auto
    note new = thread_step_admitted[OF assms(1,9) r(2)[unfolded t] False[unfolded t]]
    obtain i where i: "(views s ! t) Writer_Active \<le> i" "i < length (writer_active (guard s))" "written (writer_active (guard s) ! i) = 0"
      "known (writer_active (guard s) ! i) Shared_Data \<le> (views ?s ! t) Shared_Data" using new(2) by blast
    then have "Suc (known (writer_active (guard s) ! i) Shared_Data) = length (versions s)"
      using waiting[OF assms(9) new(1)] by (auto simp: fresh_from_def)
    then show ?thesis using newest_kept[OF assms(1,9,9) frame(1) i(4)] frame(1) t by simp
  qed
  moreover have "fresh_from ?s ((views ?s ! r) Writer_Active)" if r: "r < length (threads s)" "threads ?s ! r = Read_Recheck_Active" for r
  proof (cases "r = t")
    case True
    then have "\<not> counted (threads s ! t)" using r assms(9) by (cases "threads s ! t") (auto simp: thread_step_defs split: if_splits)
    then have "fence_view s Writer_Active \<le> (views ?s ! r) Writer_Active"
      using thread_step_fenced[OF assms(9) len assms(7), of spurious lag Writer_Active] r(2) True by simp
    then show ?thesis using fresh[OF fresh_mono[OF fences]] by simp
  next
    case False
    then show ?thesis using fresh[OF fresh_mono[OF waiting[OF r(1)] grows(1)]] other(1)[of r] r(2) by simp
  qed
  moreover have "fresh_from ?s (fence_view ?s Writer_Active)" using fresh[OF fresh_mono[OF fences grows(2)]] .
  moreover have "d = database ?s" if r: "r < length (threads s)" "threads ?s ! r = Read_Working d" for r d
  proof (cases "r = t")
    case True
    then show ?thesis using thread_step_copy(2)[OF assms(9), of run spurious lag d] r known_last[OF assms(9)] newest_copy frame(1) by (metis admitted.simps(2))
  next
    case False
    then have "threads s ! r = Read_Working d" using r other(1)[of r] by simp
    then show ?thesis using r(1) assms(6) frame(1) unfolding guard_reads_def by metis
  qed
  ultimately show ?thesis unfolding guard_reads_def by simp
qed

section \<open>Reachable states\<close>

lemma guard_start_facts:
  "guard_memory (guard_start db writers)" "guard_counts (guard_start db writers)" "guard_owner (guard_start db writers)"
  "guard_fences (guard_start db writers)"
  "guard_handshake (guard_start db writers)" "guard_writes run db (guard_start db writers)" "guard_reads (guard_start db writers)"
proof -
  have idle: "\<not> counted pc \<and> \<not> holding pc \<and> \<not> announced pc \<and> \<not> admitted pc \<and> pc \<noteq> Read_Recheck_Active \<and> pc \<noteq> Read_Working d \<and> pc \<noteq> Write_Working d"
    if "pc \<in> set (threads (guard_start db writers))" for pc d using that by (auto simp: guard_start_def)
  then have pcs: "\<not> counted (threads (guard_start db writers) ! t) \<and> \<not> holding (threads (guard_start db writers) ! t) \<and>
      \<not> admitted (threads (guard_start db writers) ! t) \<and> threads (guard_start db writers) ! t \<noteq> Read_Recheck_Active \<and>
      threads (guard_start db writers) ! t \<noteq> Read_Working d \<and> threads (guard_start db writers) ! t \<noteq> Write_Working d"
    if "t < length (threads (guard_start db writers))" for t d using nth_mem[OF that] by blast
  have z: "tally counted (threads (guard_start db writers)) = 0" "tally holding (threads (guard_start db writers)) = 0"
    "tally announced (threads (guard_start db writers)) = 0" using idle by (auto simp: tally_zero)
  have e: "bounded (extent (guard (guard_start db writers)) (length (versions (guard_start db writers)))) (\<lambda>_. 0)"
    by (auto simp: bounded_def extent_def guard_start_def atomic_init_def split: location.splits)
  then show "guard_memory (guard_start db writers)" by (auto simp: guard_memory_def guard_start_def atomic_init_def)
  show "guard_counts (guard_start db writers)" using z by (simp add: guard_counts_def) (simp add: guard_start_def atomic_init_def latest_def)
  show "guard_fences (guard_start db writers)" by (auto simp: guard_fences_def guard_start_def atomic_init_def)
  show "guard_owner (guard_start db writers)" using pcs unfolding guard_owner_def by blast
  show "guard_handshake (guard_start db writers)" using pcs unfolding guard_handshake_def by blast
  have g: "writer_active (guard (guard_start db writers)) = atomic_init 0" "versions (guard_start db writers) = [db]"
    "committed (guard_start db writers) = []" "fence_view (guard_start db writers) = (\<lambda>_. 0)" by (simp_all add: guard_start_def)
  show "guard_writes run db (guard_start db writers)" unfolding guard_writes_def g using pcs by (simp add: atomic_init_def)
  show "guard_reads (guard_start db writers)" unfolding guard_reads_def fresh_from_def g using pcs by (simp add: atomic_init_def)
qed

definition guard_inv :: "'d guard_run \<Rightarrow> 'd \<Rightarrow> 'd guard_system \<Rightarrow> bool" where
  "guard_inv run db0 s \<longleftrightarrow>
     guard_memory s \<and> guard_counts s \<and> guard_owner s \<and> (platform_fence run \<longrightarrow> guard_fences s \<and> guard_handshake s) \<and>
     (read_only run \<longrightarrow> guard_writes run db0 s) \<and> (platform_fence run \<and> read_only run \<longrightarrow> guard_reads s)"

lemma guard_inv_step: "guard_inv run db0 s \<Longrightarrow> guard_step run s s' \<Longrightarrow> guard_inv run db0 s'"
  by (auto elim!: guard_step.cases simp: guard_inv_def
      intro: guard_memory_step guard_counts_step guard_owner_step guard_fences_step guard_handshake_step guard_writes_step guard_reads_step)

lemma guard_reachable_inv: "guard_reachable run db writers s \<Longrightarrow> guard_inv run db s"
  unfolding guard_reachable_def
  by (induction rule: rtranclp_induct) (simp_all add: guard_inv_def[of _ _ "guard_start _ _"] guard_start_facts guard_inv_step)

section \<open>The reader/writer lock it implements\<close>

text \<open>
  The contract: the sets of the threads that hold the lock for reading and for writing; a reader is
  let in when there is no writer, a writer when there is nobody.
\<close>

type_synonym rw_lock = "nat set \<times> nat set"

inductive rw_step :: "rw_lock \<Rightarrow> rw_lock \<Rightarrow> bool" where
  acquire_read: "t \<notin> R \<Longrightarrow> rw_step (R, {}) (insert t R, {})"
| release_read: "t \<in> R \<Longrightarrow> rw_step (R, W) (R - {t}, W)"
| acquire_write: "rw_step ({}, {}) ({}, {t})"
| release_write: "rw_step (R, {t}) (R, {})"

fun in_read :: "'d guard_pc \<Rightarrow> bool" where
  "in_read Read_Locked = True"
| "in_read (Read_Working d) = True"
| "in_read Read_Worked = True"
| "in_read pc = False"

fun in_write :: "'d guard_pc \<Rightarrow> bool" where
  "in_write Write_Locked = True"
| "in_write (Write_Working d) = True"
| "in_write Write_Worked = True"
| "in_write pc = False"

definition where_pc :: "('d guard_pc \<Rightarrow> bool) \<Rightarrow> 'd guard_system \<Rightarrow> nat set" where
  "where_pc P s = {t. t < length (threads s) \<and> P (threads s ! t)}"

definition rw_view :: "'d guard_system \<Rightarrow> rw_lock" where
  "rw_view s = (where_pc in_read s, where_pc in_write s)"

lemma where_pc_update:
  assumes "t < length (threads s)" "threads s' = (threads s)[t := pc]"
  shows "where_pc P s' = (if P pc then insert t (where_pc P s) else where_pc P s - {t})"
  using assms by (auto simp: where_pc_def nth_list_update split: if_splits)

lemma where_pc_iff: "t < length (threads s) \<Longrightarrow> t \<in> where_pc P s \<longleftrightarrow> P (threads s ! t)"
  by (simp add: where_pc_def)

lemma thread_step_threads:
  "t < length (threads s) \<Longrightarrow>
   threads (thread_step run spurious lag t s) = (threads s)[t := threads (thread_step run spurious lag t s) ! t]"
  by (cases "threads s ! t") (simp_all add: thread_step_defs)

lemma section_implications: "in_read pc \<Longrightarrow> admitted pc" "in_write pc \<Longrightarrow> exclusive pc"
  by (cases pc; simp)+

lemma only_writer:
  assumes "guard_counts s" "t < length (threads s)" "holding (threads s ! t)" "u < length (threads s)" "in_write (threads s ! u)"
  shows "u = t"
  using guard_counts_facts(2)[OF assms(1-4)] assms(5) section_implications(2) pc_implications(2) by blast

lemma section_entry:
  assumes "guard_counts s" "guard_handshake s" "t < length (threads s)"
  shows "threads s ! t = Read_Recheck_Waiting \<Longrightarrow> where_pc in_write s = {}"
    "threads s ! t = Write_Withdraw \<Longrightarrow> where_pc in_write s = {} \<and> where_pc in_read s = {}"
    "in_write (threads s ! t) \<Longrightarrow> where_pc in_write s = {t}"
proof -
  note ex = handshake_exclusion[OF assms(2)] and one = only_writer[OF assms(1,3)]
  show "threads s ! t = Read_Recheck_Waiting \<Longrightarrow> where_pc in_write s = {}"
    using ex[of _ t] section_implications(2) assms(3) by (fastforce simp: where_pc_def)
  show "where_pc in_write s = {} \<and> where_pc in_read s = {}" if w: "threads s ! t = Write_Withdraw"
  proof -
    have "\<not> in_write (threads s ! u)" if "u < length (threads s)" for u using one[of u] w that by auto
    moreover have "\<not> in_read (threads s ! u)" if "u < length (threads s)" for u
      using ex[of t u] section_implications(1)[of "threads s ! u"] w assms(3) that by auto
    ultimately show ?thesis by (simp add: where_pc_def)
  qed
  show "where_pc in_write s = {t}" if w: "in_write (threads s ! t)"
    unfolding where_pc_def using one pc_implications(2)[OF section_implications(2)[OF w]] assms(3) w by blast
qed

lemma thread_step_rw:
  assumes "guard_counts s" "guard_handshake s" "t < length (threads s)"
  shows "rw_view (thread_step run spurious lag t s) = rw_view s \<or> rw_step (rw_view s) (rw_view (thread_step run spurious lag t s))"
proof -
  let ?s = "thread_step run spurious lag t s"
  let ?pc = "threads s ! t" and ?pc' = "threads ?s ! t"
  note entry = section_entry[OF assms]
  have upd: "where_pc P ?s = (if P ?pc' then insert t (where_pc P s) else where_pc P s - {t})" for P
    by (rule where_pc_update[OF assms(3) thread_step_threads[OF assms(3)]])
  have old: "t \<in> where_pc P s \<longleftrightarrow> P ?pc" for P by (rule where_pc_iff[OF assms(3)])
  consider (same) "in_read ?pc' = in_read ?pc" "in_write ?pc' = in_write ?pc"
    | (enter_read) "?pc = Read_Recheck_Waiting" "in_read ?pc'" "\<not> in_write ?pc'" | (leave_read) "in_read ?pc" "\<not> in_write ?pc" "?pc' = Finished"
    | (enter_write) "?pc = Write_Withdraw" "in_write ?pc'" "\<not> in_read ?pc'" | (leave_write) "in_write ?pc" "\<not> in_read ?pc" "?pc' = Finished"
    using assms(3) by (cases ?pc; cases "fst (atomic_load Writers_Waiting (writers_waiting (guard s)) lag (views s ! t)) = 0")
      (auto simp: thread_step_defs split: if_splits)
  then show ?thesis
  proof cases
    case same
    then show ?thesis using old by (auto simp: rw_view_def upd)
  next
    case enter_read
    then show ?thesis using entry(1) old acquire_read[of t "where_pc in_read s"] by (simp add: rw_view_def upd)
  next
    case leave_read
    then show ?thesis using old release_read[of t "where_pc in_read s" "where_pc in_write s"] by (simp add: rw_view_def upd)
  next
    case enter_write
    then show ?thesis using entry(2) acquire_write[of t] by (simp add: rw_view_def upd)
  next
    case leave_write
    then show ?thesis using entry(3) old release_write[of "where_pc in_read s" t] by (simp add: rw_view_def upd)
  qed
qed

section \<open>Progress\<close>

definition unfinished :: "'d guard_system \<Rightarrow> int" where
  "unfinished s = tally (\<lambda>pc. pc \<noteq> Finished) (threads s)"

text \<open>There is a schedule from \<open>s\<close> on which one more thread finishes.\<close>

definition can_finish_one :: "'d guard_run \<Rightarrow> 'd guard_system \<Rightarrow> bool" where
  "can_finish_one run s \<longleftrightarrow> (\<exists>s'. (guard_step run)\<^sup>*\<^sup>* s s' \<and> unfinished s' < unfinished s)"

text \<open>A step of a thread whose loads return the latest values.\<close>

abbreviation (input) advance :: "'d guard_run \<Rightarrow> nat \<Rightarrow> 'd guard_system \<Rightarrow> 'd guard_system" where
  "advance run t s \<equiv> thread_step run False 0 t s"

definition guard_live :: "'d guard_system \<Rightarrow> bool" where
  "guard_live s \<longleftrightarrow> guard_memory s \<and> guard_counts s"

lemma guard_live_step: "guard_live s \<Longrightarrow> t < length (threads s) \<Longrightarrow> guard_live (thread_step run spurious lag t s)"
  by (simp add: guard_live_def guard_memory_step guard_counts_step)

lemma guard_live_loads:
  assumes "guard_live s" "t < length (threads s)"
  shows "fst (atomic_load Reader_Count (reader_count (guard s)) 0 (views s ! t)) = latest (reader_count (guard s))"
    "fst (atomic_load Writer_Active (writer_active (guard s)) 0 (views s ! t)) = latest (writer_active (guard s))"
    "fst (atomic_load Writers_Waiting (writers_waiting (guard s)) 0 (views s ! t)) = latest (writers_waiting (guard s))"
  using assms by (auto simp: guard_live_def intro!: load_latest[OF guard_memory_facts(1)])

lemma unfinished_step:
  assumes "t < length (threads s)" "threads s ! t \<noteq> Finished"
  shows "unfinished (thread_step run spurious lag t s) = unfinished s - of_bool (threads (thread_step run spurious lag t s) ! t = Finished)"
  using assms unfolding unfinished_def by (subst thread_step_threads) (simp_all add: tally_update)

lemma can_finish_advance:
  assumes "t < length (threads s)" "threads s ! t \<noteq> Finished"
    and "threads (advance run t s) ! t = Finished \<or> can_finish_one run (advance run t s)"
  shows "can_finish_one run s"
proof -
  have step: "guard_step run s (advance run t s)" using assms(1) by (rule guard_step.step)
  consider "threads (advance run t s) ! t = Finished" | "can_finish_one run (advance run t s)" using assms(3) by blast
  then show ?thesis
  proof cases
    case 1
    then show ?thesis using step unfinished_step[OF assms(1,2), of run False 0] by (auto simp: can_finish_one_def)
  next
    case 2
    then obtain s' where s': "(guard_step run)\<^sup>*\<^sup>* (advance run t s) s'" "unfinished s' < unfinished (advance run t s)"
      by (auto simp: can_finish_one_def)
    have "(guard_step run)\<^sup>*\<^sup>* s s'" using step s'(1) by (rule converse_rtranclp_into_rtranclp)
    moreover have "unfinished s' < unfinished s" 
      using s'(2) unfinished_step[OF assms(1,2), of run False 0] by (cases "threads (advance run t s) ! t = Finished") auto
    ultimately show ?thesis unfolding can_finish_one_def by blast
  qed
qed

lemmas can_finish_now = can_finish_advance[OF _ _ disjI1]

lemmas can_finish_next = can_finish_advance[OF _ _ disjI2]

lemma finish_worked: "t < length (threads s) \<Longrightarrow> threads s ! t = Read_Worked \<or> threads s ! t = Write_Worked \<Longrightarrow> can_finish_one run s"
  by (rule can_finish_now) (auto simp: thread_step_defs)

lemma finish_working:
  "t < length (threads s) \<Longrightarrow> threads s ! t = Read_Working d \<or> threads s ! t = Write_Working d \<Longrightarrow> can_finish_one run s"
  by (rule can_finish_next[of t], assumption, force) (rule finish_worked[of t], auto simp: thread_step_defs)

lemma finish_locked: "t < length (threads s) \<Longrightarrow> threads s ! t = Read_Locked \<or> threads s ! t = Write_Locked \<Longrightarrow> can_finish_one run s"
  by (rule can_finish_next[of t], assumption, force) (rule finish_working[of t], auto simp: thread_step_defs)

lemma finish_withdraw: "t < length (threads s) \<Longrightarrow> threads s ! t = Write_Withdraw \<Longrightarrow> can_finish_one run s"
  by (rule can_finish_next[of t], assumption, simp) (rule finish_locked[of t], simp_all add: thread_step_defs)

text \<open>A reader that no writer disturbs gets through.\<close>

definition undisturbed :: "nat \<Rightarrow> 'd guard_pc \<Rightarrow> 'd guard_system \<Rightarrow> bool" where
  "undisturbed t pc s \<longleftrightarrow> guard_live s \<and> t < length (threads s) \<and> threads s ! t = pc \<and>
     latest (writer_active (guard s)) = 0 \<and> latest (writers_waiting (guard s)) = 0"

lemma undisturbed_next:
  assumes "undisturbed t pc s" "\<And>s' :: 'd guard_system. undisturbed t pc' s' \<Longrightarrow> can_finish_one run s'" "pc \<noteq> Finished"
    and "threads (advance run t s) ! t = pc'" "writer_active (guard (advance run t s)) = writer_active (guard s)"
      "writers_waiting (guard (advance run t s)) = writers_waiting (guard s)"
  shows "can_finish_one run s"
proof (rule can_finish_next[of t])
  show "t < length (threads s)" "threads s ! t \<noteq> Finished" using assms(1,3) by (simp_all add: undisturbed_def)
  show "can_finish_one run (advance run t s)"
    using assms(1,4-6) guard_live_step[of s t run False 0] by (intro assms(2)) (simp add: undisturbed_def)
qed

lemma undisturbed_facts:
  "undisturbed t pc s \<Longrightarrow> threads s ! t = pc \<and> t < length (threads s) \<and>
     fst (atomic_load Writer_Active (writer_active (guard s)) 0 (views s ! t)) = 0 \<and>
     fst (atomic_load Writers_Waiting (writers_waiting (guard s)) 0 (views s ! t)) = 0"
  using guard_live_loads[of s t] by (simp add: undisturbed_def)

lemma finish_reader_alone:
  fixes s :: "'d guard_system"
  assumes "undisturbed t (threads s ! t) s" "reading (threads s ! t)"
  shows "can_finish_one run s"
proof -
  note go = undisturbed_next and facts = undisturbed_facts
  have locked: "undisturbed t pc s \<Longrightarrow> pc = Read_Locked \<or> pc = Read_Worked \<Longrightarrow> can_finish_one run s" for s :: "'d guard_system" and pc
    using finish_locked[of t s] finish_worked[of t s] by (auto simp: undisturbed_def)
  have working: "undisturbed t (Read_Working d) s \<Longrightarrow> can_finish_one run s" for s :: "'d guard_system" and d
    by (rule finish_working[of t]) (simp_all add: undisturbed_def)
  have recheck: "undisturbed t Read_Recheck_Waiting s \<Longrightarrow> can_finish_one run s" for s :: "'d guard_system"
    by (rule go[of t Read_Recheck_Waiting s Read_Locked], assumption, erule locked, simp, simp)
      (auto dest!: facts simp: thread_step_defs)
  have recheck': "undisturbed t Read_Recheck_Active s \<Longrightarrow> can_finish_one run s" for s :: "'d guard_system"
    by (rule go[of t Read_Recheck_Active s Read_Recheck_Waiting], assumption, erule recheck, simp) (auto dest!: facts simp: thread_step_defs)
  have enter: "undisturbed t Read_Enter s \<Longrightarrow> can_finish_one run s" for s :: "'d guard_system"
    by (rule go[of t Read_Enter s Read_Recheck_Active], assumption, erule recheck', simp) (auto dest!: facts simp: thread_step_defs)
  have waiting: "undisturbed t Read_Load_Waiting s \<Longrightarrow> can_finish_one run s" for s :: "'d guard_system"
    by (rule go[of t Read_Load_Waiting s Read_Enter], assumption, erule enter, simp) (auto dest!: facts simp: thread_step_defs)
  have active: "undisturbed t Read_Load_Active s \<Longrightarrow> can_finish_one run s" for s :: "'d guard_system"
    by (rule go[of t Read_Load_Active s Read_Load_Waiting], assumption, erule waiting, simp) (auto dest!: facts simp: thread_step_defs)
  have leaving: "undisturbed t Read_Back_Off s \<Longrightarrow> can_finish_one run s" for s :: "'d guard_system"
    by (rule go[of t Read_Back_Off s Read_Load_Active], assumption, erule active, simp) (auto dest!: facts simp: thread_step_defs)
  show ?thesis
    using assms locked working recheck recheck' enter waiting active leaving by (cases "threads s ! t") auto
qed

text \<open>A writer that holds the flag waits for the counted readers; each of them leaves in two steps, or gets through.\<close>

lemma finish_load_readers:
  assumes "guard_live s" "t < length (threads s)" "threads s ! t = Write_Load_Readers"
  shows "can_finish_one run s"
  using assms
proof (induction "nat (tally counted (threads s))" arbitrary: s rule: less_induct)
  case less
  note t = less.prems(2,3)
  have counts: "guard_counts s" using less.prems(1) by (simp add: guard_live_def)
  have leave: "can_finish_one run s1" if s1: "guard_live s1" "threads s1 ! t = Write_Load_Readers" "length (threads s1) = length (threads s)"
      "tally counted (threads s1) = tally counted (threads s)" and u: "u < length (threads s1)" "threads s1 ! u = Read_Back_Off" for s1 u
  proof (rule can_finish_next[of u])
    have "threads (advance run u s1) = (threads s1)[u := Read_Load_Active]" by (simp add: thread_step_defs u(2))
    moreover have "0 < tally counted (threads s1)" using tally_pos[OF nth_mem[OF u(1)]] u(2) by simp
    ultimately have "nat (tally counted (threads (advance run u s1))) < nat (tally counted (threads s))" "threads (advance run u s1) ! t = Write_Load_Readers"
      using u s1(2,4) by (auto simp: tally_update nth_list_update)
    then show "can_finish_one run (advance run u s1)"
      using less.hyps guard_live_step[OF s1(1) u(1)] s1(3) t(1) by simp
  qed (use u in simp_all)
  show ?case
  proof (cases "latest (reader_count (guard s)) = 0")
    case True
    then show ?thesis using t guard_live_loads(1)[OF less.prems(1,2)]
      by (intro can_finish_next[OF t(1)] finish_withdraw[of t]) (simp_all add: thread_step_defs)
  next
    case False
    then have "\<not> (\<forall>pc\<in>set (threads s). \<not> counted pc)" using counts tally_zero[of counted] by (auto simp: guard_counts_def)
    then obtain u where u: "u < length (threads s)" "counted (threads s ! u)" by (auto simp: in_set_conv_nth)
    have busy: "latest (writer_active (guard s)) = 1" "latest (writers_waiting (guard s)) \<noteq> 0"
      using guard_counts_facts(1,3)[OF counts less.prems(2)] t(2) by auto
    have recheck: "can_finish_one run s" if "threads s ! u = Read_Recheck_Active \<or> threads s ! u = Read_Recheck_Waiting"
    proof (rule can_finish_next[OF u(1)])
      have ths: "threads (advance run u s) = (threads s)[u := Read_Back_Off]"
        using that busy guard_live_loads[OF less.prems(1) u(1)] by (auto simp: thread_step_defs)
      have "u \<noteq> t" using that t(2) by auto
      then show "can_finish_one run (advance run u s)"
        using that u(1) t(2) guard_live_step[OF less.prems(1) u(1)]
        by (intro leave[of _ u]) (auto simp: ths tally_update)
    qed (use that in auto)
    show ?thesis
      using u(2) recheck finish_locked[OF u(1)] finish_working[OF u(1)] finish_worked[OF u(1)] leave[OF less.prems(1,3) refl refl u(1)]
      by (cases "threads s ! u") auto
  qed
qed

lemma finish_swap:
  assumes "guard_live s" "t < length (threads s)" "threads s ! t = Write_Swap" "latest (writer_active (guard s)) = 0"
  shows "can_finish_one run s"
proof (rule can_finish_next[OF assms(2)])
  show "can_finish_one run (advance run t s)"
    using assms guard_live_step[OF assms(1,2), of run False 0]
    by (intro finish_load_readers[of _ t]) (simp_all add: thread_step_defs)
qed (use assms(3) in simp)

text \<open>A thread that has the flag gets through, or gives the flag up and lets another one have it.\<close>

lemma finish_holding:
  assumes "guard_live s" "t < length (threads s)" "holding (threads s ! t)"
  shows "can_finish_one run s"
proof -
  have "can_finish_one run s" if "threads s ! t = Write_Back_Off"
  proof (rule can_finish_next[OF assms(2)])
    show "can_finish_one run (advance run t s)"
      using that assms(2) guard_live_step[OF assms(1,2), of run False 0]
      by (intro finish_swap[of _ t]) (simp_all add: thread_step_defs)
  qed (use that in simp)
  then show ?thesis
    using assms finish_load_readers finish_withdraw[OF assms(2)] finish_locked[OF assms(2)] finish_working[OF assms(2)] finish_worked[OF assms(2)]
    by (cases "threads s ! t") auto
qed

lemma finish_announced:
  assumes "guard_live s" "t < length (threads s)" "threads s ! t = Write_Swap"
  shows "can_finish_one run s"
proof (cases "latest (writer_active (guard s)) = 0")
  case True
  then show ?thesis using finish_swap[OF assms] by blast
next
  case False
  then have "\<not> (\<forall>pc\<in>set (threads s). \<not> holding pc)" using assms(1) tally_zero[of holding] by (auto simp: guard_live_def guard_counts_def)
  then obtain u where "u < length (threads s)" "holding (threads s ! u)" by (auto simp: in_set_conv_nth)
  then show ?thesis by (rule finish_holding[OF assms(1)])
qed

lemma finish_writer:
  assumes "guard_live s" "t < length (threads s)" "\<not> reading (threads s ! t)" "threads s ! t \<noteq> Finished"
  shows "can_finish_one run s"
proof -
  have "can_finish_one run s" if "threads s ! t = Write_Announce"
  proof (rule can_finish_next[OF assms(2,4)])
    show "can_finish_one run (advance run t s)"
      using that assms(2) guard_live_step[OF assms(1,2), of run False 0]
      by (intro finish_announced[of _ t]) (simp_all add: thread_step_defs)
  qed
  then show ?thesis
    using assms finish_announced[OF assms(1,2)] finish_holding[OF assms(1,2)] by (cases "threads s ! t") auto
qed

lemma guard_progress:
  assumes "guard_live s" "unfinished s \<noteq> 0"
  shows "can_finish_one run s"
proof (cases "\<exists>t<length (threads s). \<not> reading (threads s ! t) \<and> threads s ! t \<noteq> Finished")
  case True
  then show ?thesis using finish_writer[OF assms(1)] by blast
next
  case False
  have imp: "\<not> reading pc \<and> pc \<noteq> Finished" if "holding pc \<or> announced pc" for pc :: "'a guard_pc" using that by (cases pc) auto
  obtain t where t: "t < length (threads s)" "threads s ! t \<noteq> Finished"
    using assms(2) by (auto simp: unfinished_def tally_zero in_set_conv_nth)
  have "\<forall>pc\<in>set (threads s). \<not> holding pc \<and> \<not> announced pc" using False imp by (fastforce simp: in_set_conv_nth)
  then have "latest (writer_active (guard s)) = 0" "latest (writers_waiting (guard s)) = 0"
    using assms(1) by (auto simp: guard_live_def guard_counts_def tally_zero)
  then show ?thesis using finish_reader_alone[of t s] t False assms(1) by (auto simp: undisturbed_def)
qed

lemma guard_all_finish: "guard_live s \<Longrightarrow> \<exists>s'. (guard_step run)\<^sup>*\<^sup>* s s' \<and> (\<forall>pc\<in>set (threads s'). pc = Finished)"
proof (induction "nat (unfinished s)" arbitrary: s rule: less_induct)
  case less
  show ?case
  proof (cases "unfinished s = 0")
    case True
    then show ?thesis by (auto simp: unfinished_def tally_zero)
  next
    case False
    then obtain s1 where s1: "(guard_step run)\<^sup>*\<^sup>* s s1" "unfinished s1 < unfinished s"
      using guard_progress[OF less.prems] by (auto simp: can_finish_one_def)
    from s1(1) have "guard_live s1"
      by (induction rule: rtranclp_induct) (use less.prems in \<open>auto elim!: guard_step.cases simp: guard_live_step\<close>)
    moreover have "nat (unfinished s1) < nat (unfinished s)"
      using s1(2) tally_nonneg[of "\<lambda>pc. pc \<noteq> Finished" "threads s1"] by (simp add: unfinished_def del: tally_nonneg)
    ultimately show ?thesis using less.hyps[of s1] s1(1) by (meson rtranclp_trans)
  qed
qed

section \<open>Who does what\<close>

text \<open>A thread that was started as a writer stores its result exactly once before it finishes; a reader never does.\<close>

definition role :: "bool \<Rightarrow> nat \<Rightarrow> 'd guard_system \<Rightarrow> bool" where
  "role writer t s \<longleftrightarrow>
     (if writer
      then \<not> reading (threads s ! t) \<and> (threads s ! t = Write_Worked \<or> threads s ! t = Finished \<longrightarrow> t \<in> set (committed s))
      else (reading (threads s ! t) \<or> threads s ! t = Finished) \<and> t \<notin> set (committed s))"

definition guard_roles :: "bool list \<Rightarrow> 'd guard_system \<Rightarrow> bool" where
  "guard_roles writers s \<longleftrightarrow> length (threads s) = length writers \<and> (\<forall>t<length writers. role (writers ! t) t s)"

lemma guard_roles_step:
  assumes "guard_roles writers s" "t < length (threads s)"
  shows "guard_roles writers (thread_step run spurious lag t s)"
proof -
  let ?s = "thread_step run spurious lag t s"
  have com: "set (committed s) \<subseteq> set (committed ?s)" "set (committed ?s) \<subseteq> insert t (set (committed s))"
    by (cases "threads s ! t"; auto simp: thread_step_defs)+
  have mine: "role (writers ! t) t ?s"
    using assms unfolding guard_roles_def role_def
    by (cases "threads s ! t") (auto simp: thread_step_defs split: if_splits)
  have "role (writers ! u) u ?s" if "u < length writers" for u
    using mine assms(1) that thread_step_other(1)[of u t run spurious lag s] com
    by (cases "u = t") (auto simp: guard_roles_def role_def)
  then show ?thesis using assms(1) by (simp add: guard_roles_def)
qed

lemma guard_reachable_roles: "guard_reachable run db writers s \<Longrightarrow> guard_roles writers s"
  unfolding guard_reachable_def
proof (induction rule: rtranclp_induct)
  case base
  then show ?case by (simp add: guard_roles_def guard_start_def role_def)
next
  case (step s s')
  then show ?case by (auto elim!: guard_step.cases simp: guard_roles_step)
qed

text \<open>The state after the threads took one step each in the given order, each with the given lag of its loads.\<close>

definition guard_schedule :: "'d guard_run \<Rightarrow> 'd \<Rightarrow> bool list \<Rightarrow> (nat \<times> nat) list \<Rightarrow> 'd guard_system" where
  "guard_schedule run db writers ts = fold (\<lambda>(t, lag). thread_step run False lag t) ts (guard_start db writers)"

lemma guard_reachable_run:
  assumes "guard_reachable run db writers s" "\<forall>(t, lag)\<in>set ts. t < length writers"
  shows "guard_reachable run db writers (fold (\<lambda>(t, lag). thread_step run False lag t) ts s)"
  using assms
proof (induction ts arbitrary: s)
  case (Cons x ts)
  obtain t lag where x: "x = (t, lag)" by (cases x)
  then have "t < length (threads s)" using guard_reachable_roles[OF Cons.prems(1)] Cons.prems(2) by (simp add: guard_roles_def)
  then have "guard_reachable run db writers (thread_step run False lag t s)"
    using Cons.prems(1) by (auto simp: guard_reachable_def intro: rtranclp.rtrancl_into_rtrancl guard_step.step)
  then show ?case using Cons x by simp
qed simp

lemma guard_schedule_reachable:
  "\<forall>(t, lag)\<in>set ts. t < length writers \<Longrightarrow> guard_reachable run db writers (guard_schedule run db writers ts)"
  unfolding guard_schedule_def by (rule guard_reachable_run) (simp_all add: guard_reachable_def)

section \<open>Properties of the lock\<close>

text \<open>
  C3. Mutual exclusion, for any number of threads, every interleaving of their accesses and every value the
  memory orders of the sources let a load return: while a writer is in its section no other writer is in
  one, on every platform; and no reader is, on a platform whose read-modify-write operations are full
  fences.
\<close>

theorem guard_mutual_exclusion:
  assumes "guard_reachable run db writers s" "t < length (threads s)" "in_write (threads s ! t)"
    and "u < length (threads s)" "u \<noteq> t"
  shows "\<not> in_write (threads s ! u) \<and> (platform_fence run \<longrightarrow> \<not> in_read (threads s ! u))"
proof -
  have inv: "guard_counts s" "platform_fence run \<longrightarrow> guard_handshake s" using guard_reachable_inv[OF assms(1)] by (simp_all add: guard_inv_def)
  have ex: "exclusive (threads s ! t)" using assms(3) by (rule section_implications(2))
  have "\<not> in_write (threads s ! u)" using only_writer[OF inv(1) assms(2) pc_implications(2)[OF ex] assms(4)] assms(5) by blast
  moreover have "\<not> in_read (threads s ! u)" if "platform_fence run"
    using handshake_exclusion[OF _ assms(2,4) ex] inv(2) that section_implications(1) by blast
  ultimately show ?thesis by blast
qed

definition sample_run :: "bool \<Rightarrow> nat guard_run" where
  "sample_run f = \<lparr>platform_fence = f, look_fn = (\<lambda>t d. d), work_fn = (\<lambda>t d. 2 * d + t)\<rparr>"

text \<open>The schedule of the store-buffering test: both threads make themselves known and then look for the other one, as far back as they may.\<close>

definition sample_schedule :: "(nat \<times> nat) list" where
  "sample_schedule = [(1, 0), (1, 0), (1, 0), (0, 0), (0, 0), (0, 9), (0, 0), (1, 9), (1, 9), (1, 9)]"

theorem guard_mutual_exclusion_witness:
  "let s = guard_schedule (sample_run True) 5 [True, False] [(0, 0), (1, 0), (1, 9), (0, 0), (0, 9), (0, 0), (0, 0), (1, 0), (1, 9)]
   in threads s = [Write_Working 5, Read_Back_Off] \<and> \<not> in_write (threads s ! 1) \<and> \<not> in_read (threads s ! 1)"
proof -
  let ?ts = "[(0, 0), (1, 0), (1, 9), (0, 0), (0, 9), (0, 0), (0, 0), (1, 0), (1, 9)]"
  let ?s = "guard_schedule (sample_run True) 5 [True, False] ?ts"
  have ths: "threads ?s = [Write_Working 5, Read_Back_Off]" by code_simp
  moreover have "guard_reachable (sample_run True) 5 [True, False] ?s" by (rule guard_schedule_reachable) simp
  ultimately show ?thesis using guard_mutual_exclusion[of "sample_run True" 5 "[True, False]" ?s 0 1] by (simp add: Let_def sample_run_def)
qed

text \<open>
  The fence is needed: with the memory orders of the sources alone, a reader and a writer that look at each
  other's announcement at the same time both miss it and work together. On a platform with fences the
  same schedule lets the reader in only; the writer has given the flag back.
\<close>

theorem reader_and_writer_without_fence:
  "threads (guard_schedule (sample_run False) 5 [True, False] sample_schedule) = [Write_Locked, Read_Working 5] \<and>
   threads (guard_schedule (sample_run True) 5 [True, False] sample_schedule) = [Write_Swap, Read_Working 5]"
  by code_simp

text \<open>
  C27. On a platform whose read-modify-write operations are full fences, every step of the spinning lock is a
  step of the reader/writer lock it stands for, or none: a reader is let in only when no writer holds the
  lock, a writer only when nobody holds it, and each leaves once.
\<close>

theorem guard_refines_rw_lock:
  assumes "guard_reachable run db writers s" "platform_fence run" "guard_step run s s'"
  shows "rw_view s' = rw_view s \<or> rw_step (rw_view s) (rw_view s')"
  using assms(3)
proof cases
  case (step t spurious lag)
  then show ?thesis using guard_reachable_inv[OF assms(1)] assms(2) thread_step_rw[of s t run spurious lag] by (simp add: guard_inv_def)
qed

theorem guard_refines_rw_lock_witness:
  "let s = guard_schedule (sample_run True) 5 [True, False] [(1, 0), (1, 0), (1, 0), (1, 0)] in
   rw_view s = ({}, {}) \<and> rw_view (thread_step (sample_run True) False 0 1 s) = ({1}, {}) \<and> rw_step ({}, {}) ({1}, {})"
proof -
  let ?s = "guard_schedule (sample_run True) 5 [True, False] [(1, 0), (1, 0), (1, 0), (1, 0)]"
  let ?s' = "thread_step (sample_run True) False 0 1 ?s"
  have ths: "threads ?s = [Write_Announce, Read_Recheck_Waiting]" "threads ?s' = [Write_Announce, Read_Locked]" by code_simp+
  have view: "rw_view ?s = ({}, {})" "rw_view ?s' = ({1}, {})"
    unfolding rw_view_def where_pc_def ths by (auto simp: less_Suc_eq nth_Cons')
  have "guard_reachable (sample_run True) 5 [True, False] ?s" by (rule guard_schedule_reachable) simp
  moreover have "guard_step (sample_run True) ?s ?s'" by (rule guard_step.step) (unfold ths, simp)
  moreover have "platform_fence (sample_run True)" by (simp add: sample_run_def)
  ultimately show ?thesis using guard_refines_rw_lock[of "sample_run True" 5 "[True, False]" ?s ?s'] view by (simp add: Let_def)
qed

text \<open>
  C28. No update is lost, provided that what runs under the read lock leaves the shared data as it is: at every
  moment the newest version of the data is the result of applying the work of the writers that stored it
  one after the other, each once; what a writer in its section has read is that version; and when all
  threads are done, exactly the writers have stored their work. This holds with the memory orders of the
  sources; on a platform whose read-modify-write operations are full fences, what a reader in its section
  has read is the newest version too.
\<close>

theorem guard_serialises_writers:
  assumes "guard_reachable run db writers s" "read_only run"
  shows "database s = foldl (\<lambda>d t. work_fn run t d) db (committed s) \<and> distinct (committed s) \<and>
    (\<forall>t<length (threads s). \<forall>d. threads s ! t = Write_Working d \<longrightarrow> d = database s) \<and>
    (platform_fence run \<longrightarrow> (\<forall>t<length (threads s). \<forall>d. threads s ! t = Read_Working d \<longrightarrow> d = database s)) \<and>
    ((\<forall>pc\<in>set (threads s). pc = Finished) \<longrightarrow> set (committed s) = {t. t < length writers \<and> writers ! t})"
proof -
  have data: "guard_writes run db s" "platform_fence run \<longrightarrow> guard_reads s"
    using guard_reachable_inv[OF assms(1)] assms(2) by (simp_all add: guard_inv_def)
  have roles: "guard_roles writers s" by (rule guard_reachable_roles[OF assms(1)])
  have "t \<in> set (committed s) \<longleftrightarrow> t < length writers \<and> writers ! t" if fin: "\<forall>pc\<in>set (threads s). pc = Finished" for t
  proof (cases "t < length writers")
    case True
    then have "threads s ! t = Finished" using fin nth_mem[of t "threads s"] roles by (simp add: guard_roles_def)
    moreover have "role (writers ! t) t s" using roles True unfolding guard_roles_def by blast
    ultimately show ?thesis using True by (simp add: role_def split: if_splits)
  next
    case False
    have "length (threads s) = length writers" using roles unfolding guard_roles_def by blast
    moreover have "t \<in> set (committed s) \<Longrightarrow> t < length (threads s)" using data(1) unfolding guard_writes_def by blast
    ultimately show ?thesis using False by auto
  qed
  then have "(\<forall>pc\<in>set (threads s). pc = Finished) \<longrightarrow> set (committed s) = {t. t < length writers \<and> writers ! t}" by blast
  moreover have "platform_fence run \<longrightarrow> (\<forall>t<length (threads s). \<forall>d. threads s ! t = Read_Working d \<longrightarrow> d = database s)"
    using data(2) unfolding guard_reads_def by blast
  ultimately show ?thesis using data(1) unfolding guard_writes_def by blast
qed

theorem guard_serialises_writers_witness:
  "let s = guard_schedule (sample_run False) 5 [True, True] [(0, 0), (1, 0), (0, 0), (0, 0), (1, 0), (0, 0), (0, 0), (0, 0), (0, 0),
       (1, 0), (1, 0), (1, 0), (1, 9), (1, 0), (1, 0)] in
   threads s = [Finished, Finished] \<and> database s = 21 \<and> set (committed s) = {t. t < 2 \<and> [True, True] ! t}"
proof -
  let ?ts = "[(0, 0), (1, 0), (0, 0), (0, 0), (1, 0), (0, 0), (0, 0), (0, 0), (0, 0), (1, 0), (1, 0), (1, 0), (1, 9), (1, 0), (1, 0)]"
  let ?s = "guard_schedule (sample_run False) 5 [True, True] ?ts"
  have ths: "threads ?s = [Finished, Finished]" "database ?s = 21" by code_simp+
  moreover have "guard_reachable (sample_run False) 5 [True, True] ?s" by (rule guard_schedule_reachable) simp
  moreover have "read_only (sample_run False)" by (simp add: read_only_def sample_run_def)
  ultimately show ?thesis
    using guard_serialises_writers[of "sample_run False" 5 "[True, True]" ?s] by (simp add: Let_def numeral_2_eq_2)
qed

text \<open>
  C29. No deadlock: from every state the threads can get into, with whatever accesses interleaved and whatever
  values loaded so far, there is a schedule on which all of them finish.
\<close>

theorem guard_no_deadlock:
  assumes "guard_reachable run db writers s"
  shows "\<exists>s'. (guard_step run)\<^sup>*\<^sup>* s s' \<and> (\<forall>pc\<in>set (threads s'). pc = Finished)"
  using guard_all_finish[of s run] guard_reachable_inv[OF assms] by (simp add: guard_inv_def guard_live_def)

theorem guard_no_deadlock_witness:
  "let s = guard_schedule (sample_run False) 5 [True, True] [(0, 0), (1, 0), (1, 0), (1, 0), (0, 0), (0, 0)] in
   threads s = [Write_Swap, Write_Withdraw] \<and>
   (\<exists>s'. (guard_step (sample_run False))\<^sup>*\<^sup>* s s' \<and> (\<forall>pc\<in>set (threads s'). pc = Finished))"
proof -
  let ?s = "guard_schedule (sample_run False) 5 [True, True] [(0, 0), (1, 0), (1, 0), (1, 0), (0, 0), (0, 0)]"
  have "threads ?s = [Write_Swap, Write_Withdraw]" by code_simp
  moreover have "guard_reachable (sample_run False) 5 [True, True] ?s" by (rule guard_schedule_reachable) simp
  ultimately show ?thesis using guard_no_deadlock[of "sample_run False" 5 "[True, True]" ?s] by (simp add: Let_def)
qed

end
