(* ===== verification/Request_Handler.thy ===== *)
theory Request_Handler
  imports Sql_Service Http_Protocol Db_Guard
begin

text \<open>
  \<^verbatim>\<open>src/server/request/request_handler.c\<close> and \<^verbatim>\<open>include/request_handler.h\<close>: from a parsed HTTP request
  to the HTTP response.

  A call runs to its end here; how the calls of several workers interleave at the database guard is the
  subject of the theory of the guard. What the call does with the guard is part of its result: the list
  of the locks it held while the statement ran.
\<close>

section \<open>The handler\<close>

record RequestHandler =
  sql_service :: "SqlService option"
  db_guard :: "DbGuard option"

record request_world =
  for_service :: service_world
  error_granted :: bool
  handler_granted :: bool
  reply_granted :: bool
  body_granted :: bool
  response_granted :: bool

datatype lock_mode = Read_Lock | Write_Lock

fun blank_loop :: "string \<Rightarrow> nat \<Rightarrow> bool" where
  "blank_loop s 0 = True"
| "blank_loop s (Suc n) = (if \<not> isspace (peek s) then False else blank_loop (tl s) n)"

definition is_blank_text :: "string option \<Rightarrow> nat \<Rightarrow> bool" where
  "is_blank_text text len = (case text of None \<Rightarrow> True | Some s \<Rightarrow> blank_loop s len)"

definition set_json_response :: "request_world \<Rightarrow> int \<Rightarrow> string option \<Rightarrow> HttpResponse result" where
  "set_json_response world code body =
     (let p = (case body of None \<Rightarrow> [] | Some b \<Rightarrow> b) in
      if \<not> reply_granted world then fail ''failed to allocate HTTP response body''
      else Inr \<lparr>status_code = code, content_type = Some ''application/json; charset=utf-8'', response_body = Some p, response_body_length = length p\<rparr>)"

definition handler_error_payload :: "request_world \<Rightarrow> string option \<Rightarrow> string result" where
  \<open>handler_error_payload world msg =
     (case sql_json_quote (world_heap (for_service world)) (Some (case msg of None \<Rightarrow> ''unknown request error'' | Some m \<Rightarrow> m)) of
        Inl e \<Rightarrow> Inl e
      | Inr quoted \<Rightarrow>
          if \<not> error_granted world then fail ''failed to allocate JSON error payload''
          else Inr (''{"ok":false,"error":{"message":'' @ quoted @ ''}}''))\<close>

definition set_json_error_response :: "request_world \<Rightarrow> int \<Rightarrow> string \<Rightarrow> HttpResponse result" where
  "set_json_error_response world code msg =
     (case handler_error_payload world (Some msg) of Inl e \<Rightarrow> Inl e | Inr p \<Rightarrow> set_json_response world code (Some p))"

text \<open>The call of \<open>sql_service_execute\<close>: the new service, the result, and whether there is a payload.\<close>

definition execute_sql_work ::
  "request_world \<Rightarrow> filesystem \<Rightarrow> SqlService option \<Rightarrow> string option \<Rightarrow>
     (SqlService option \<times> filesystem \<times> SqlServiceResult \<times> SqlError option \<times> bool) option" where
  "execute_sql_work world fs service sql_text = do {
     (service, fs, result, e) \<leftarrow> sql_service_execute (for_service world) fs service sql_text;
     Some (service, fs, result, e, payload result \<noteq> None) }"

definition request_handler_create :: "request_world \<Rightarrow> SqlService option \<Rightarrow> DbGuard option \<Rightarrow> RequestHandler result" where
  "request_handler_create world service dbg =
     (if service = None then fail ''request_handler_create requires a SQL service''
      else if dbg = None then fail ''request_handler_create requires a DB guard''
      else if \<not> handler_granted world then fail ''failed to allocate request handler''
      else Inr \<lparr>sql_service = service, db_guard = dbg\<rparr>)"

text \<open>The end of \<open>request_handler_handle\<close>, when the statement has run.\<close>

definition execution_response :: "request_world \<Rightarrow> SqlServiceResult \<Rightarrow> SqlError option \<Rightarrow> bool \<Rightarrow> HttpResponse result" where
  "execution_response world result e executed =
     (if payload result \<noteq> None then set_json_response world (if ok result then 200 else 400) (payload result)
      else if \<not> executed
      then set_json_error_response world 500
             (case e of
                Some err \<Rightarrow> if message err \<noteq> [] then message err else ''Failed to execute SQL request.''
              | None \<Rightarrow> ''Failed to execute SQL request.'')
      else set_json_error_response world 500 ''SQL request completed without a response payload.'')"

definition request_handler_handle ::
  "request_world \<Rightarrow> filesystem \<Rightarrow> RequestHandler option \<Rightarrow> HttpRequest option \<Rightarrow>
     (RequestHandler option \<times> filesystem \<times> lock_mode list \<times> HttpResponse result) option" where
  "request_handler_handle world fs handler request =
     (case (handler, request) of
        (Some h, Some rq) \<Rightarrow>
          if sql_service h = None
          then Some (handler, fs, [], set_json_error_response world 500 ''SQL service is not configured.'')
          else if db_guard h = None
          then Some (handler, fs, [], set_json_error_response world 500 ''DB guard is not configured.'')
          else if http_method rq \<noteq> ''POST''
          then Some (handler, fs, [], set_json_error_response world 405 ''Only POST requests are supported.'')
          else if peek (http_path rq) \<noteq> CHR ''/''
          then Some (handler, fs, [], set_json_error_response world 400 ''Request path must start with '/'.'')
          else if request_body rq = None \<or> request_body_length rq = 0 \<or> is_blank_text (request_body rq) (request_body_length rq)
          then Some (handler, fs, [], set_json_error_response world 400 ''Request body must contain SQL text.'')
          else (case sql_service_classify_operation (request_body rq) of
                  (_, Inl e) \<Rightarrow> Some (handler, fs, [], set_json_error_response world 400 (message e))
                | (operation, Inr _) \<Rightarrow>
                    if operation = SQL_OPERATION_UNKNOWN
                    then Some (handler, fs, [], set_json_error_response world 400 ''Unsupported SQL operation.'')
                    else do {
                      (service, fs, result, e, executed) \<leftarrow> execute_sql_work world fs (sql_service h) (request_body rq);
                      Some (Some (h\<lparr>sql_service := service\<rparr>), fs, [if operation = SQL_OPERATION_READ then Read_Lock else Write_Lock],
                            execution_response world result e executed) })
      | _ \<Rightarrow> Some (handler, fs, [], fail ''request_handler_handle received invalid arguments''))"

section \<open>Answering a statement\<close>

lemma blank_loop_all: "blank_loop s (length s) = list_all isspace s"
  by (induction s) auto

lemma classified_not_blank:
  assumes "sql_service_classify_operation (Some sql) = (operation, Inr u)"
  shows "\<not> is_blank_text (Some sql) (length sql)"
proof
  assume "is_blank_text (Some sql) (length sql)"
  then have d: "dropWhile isspace sql = []" by (simp add: is_blank_text_def blank_loop_all list_all_iff)
  have "skip_sql_prefix sql = []" unfolding skip_sql_prefix.simps[of sql] Let_def d by simp
  then show False using assms by (simp add: sql_service_classify_operation_def)
qed

lemma handle_executed:
  assumes "sql_service_classify_operation (Some sql) = (operation, Inr u)" "operation \<noteq> SQL_OPERATION_UNKNOWN"
    and "sql_service h = Some s" "db_guard h \<noteq> None" "peek p = CHR ''/''" "sql \<noteq> []"
    and "sql_service_execute (for_service world) fs (Some s) (Some sql) = Some (s', fs', r, e)" "payload r = Some b" "reply_granted world"
  shows "request_handler_handle world fs (Some h)
      (Some \<lparr>http_method = ''POST'', http_path = p, request_body = Some sql, request_body_length = length sql\<rparr>) =
    Some (Some (h\<lparr>sql_service := s'\<rparr>), fs', [if operation = SQL_OPERATION_READ then Read_Lock else Write_Lock],
      Inr \<lparr>status_code = if ok r then 200 else 400, content_type = Some ''application/json; charset=utf-8'', response_body = Some b,
           response_body_length = length b\<rparr>)"
  using assms classified_not_blank[OF assms(1)]
  by (simp add: request_handler_handle_def execute_sql_work_def execution_response_def set_json_response_def)

section \<open>What a statement changes\<close>

text \<open>What running a read may do to the context: nothing, or load the table it names.\<close>

definition tables_loaded :: "DbContext \<Rightarrow> DbContext \<Rightarrow> bool" where
  "tables_loaded ctx ctx' \<longleftrightarrow> ctx' = ctx \<or> (\<exists>t. ctx' = ctx\<lparr>ctx_tables := ctx_tables ctx @ [t]\<rparr>)"

lemma get_table_loads: "db_context_get_table al fs ctx n = Some (ctx', res) \<Longrightarrow> tables_loaded ctx ctx'"
  by (auto simp: db_context_get_table_def tables_loaded_def split: option.splits if_splits sum.splits bind_splits)

lemma select_payload_loads: "build_select_payload world fs ctx q = Some (ctx', p) \<Longrightarrow> tables_loaded ctx ctx'"
  by (auto simp: build_select_payload_def Let_def dest: get_table_loads split: bind_splits sum.splits)

lemma read_statement_keeps_files:
  assumes "sql_service_classify_operation (Some sql) = (SQL_OPERATION_READ, r)" "cstring sql" "db_context s = Some ctx"
    and "sql_service_execute world fs (Some s) (Some sql) = Some (s', fs', res, e)"
  shows "fs' = fs \<and> (\<exists>ctx'. s' = Some (s\<lparr>db_context := Some ctx'\<rparr>) \<and> tables_loaded ctx ctx')"
proof -
  obtain q r1 where parse: "parse_sql_text (Some sql) (Some zeroed_query) = (q, r1)" by (cases "parse_sql_text (Some sql) (Some zeroed_query)")
  have same: "s = s\<lparr>db_context := Some ctx\<rparr>" using assms(3) by simp
  show ?thesis
  proof (cases r1)
    case (Inl e)
    then have "fs' = fs" "s' = Some s" using assms(3,4) parse by (auto simp: sql_service_execute_def split: bind_splits)
    then show ?thesis using same unfolding tables_loaded_def by blast
  next
    case (Inr u)
    then obtain q' where q': "q = Some q'" using parse by (auto simp: parse_sql_text_def Let_def split: if_splits sum.splits prod.splits)
    then have "query_type q' = QUERY_SELECT"
      using classify_parsed[of sql q'] parse Inr assms(1,2) by (cases "query_type q'") auto
    then show ?thesis using assms(3,4) parse Inr q' same
      by (auto simp: sql_service_execute_def Let_def dest: select_payload_loads split: bind_splits sum.splits)
  qed
qed

section \<open>Properties\<close>

text \<open>
  C39. Only the write lock allows a change: whatever the request, a call that took no lock leaves the
  handler and the files as they are; one that took the read lock leaves the files as they are, and of the
  context at most adds a table it loaded; and no call takes more than one lock.
\<close>

theorem handler_changes_under_write_lock:
  assumes "request_handler_handle world fs (Some h) (Some rq) = Some (h', fs', locks, resp)"
    and "sql_service h = Some s" "db_context s = Some ctx" "\<forall>b. request_body rq = Some b \<longrightarrow> cstring b"
  shows "locks = [] \<and> h' = Some h \<and> fs' = fs \<or>
    locks = [Read_Lock] \<and> fs' = fs \<and>
      (\<exists>ctx'. h' = Some (h\<lparr>sql_service := Some (s\<lparr>db_context := Some ctx'\<rparr>)\<rparr>) \<and> tables_loaded ctx ctx') \<or>
    locks = [Write_Lock]"
proof (cases "locks = []")
  case True
  then show ?thesis using assms(1)
    by (auto simp: request_handler_handle_def split: if_splits prod.splits sum.splits bind_splits)
next
  case False
  then obtain operation u sql service e executed result where run: "sql_service_classify_operation (request_body rq) = (operation, Inr u)"
      "operation \<noteq> SQL_OPERATION_UNKNOWN" "request_body rq = Some sql"
      "execute_sql_work world fs (sql_service h) (request_body rq) = Some (service, fs', result, e, executed)"
      "h' = Some (h\<lparr>sql_service := service\<rparr>)" "locks = [if operation = SQL_OPERATION_READ then Read_Lock else Write_Lock]"
    using assms(1) by (auto simp: request_handler_handle_def split: if_splits prod.splits sum.splits bind_splits)
  show ?thesis
  proof (cases "operation = SQL_OPERATION_READ")
    case True
    have "sql_service_execute (for_service world) fs (Some s) (Some sql) = Some (service, fs', result, e)"
      using run(3,4) assms(2) by (auto simp: execute_sql_work_def split: bind_splits)
    from read_statement_keeps_files[OF _ _ assms(3) this] show ?thesis using run True assms(4) by auto
  qed (use run in simp)
qed

definition sample_request_world :: request_world where
  "sample_request_world = \<lparr>for_service = sample_world, error_granted = True, handler_granted = True, reply_granted = True, body_granted = True, response_granted = True\<rparr>"

definition post_request :: "string \<Rightarrow> HttpRequest" where
  "post_request sql = \<lparr>http_method = ''POST'', http_path = ''/query'', request_body = Some sql, request_body_length = length sql\<rparr>"

definition sample_guard :: DbGuard where
  "sample_guard = \<lparr>reader_count = atomic_init 0, writer_active = atomic_init 0, writers_waiting = atomic_init 0\<rparr>"

definition sample_handler :: "DbContext \<Rightarrow> RequestHandler" where
  "sample_handler ctx = \<lparr>sql_service = Some \<lparr>db_context = Some ctx, service_db_root = ''db''\<rparr>, db_guard = Some sample_guard\<rparr>"

lemma sample_read:
  fixes ctx assumes "ctx = \<lparr>ctx_db_root = ''db'', ctx_tables = []\<rparr>"
  shows "\<exists>t resp. request_handler_handle sample_request_world sample_files (Some (sample_handler ctx)) (Some (post_request ''SELECT * FROM users'')) =
      Some (Some (sample_handler (ctx\<lparr>ctx_tables := [t]\<rparr>)), sample_files, [Read_Lock], Inr resp) \<and> status_code resp = 200 \<and> ts_name t = ''users''"
proof -
  let ?sql = "''SELECT * FROM users''" and ?q = "select_query ''users'' None"
  let ?s = "\<lparr>db_context = Some ctx, service_db_root = ''db''\<rparr>"
  obtain t where t: "table_state_load (sample_allocator 20) sample_files ''db'' ''users'' = Some (Inr t)" "ts_name t = ''users''"
      "ts_schema t = sample_schema" "rows (ts_rowset t) = [\<lparr>row_fields = [''1'', ''Ann'']\<rparr>]" using sample_table by blast
  have w: "heap_ok (world_heap sample_world)" "heap_total (world_heap sample_world)" "copy_granted sample_world"
    "world_allocator sample_world = sample_allocator 20" "tables_granted (sample_allocator 20)" by (simp_all add: sample_world_def sample_allocator_def)
  have get: "db_context_get_table (world_allocator sample_world) sample_files ctx (Some ''users'') = Some (ctx\<lparr>ctx_tables := [t]\<rparr>, Inr 0)"
    using t(1) w(4,5) assms by (simp add: db_context_get_table_def)
  have ready: "ready sample_files ctx ''users''" using assms sample_db_facts(1) sample_table(1) by (simp add: ready_def context_ok_def)
  have parse: "parse_sql_text (Some ?sql) (Some zeroed_query) = (Some ?q, Inr ())" "cstring ?sql" "query_type ?q = QUERY_SELECT"
    "table_name ?q = Some ''users''" by code_simp+
  have err: "condition_error ?q sample_schema = None" and sel: "selected_rows ?q t = [\<lparr>row_fields = [''1'', ''Ann'']\<rparr>]"
    using t(4) by (simp_all add: condition_error_def selected_rows_def select_query_def zeroed_query_def)
  have "length (select_json ''users'' sample_schema [\<lparr>row_fields = [''1'', ''Ann'']\<rparr>]) \<le> 100" by code_simp
  then have fits: "text_fits (length (select_json ''users'' sample_schema [\<lparr>row_fields = [''1'', ''Ann'']\<rparr>]))" by (simp add: text_fits_def)
  obtain r e where r: "sql_service_execute sample_world sample_files (Some ?s) (Some ?sql) =
      Some (Some (?s\<lparr>db_context := Some (ctx\<lparr>ctx_tables := [t]\<rparr>)\<rparr>), sample_files, r, e)" "ok r"
      "payload r = Some (cstr (select_json ''users'' sample_schema [\<lparr>row_fields = [''1'', ''Ann'']\<rparr>]))"
    using select_answer[OF ready _ parse w(1) get, of ?s t] w(2,3) t(3) fits by (auto simp: err sel)
  have cls: "sql_service_classify_operation (Some ?sql) = (SQL_OPERATION_READ, Inr ())" "\<not> is_blank_text (Some ?sql) (length ?sql)" by code_simp+
  show ?thesis
    using r cls t(2) by (intro exI[of _ t]) (simp add: request_handler_handle_def sample_handler_def post_request_def execute_sql_work_def execution_response_def
        set_json_response_def sample_request_world_def Let_def del: list.size)
qed

theorem handler_changes_under_write_lock_witness:
  "\<exists>h' resp. request_handler_handle sample_request_world sample_files (Some (sample_handler \<lparr>ctx_db_root = ''db'', ctx_tables = []\<rparr>))
       (Some (post_request ''SELECT * FROM users'')) = Some (h', sample_files, [Read_Lock], resp) \<and>
     (\<exists>ctx'. h' = Some (sample_handler ctx') \<and> tables_loaded \<lparr>ctx_db_root = ''db'', ctx_tables = []\<rparr> ctx')"
proof -
  let ?ctx = "\<lparr>ctx_db_root = ''db'', ctx_tables = []\<rparr>"
  obtain h' resp where run: "request_handler_handle sample_request_world sample_files (Some (sample_handler ?ctx))
       (Some (post_request ''SELECT * FROM users'')) = Some (h', sample_files, [Read_Lock], resp)"
    using sample_read[OF refl] by blast
  have "cstring ''SELECT * FROM users''" by code_simp
  then show ?thesis
    using handler_changes_under_write_lock[OF run, of "\<lparr>db_context = Some ?ctx, service_db_root = ''db''\<rparr>" ?ctx] run
    by (auto simp: sample_handler_def post_request_def)
qed

text \<open>
  The read lock does not exclude other readers, yet a read may add a table to the shared context: two
  readers that ask for a table that is not in memory both load it.
\<close>

theorem read_lock_loads_table:
  "\<exists>t resp. request_handler_handle sample_request_world sample_files (Some (sample_handler \<lparr>ctx_db_root = ''db'', ctx_tables = []\<rparr>))
       (Some (post_request ''SELECT * FROM users'')) =
     Some (Some (sample_handler \<lparr>ctx_db_root = ''db'', ctx_tables = [t]\<rparr>), sample_files, [Read_Lock], Inr resp) \<and> ts_name t = ''users''"
  using sample_read[OF refl] by auto

end
