(* ===== verification/Socket_Io.thy ===== *)
theory Socket_Io
  imports Json_Buffer Http_Protocol
begin

text \<open>
  The reading and writing half of \<^verbatim>\<open>src/server/api/socket_server.c\<close>: framing a request from the bytes a
  client sends, and writing all bytes of an answer.

  The socket is a parameter: the results its \<open>recv\<close> and \<open>send\<close> calls will have, in order. Bytes that arrive
  together but do not fit the buffer stay for the next call, as TCP has it. A call for which there is no
  result left never returns; that is the outer \<open>None\<close>. Buffers are bytes and may hold a NUL.
\<close>

section \<open>The head of a request\<close>

abbreviation (input) SERVER_REQUEST_INITIAL_CAPACITY :: nat where
  "SERVER_REQUEST_INITIAL_CAPACITY \<equiv> 1024"

abbreviation (input) SERVER_REQUEST_MAX_CAPACITY :: nat where
  "SERVER_REQUEST_MAX_CAPACITY \<equiv> 65536"

fun ascii_equals_loop :: "string \<Rightarrow> string \<Rightarrow> bool" where
  "ascii_equals_loop (l # ls) (r # rs) = (if tolower l \<noteq> tolower r then False else ascii_equals_loop ls rs)"
| "ascii_equals_loop _ _ = True"

definition server_ascii_case_equals :: "string \<Rightarrow> string \<Rightarrow> bool" where
  "server_ascii_case_equals left right = (if length right \<noteq> length left then False else ascii_equals_loop left right)"

text \<open>The loop over \<open>index\<close>: the position and the length of the first blank line.\<close>

fun terminator_loop :: "string \<Rightarrow> nat \<Rightarrow> (nat \<times> nat) option" where
  "terminator_loop (a # b # s) index =
     (if a = NEWLINE \<and> b = NEWLINE then Some (index, 2)
      else if prefix (CRLF @ CRLF) (a # b # s) then Some (index, 4)
      else terminator_loop (b # s) (Suc index))"
| "terminator_loop _ index = None"

definition server_find_request_terminator :: "string \<Rightarrow> (nat \<times> nat) option" where
  "server_find_request_terminator buffer = terminator_loop buffer 0"

definition line_char :: "char \<Rightarrow> bool" where
  "line_char c \<longleftrightarrow> c \<noteq> RETURN \<and> c \<noteq> NEWLINE"

text \<open>The loop over the characters of the value; the flag is \<open>saw_digit\<close>.\<close>

fun length_digits :: "string \<Rightarrow> nat \<Rightarrow> bool \<Rightarrow> (nat \<times> bool) result" where
  "length_digits [] parsed saw_digit = Inr (parsed, saw_digit)"
| "length_digits (c # s) parsed saw_digit =
     (if isdigit c then length_digits s (size_add (size_mul parsed 10) (nat (digit_value c))) True
      else if blank c
      then if list_all blank s then Inr (parsed, saw_digit) else fail ''Content-Length header is invalid''
      else fail ''Content-Length header is invalid'')"

definition length_value :: "string \<Rightarrow> nat result" where
  "length_value val =
     (case length_digits (dropWhile blank val) 0 False of
        Inl e \<Rightarrow> Inl e
      | Inr (parsed, saw_digit) \<Rightarrow>
          if \<not> saw_digit then fail ''Content-Length header is missing a numeric value'' else Inr parsed)"

function content_length_lines :: "string \<Rightarrow> nat result" where
  "content_length_lines cursor =
     (let hdr = takeWhile line_char cursor; rest = dropWhile (\<lambda>c. \<not> line_char c) (dropWhile line_char cursor) in
      if hdr = [] then Inr 0
      else case find_text hdr '':'' of
          Some colon \<Rightarrow>
            if server_ascii_case_equals (take colon hdr) ''Content-Length'' then length_value (drop (Suc colon) hdr)
            else content_length_lines rest
        | None \<Rightarrow> content_length_lines rest)"
  by pat_completeness auto

lemma content_length_rest:
  "takeWhile line_char cursor \<noteq> [] \<Longrightarrow> length (dropWhile (\<lambda>c. \<not> line_char c) (dropWhile line_char cursor)) < length cursor"
proof (cases cursor)
  case (Cons c s)
  assume "takeWhile line_char cursor \<noteq> []"
  then have "dropWhile line_char cursor = dropWhile line_char s" using Cons by (auto split: if_splits)
  then show ?thesis using Cons length_dropWhile_le[of "\<lambda>c. \<not> line_char c" "dropWhile line_char s"] length_dropWhile_le[of line_char s] by simp
qed simp

termination content_length_lines
  by (relation "measure length") (auto simp: content_length_rest)

declare content_length_lines.simps [simp del]

definition server_parse_content_length :: "string \<Rightarrow> nat \<Rightarrow> nat result" where
  "server_parse_content_length buffer header_length = content_length_lines (take header_length buffer)"

section \<open>Reading\<close>

datatype recv_result = Received string | Peer_Closed | Recv_Interrupted | Recv_Timeout | Recv_Fails

datatype ServerRequestReadStatus =
    SERVER_REQUEST_READ_OK string
  | SERVER_REQUEST_READ_EMPTY
  | SERVER_REQUEST_READ_TOO_LARGE SqlError
  | SERVER_REQUEST_READ_ERROR SqlError

record reader =
  buffer :: string
  buffer_capacity :: nat
  headers_complete :: bool
  header_length :: nat
  content_length :: nat

definition too_large :: ServerRequestReadStatus where
  "too_large = SERVER_REQUEST_READ_TOO_LARGE (sql_set_error 0 0 ''request exceeded the maximum supported size'')"

definition read_error :: "string \<Rightarrow> ServerRequestReadStatus" where
  "read_error msg = SERVER_REQUEST_READ_ERROR (sql_set_error 0 0 msg)"

text \<open>The checks before a \<open>recv\<close>: the status that ends the loop, or the reader with room in its buffer.\<close>

definition before_recv :: "(nat \<Rightarrow> bool) \<Rightarrow> reader \<Rightarrow> ServerRequestReadStatus + reader" where
  "before_recv grants rd =
     (if headers_complete rd \<and> size_add (header_length rd) (content_length rd) > SERVER_REQUEST_MAX_CAPACITY then Inl too_large
      else if length (buffer rd) \<noteq> buffer_capacity rd then Inr rd
      else if buffer_capacity rd \<ge> SERVER_REQUEST_MAX_CAPACITY then Inl too_large
      else let next_capacity = min (size_mul (buffer_capacity rd) 2) SERVER_REQUEST_MAX_CAPACITY in
        if \<not> grants (size_add next_capacity 1) then Inl (read_error ''failed to grow request buffer'')
        else Inr (rd\<lparr>buffer_capacity := next_capacity\<rparr>))"

text \<open>The bytes of one \<open>recv\<close>: the status that ends the loop, or the reader and whether the request is complete.\<close>

definition after_recv :: "reader \<Rightarrow> string \<Rightarrow> ServerRequestReadStatus + (reader \<times> bool)" where
  "after_recv rd bytes =
     (let rd = rd\<lparr>buffer := buffer rd @ bytes\<rparr> in
      case (if headers_complete rd then Inr rd
            else case server_find_request_terminator (buffer rd) of
                None \<Rightarrow> Inr rd
              | Some (index, terminator_length) \<Rightarrow>
                  (let header_len = index + terminator_length in
                   case server_parse_content_length (buffer rd) header_len of
                     Inl e \<Rightarrow> Inl (SERVER_REQUEST_READ_ERROR e)
                   | Inr content_len \<Rightarrow> Inr (rd\<lparr>headers_complete := True, header_length := header_len, content_length := content_len\<rparr>))) of
        Inl status \<Rightarrow> Inl status
      | Inr rd \<Rightarrow> Inr (rd, headers_complete rd \<and> length (buffer rd) \<ge> size_add (header_length rd) (content_length rd)))"

text \<open>What the function does after the loop.\<close>

definition read_finished :: "reader \<Rightarrow> ServerRequestReadStatus" where
  "read_finished rd =
     (if length (buffer rd) = 0 then SERVER_REQUEST_READ_EMPTY
      else if \<not> headers_complete rd then read_error ''HTTP request headers are incomplete''
      else if length (buffer rd) < size_add (header_length rd) (content_length rd) then read_error ''HTTP request body is incomplete''
      else SERVER_REQUEST_READ_OK (buffer rd))"

fun input_size :: "recv_result list \<Rightarrow> nat" where
  "input_size [] = 0"
| "input_size (Received bytes # rs) = Suc (length bytes) + input_size rs"
| "input_size (_ # rs) = Suc (input_size rs)"

function read_loop :: "(nat \<Rightarrow> bool) \<Rightarrow> recv_result list \<Rightarrow> reader \<Rightarrow> (recv_result list \<times> ServerRequestReadStatus) option" where
  "read_loop grants input rd =
     (case before_recv grants rd of
        Inl status \<Rightarrow> Some (input, status)
      | Inr rd \<Rightarrow>
          (case input of
             [] \<Rightarrow> None
           | Received bytes # input \<Rightarrow>
               (let room = buffer_capacity rd - length (buffer rd); now = take room bytes; later = drop room bytes;
                    input = (if later = [] then input else Received later # input) in
                if now = [] then Some (input, read_finished rd)
                else (case after_recv rd now of
                        Inl status \<Rightarrow> Some (input, status)
                      | Inr (rd, complete) \<Rightarrow> if complete then Some (input, read_finished rd) else read_loop grants input rd))
           | Peer_Closed # input \<Rightarrow> Some (Peer_Closed # input, read_finished rd)
           | Recv_Interrupted # input \<Rightarrow> read_loop grants input rd
           | Recv_Timeout # input \<Rightarrow> Some (input, read_finished rd)
           | Recv_Fails # input \<Rightarrow> Some (input, read_error ''failed to receive request bytes'')))"
  by pat_completeness auto

termination read_loop
proof (relation "measure (\<lambda>(_, input, _). input_size input)", goal_cases)
  case (2 grants input rd rd' res input' bytes room now later input'')
  then have "now \<noteq> []" "length now + length later = length bytes" by auto
  then show ?case using 2 by (cases later) auto
qed auto

declare read_loop.simps [simp del]

definition server_socket_read_request ::
  "bool \<Rightarrow> (nat \<Rightarrow> bool) \<Rightarrow> recv_result list \<Rightarrow> (recv_result list \<times> ServerRequestReadStatus) option" where
  "server_socket_read_request initial_granted grants input =
     (if \<not> initial_granted then Some (input, read_error ''failed to allocate request buffer'')
      else read_loop grants input
        \<lparr>buffer = [], buffer_capacity = SERVER_REQUEST_INITIAL_CAPACITY, headers_complete = False, header_length = 0, content_length = 0\<rparr>)"

section \<open>Writing\<close>

datatype send_result = Sent nat | Send_Interrupted | Send_Fails

text \<open>The bytes that were sent, whether all were, and the results that are left.\<close>

fun server_socket_write_all :: "send_result list \<Rightarrow> string \<Rightarrow> (send_result list \<times> string \<times> bool) option" where
  "server_socket_write_all out [] = Some (out, [], True)"
| "server_socket_write_all [] (c # s) = None"
| "server_socket_write_all (Sent n # out) (c # s) =
     (if n = 0 then Some (out, [], False)
      else case server_socket_write_all out (drop n (c # s)) of
          None \<Rightarrow> None
        | Some (out, sent, all) \<Rightarrow> Some (out, take n (c # s) @ sent, all))"
| "server_socket_write_all (Send_Interrupted # out) (c # s) = server_socket_write_all out (c # s)"
| "server_socket_write_all (Send_Fails # out) (c # s) = Some (out, [], False)"

definition plain_response_header :: "string \<Rightarrow> nat \<Rightarrow> string" where
  "plain_response_header status n =
     ''HTTP/1.1 '' @ status @ CRLF @ ''Content-Type: text/plain; charset=utf-8'' @ CRLF @
     ''Content-Length: '' @ show_nat n @ CRLF @ ''Connection: close'' @ CRLF @ CRLF"

definition server_socket_send_plain_response :: "send_result list \<Rightarrow> string \<Rightarrow> string \<Rightarrow> (send_result list \<times> string \<times> bool) option" where
  "server_socket_send_plain_response out status body =
     (let header = plain_response_header status (length body) in
      if length header \<ge> 256 then Some (out, [], False)
      else do {
        (out, sent, all) \<leftarrow> server_socket_write_all out header;
        (if \<not> all then Some (out, sent, False)
         else do {
           (out, sent', all) \<leftarrow> server_socket_write_all out body;
           Some (out, sent @ sent', all) }) })"

text \<open>The socket takes this many more bytes, in pieces of any size and with interruptions.\<close>

fun delivers :: "send_result list \<Rightarrow> nat \<Rightarrow> bool" where
  "delivers out 0 = True"
| "delivers [] (Suc n) = False"
| "delivers (Sent k # out) (Suc n) = (0 < k \<and> delivers out (Suc n - k))"
| "delivers (Send_Interrupted # out) (Suc n) = delivers out (Suc n)"
| "delivers (Send_Fails # out) (Suc n) = False"

lemma write_all_delivers: "delivers out (length s) \<Longrightarrow> \<exists>rest. server_socket_write_all out s = Some (rest, s, True)"
proof (induction out s rule: server_socket_write_all.induct)
  case (3 n out c s)
  then have "0 < n" "delivers out (length (drop n (c # s)))" by simp_all
  with 3(1) obtain rest where "server_socket_write_all out (drop n (c # s)) = Some (rest, drop n (c # s), True)" by auto
  with \<open>0 < n\<close> show ?case by simp
qed simp_all

text \<open>Whatever the socket does, the bytes sent are a prefix of the text, and all of it exactly when the call succeeds.\<close>

lemma write_all_prefix:
  "server_socket_write_all out s = Some (rest, sent, done_all) \<Longrightarrow> prefix sent s \<and> (done_all \<longrightarrow> sent = s)"
proof (induction out s arbitrary: sent rule: server_socket_write_all.induct)
  case (3 n out c s)
  show ?case
  proof (cases "n = 0")
    case False
    then obtain sent' where s': "server_socket_write_all out (drop n (c # s)) = Some (rest, sent', done_all)"
      "sent = take n (c # s) @ sent'" using 3(2) by (auto split: option.splits)
    then have "prefix sent' (drop n (c # s)) \<and> (done_all \<longrightarrow> sent' = drop n (c # s))" using 3(1)[OF False] by blast
    then show ?thesis using s'(2) by (metis append_take_drop_id same_prefix_prefix)
  qed (use 3(2) in simp)
qed auto

section \<open>Where the head ends\<close>

lemma terminator_loop_find:
  "terminator_loop s i =
     (let crlf = find_text s (CRLF @ CRLF); lf = find_text s [NEWLINE, NEWLINE] in
      if crlf \<noteq> None \<and> (lf = None \<or> the crlf < the lf) then Some (i + the crlf, 4) else map_option (\<lambda>n. (i + n, 2)) lf)"
proof (induction s i rule: terminator_loop.induct)
  case (1 a b s i)
  consider "a = NEWLINE \<and> b = NEWLINE" | "a = RETURN" "prefix (CRLF @ CRLF) (a # b # s)"
    | "\<not> (a = NEWLINE \<and> b = NEWLINE)" "\<not> prefix (CRLF @ CRLF) (a # b # s)" by fastforce
  then show ?case
  proof cases
    case 3
    then show ?thesis using 1
      by (cases "find_text (b # s) (CRLF @ CRLF)"; cases "find_text (b # s) [NEWLINE, NEWLINE]")
        (auto simp: Let_def simp del: find_text.simps simp: find_text.simps(2)[of a "b # s"])
  qed (auto simp: Let_def split: option.splits)
qed auto

text \<open>The reader of the socket and the parser of the request agree on where the body starts.\<close>

lemma terminator_body_start: "find_body_start s = map_option (\<lambda>(n, k). n + k) (server_find_request_terminator s)"
  by (auto simp: find_body_start_def server_find_request_terminator_def terminator_loop_find Let_def)

lemma terminator_loop_extend:
  "terminator_loop s i = Some (j, k) \<Longrightarrow> i \<le> j \<and> j - i + k \<le> length s \<and> terminator_loop (s @ t) i = Some (j, k)"
proof (induction s i rule: terminator_loop.induct)
  case (1 a b s i)
  consider (lf) "a = NEWLINE \<and> b = NEWLINE" | (crlf) "\<not> (a = NEWLINE \<and> b = NEWLINE)" "prefix (CRLF @ CRLF) (a # b # s)"
    | (onward) "\<not> (a = NEWLINE \<and> b = NEWLINE)" "\<not> prefix (CRLF @ CRLF) (a # b # s)" by blast
  then show ?case
  proof cases
    case crlf
    then obtain r where "s = CRLF @ r" by (auto simp: prefix_def)
    then show ?thesis using crlf 1(2) by auto
  next
    case onward
    have step: "terminator_loop (b # s) (Suc i) = Some (j, k)" using 1(2) by (simp only: terminator_loop.simps onward simp_thms if_False)
    then have ih: "Suc i \<le> j" "j - Suc i + k \<le> length (b # s)" "terminator_loop ((b # s) @ t) (Suc i) = Some (j, k)" using 1(1)[OF onward step] by auto
    have "\<not> prefix (CRLF @ CRLF) (a # b # s @ t)"
    proof
      assume p: "prefix (CRLF @ CRLF) (a # b # s @ t)"
      show False
      proof (cases s)
        case Nil
        then show False using 1(2) onward by simp
      next
        case (Cons c s')
        then show False using 1(2) onward p by (cases s') auto
      qed
    qed
    then show ?thesis using ih onward by auto
  qed (use 1(2) in auto)
qed auto

lemma terminator_loop_length: "terminator_loop s i = Some (j, k) \<Longrightarrow> 2 \<le> k"
  by (induction s i rule: terminator_loop.induct) (auto split: if_splits)

lemma terminator_loop_shrink:
  "terminator_loop (s @ t) i = Some (j, k) \<Longrightarrow> j - i + k \<le> length s \<Longrightarrow> terminator_loop s i = Some (j, k)"
proof (induction s i rule: terminator_loop.induct)
  case (1 a b s i)
  consider (lf) "a = NEWLINE \<and> b = NEWLINE" | (crlf) "\<not> (a = NEWLINE \<and> b = NEWLINE)" "prefix (CRLF @ CRLF) (a # b # s @ t)"
    | (onward) "\<not> (a = NEWLINE \<and> b = NEWLINE)" "\<not> prefix (CRLF @ CRLF) (a # b # s @ t)" by blast
  then show ?case
  proof cases
    case crlf
    then have "4 \<le> length (a # b # s)" using 1(2,3) by auto
    then obtain c d r where "s = c # d # r" by (cases s; cases "tl s") auto
    then show ?thesis using crlf 1(2) by auto
  next
    case onward
    have "terminator_loop (a # b # s @ t) i = terminator_loop (b # s @ t) (Suc i)"
      by (simp only: terminator_loop.simps onward simp_thms if_False)
    then have step: "terminator_loop ((b # s) @ t) (Suc i) = Some (j, k)" using 1(2) by (simp del: terminator_loop.simps)
    have n: "\<not> prefix (CRLF @ CRLF) (a # b # s)" using onward(2) by (auto simp: prefix_def)
    have "Suc i \<le> j" using terminator_loop_extend[OF step] by simp
    then have "terminator_loop (b # s) (Suc i) = Some (j, k)" using 1(1)[OF onward(1) n step] 1(3) by simp
    then show ?thesis by (simp only: terminator_loop.simps onward(1) n simp_thms if_False)
  qed (use 1(2) in auto)
qed (use terminator_loop_length in fastforce)+

section \<open>The declared length\<close>

lemma digit_value_nonneg: "isdigit c \<Longrightarrow> 0 \<le> digit_value c \<and> digit_value c < 10"
  by (simp add: isdigit_def digit_value_def)

lemma digits_value_ge: "list_all isdigit ds \<Longrightarrow> 0 \<le> a \<Longrightarrow> a \<le> digits_value a ds"
proof (induction ds arbitrary: a)
  case (Cons d ds)
  then have "a * 10 + digit_value d \<le> digits_value (a * 10 + digit_value d) ds" using digit_value_nonneg[of d] by simp
  then show ?case using Cons.prems digit_value_nonneg[of d] by simp
qed simp

lemma length_digits_value:
  "list_all isdigit ds \<Longrightarrow> digits_value (int p) ds < 2 ^ 64 \<Longrightarrow> length_digits ds p saw = Inr (nat (digits_value (int p) ds), saw \<or> ds \<noteq> [])"
proof (induction ds arbitrary: p saw)
  case (Cons d ds)
  have d: "isdigit d" "0 \<le> digit_value d" using Cons.prems digit_value_nonneg by simp_all
  let ?p = "p * 10 + nat (digit_value d)"
  have p: "int ?p = int p * 10 + digit_value d" using d by simp
  then have "int ?p < 2 ^ 64" using digits_value_ge[of ds "int ?p"] Cons.prems unfolding digits_value.simps p[symmetric] by simp
  then have "?p < 2 ^ 64" using of_nat_less_iff[of ?p "2 ^ 64", where 'a = int] by simp
  then have "size_add (size_mul p 10) (nat (digit_value d)) = ?p" by (simp add: size_add_def size_mul_def)
  then show ?case using Cons.IH[of ?p True] Cons.prems d p by simp
qed simp

lemma length_value_show: "n < 2 ^ 64 \<Longrightarrow> length_value ('' '' @ show_nat n) = Inr n"
proof -
  assume n: "n < 2 ^ 64"
  have ds: "list_all isdigit (show_nat n)" by (rule show_nat_digits)
  have "\<not> blank (hd (show_nat n))" using ds by (cases "show_nat n") (auto simp: blank_def isdigit_def)
  then have "dropWhile blank ('' '' @ show_nat n) = show_nat n" using dropWhile_hd[of "show_nat n" blank] by (simp add: blank_def)
  moreover have "length_digits (show_nat n) 0 False = Inr (n, True)"
    using length_digits_value[OF ds, of 0 False] n digits_value_show_nat[of n] by simp
  ultimately show ?thesis by (simp add: length_value_def)
qed

definition length_line :: "string \<Rightarrow> nat option" where
  "length_line l =
     (case find_text l '':'' of
        Some colon \<Rightarrow> if server_ascii_case_equals (take colon l) ''Content-Length'' then Some colon else None
      | None \<Rightarrow> None)"

fun declared_length :: "string list \<Rightarrow> nat result" where
  "declared_length [] = Inr 0"
| "declared_length (l # ls) = (case length_line l of Some colon \<Rightarrow> length_value (drop (Suc colon) l) | None \<Rightarrow> declared_length ls)"

lemma content_length_head: "list_all head_line ls \<Longrightarrow> content_length_lines (dropWhile (\<lambda>c. \<not> line_char c) (head_text ls)) = declared_length ls"
proof (induction ls)
  case Nil
  have e: "dropWhile (\<lambda>c. \<not> line_char c) (head_text []) = []" by (simp add: head_text_def line_char_def)
  show ?case unfolding e by (simp add: content_length_lines.simps[of "[]"])
next
  case (Cons l ls)
  have l: "list_all line_char l" "l \<noteq> []" using Cons.prems by (auto simp: head_line_def line_char_def list_all_iff)
  then have hd: "dropWhile (\<lambda>c. \<not> line_char c) (head_text (l # ls)) = l @ CRLF @ head_text ls"
    by (cases l) (simp_all add: head_text_Cons)
  have cut: "takeWhile line_char (l @ CRLF @ head_text ls) = l" "dropWhile line_char (l @ CRLF @ head_text ls) = CRLF @ head_text ls"
    using dropWhile_app_stop[OF l(1), of "CRLF @ head_text ls"] by (simp_all add: line_char_def)
  have "dropWhile (\<lambda>c. \<not> line_char c) (CRLF @ head_text ls) = dropWhile (\<lambda>c. \<not> line_char c) (head_text ls)" by (simp add: line_char_def)
  then have "content_length_lines (l @ CRLF @ head_text ls) =
      (case length_line l of Some colon \<Rightarrow> length_value (drop (Suc colon) l) | None \<Rightarrow> declared_length ls)"
    unfolding content_length_lines.simps[of "l @ CRLF @ head_text ls"] cut Let_def length_line_def
    using Cons l(2) by (simp split: option.splits)
  then show ?case unfolding hd by simp
qed

lemma parse_content_length_head:
  assumes "list_all head_line ls" "ls \<noteq> []"
  shows "server_parse_content_length (head_text ls @ b) (length (head_text ls)) = declared_length ls"
proof -
  obtain c r where "head_text ls = c # r" "c \<noteq> RETURN" "c \<noteq> NEWLINE" using head_text_start[OF assms(1)] assms(2) by blast
  then have "dropWhile (\<lambda>c. \<not> line_char c) (head_text ls) = head_text ls" by (simp add: line_char_def)
  then show ?thesis using content_length_head[OF assms(1)] by (simp add: server_parse_content_length_def)
qed

lemma length_line_show: "length_line (''Content-Length: '' @ show_nat n) = Some 14"
proof -
  have "find_text (''Content-Length'' @ '':'' @ '' '' @ show_nat n) '':'' = Some 14"
    using find_text_skip[of "CHR '':''" "''Content-Length''" "'':'' @ '' '' @ show_nat n" "[]"] by simp
  moreover have "server_ascii_case_equals ''Content-Length'' ''Content-Length''" by code_simp
  ultimately show ?thesis by (simp add: length_line_def)
qed

lemma declared_length_show:
  assumes "\<forall>l\<in>set pre. length_line l = None" "n < 2 ^ 64"
  shows "declared_length (pre @ (''Content-Length: '' @ show_nat n) # post) = Inr n"
  using assms(1)
proof (induction pre)
  case Nil
  have "drop (Suc 14) (''Content-Length: '' @ show_nat n) = '' '' @ show_nat n" by (simp add: numeral_eq_Suc)
  then show ?case using length_line_show[of n] length_value_show[OF assms(2)] by simp
qed simp

lemma head_terminator:
  assumes "list_all head_line ls" "ls \<noteq> []"
  shows "\<exists>i k. server_find_request_terminator (head_text ls @ b) = Some (i, k) \<and> i + k = length (head_text ls)"
  using find_body_start_head[OF assms, of b] terminator_body_start[of "head_text ls @ b"] by auto

section \<open>A request that arrives in pieces\<close>

text \<open>The bytes a client sends, however they are cut into pieces and whatever signals arrive meanwhile.\<close>

fun arriving :: "recv_result list \<Rightarrow> string option" where
  "arriving [] = Some []"
| "arriving (Received bytes # rs) = (if bytes = [] then None else map_option (\<lambda>s. bytes @ s) (arriving rs))"
| "arriving (Recv_Interrupted # rs) = arriving rs"
| "arriving (_ # rs) = None"

text \<open>\<open>framed t hl n\<close>: \<open>t\<close> is a request of a supported size with a head of \<open>hl\<close> bytes that declares a body of \<open>n\<close> bytes.\<close>

definition framed :: "string \<Rightarrow> nat \<Rightarrow> nat \<Rightarrow> bool" where
  "framed t hl n \<longleftrightarrow>
     find_body_start t = Some hl \<and> server_parse_content_length t hl = Inr n \<and> hl + n = length t \<and> length t \<le> SERVER_REQUEST_MAX_CAPACITY"

definition reading :: "string \<Rightarrow> nat \<Rightarrow> nat \<Rightarrow> reader \<Rightarrow> bool" where
  "reading t hl n rd \<longleftrightarrow>
     prefix (buffer rd) t \<and> length (buffer rd) \<le> buffer_capacity rd \<and>
     SERVER_REQUEST_INITIAL_CAPACITY \<le> buffer_capacity rd \<and> buffer_capacity rd \<le> SERVER_REQUEST_MAX_CAPACITY \<and>
     (headers_complete rd \<longleftrightarrow> hl \<le> length (buffer rd)) \<and> (headers_complete rd \<longrightarrow> header_length rd = hl \<and> content_length rd = n)"

lemma terminator_prefix:
  assumes "find_body_start t = Some hl" "prefix p t"
  shows "if hl \<le> length p then \<exists>i k. server_find_request_terminator p = Some (i, k) \<and> i + k = hl else server_find_request_terminator p = None"
proof -
  obtain u where u: "t = p @ u" using assms(2) by (auto simp: prefix_def)
  obtain i k where t: "terminator_loop (p @ u) 0 = Some (i, k)" "i + k = hl"
    using assms(1) terminator_body_start[of t] u by (cases "terminator_loop (p @ u) 0") (auto simp: server_find_request_terminator_def)
  show ?thesis
  proof (cases "terminator_loop p 0")
    case None
    then show ?thesis using t terminator_loop_shrink[OF t(1)] by (auto simp: server_find_request_terminator_def)
  next
    case (Some jl)
    then obtain j l where jl: "terminator_loop p 0 = Some (j, l)" by (cases jl) auto
    from terminator_loop_extend[OF this, of u] have "j + l \<le> length p" "(j, l) = (i, k)" using t(1) by auto
    then show ?thesis using t(2) jl by (auto simp: server_find_request_terminator_def)
  qed
qed

lemma after_recv_reading:
  assumes "framed t hl n" "reading t hl n rd" "prefix (buffer rd @ now) t" "length (buffer rd @ now) \<le> buffer_capacity rd"
  shows "\<exists>rd'. after_recv rd now = Inr (rd', buffer rd @ now = t) \<and> reading t hl n rd' \<and> buffer rd' = buffer rd @ now"
proof -
  have f: "find_body_start t = Some hl" "server_parse_content_length t hl = Inr n" "hl + n = length t" "length t \<le> SERVER_REQUEST_MAX_CAPACITY"
    using assms(1) by (simp_all add: framed_def)
  have sum: "size_add hl n = length t" using f(3,4) by (simp add: size_add_def)
  have done_iff: "length t \<le> length (buffer rd @ now) \<longleftrightarrow> buffer rd @ now = t"
    using assms(3) by (auto simp: prefix_def)
  show ?thesis
  proof (cases "headers_complete rd")
    case True
    then show ?thesis using assms(2-4) sum done_iff by (auto simp: after_recv_def reading_def Let_def)
  next
    case False
    show ?thesis
    proof (cases "hl \<le> length (buffer rd @ now)")
      case True
      then obtain i k where ik: "server_find_request_terminator (buffer rd @ now) = Some (i, k)" "i + k = hl"
        using terminator_prefix[OF f(1) assms(3)] by auto
      have "take hl (buffer rd @ now) = take hl t" using assms(3) True by (auto simp: prefix_def)
      then have "server_parse_content_length (buffer rd @ now) hl = Inr n" using f(2) by (simp add: server_parse_content_length_def)
      then show ?thesis using assms(2-4) sum done_iff False True ik
        by (auto simp: after_recv_def reading_def Let_def)
    next
      case short: False
      then have "server_find_request_terminator (buffer rd @ now) = None" using terminator_prefix[OF f(1) assms(3)] by auto
      moreover have "buffer rd @ now \<noteq> t" using short f(3) by auto
      ultimately show ?thesis using assms(2-4) False short by (auto simp: after_recv_def reading_def Let_def)
    qed
  qed
qed

lemma before_recv_reading:
  assumes "framed t hl n" "reading t hl n rd" "length (buffer rd) < length t" "\<forall>k. grants k"
  shows "\<exists>rd'. before_recv grants rd = Inr rd' \<and> reading t hl n rd' \<and> buffer rd' = buffer rd \<and> length (buffer rd') < buffer_capacity rd'"
proof -
  have "hl + n \<le> SERVER_REQUEST_MAX_CAPACITY" "length t \<le> SERVER_REQUEST_MAX_CAPACITY" using assms(1) by (simp_all add: framed_def)
  then have "\<not> (headers_complete rd \<and> size_add (header_length rd) (content_length rd) > SERVER_REQUEST_MAX_CAPACITY)"
    "\<not> (length (buffer rd) = buffer_capacity rd \<and> buffer_capacity rd \<ge> SERVER_REQUEST_MAX_CAPACITY)"
    using assms(2,3) by (auto simp: reading_def size_add_def)
  moreover have "size_mul (buffer_capacity rd) 2 = buffer_capacity rd * 2" using assms(2) by (simp add: reading_def size_mul_def)
  ultimately show ?thesis using assms(2,4) by (auto simp: before_recv_def reading_def Let_def)
qed

lemma arriving_later:
  "arriving (Received bytes # rs) = Some s \<Longrightarrow> 0 < room \<Longrightarrow>
     \<exists>s'. s = take room bytes @ s' \<and> take room bytes \<noteq> [] \<and>
       arriving (if drop room bytes = [] then rs else Received (drop room bytes) # rs) = Some s'"
  by (cases "length bytes \<le> room") (auto split: if_splits simp flip: append_assoc)

lemma read_loop_any_split:
  "framed t hl n \<Longrightarrow> \<forall>k. grants k \<Longrightarrow> reading t hl n rd \<Longrightarrow> length (buffer rd) < length t \<Longrightarrow>
     arriving input = Some s \<Longrightarrow> buffer rd @ s = t \<Longrightarrow> \<exists>rest. read_loop grants input rd = Some (rest, SERVER_REQUEST_READ_OK t)"
proof (induction "input_size input" arbitrary: input rd s rule: less_induct)
  case less
  obtain rd1 where rd1: "before_recv grants rd = Inr rd1" "reading t hl n rd1" "buffer rd1 = buffer rd" "length (buffer rd1) < buffer_capacity rd1"
    using before_recv_reading[OF less(2,4,5,3)] by blast
  show ?case
  proof (cases input)
    case Nil
    then show ?thesis using less(5-7) by auto
  next
    case (Cons r rs)
    show ?thesis
    proof (cases r)
      case (Received bytes)
      define room where "room = buffer_capacity rd1 - length (buffer rd1)"
      define later where "later = (if drop room bytes = [] then rs else Received (drop room bytes) # rs)"
      obtain s' where s': "s = take room bytes @ s'" "take room bytes \<noteq> []" "arriving later = Some s'"
        using arriving_later[of bytes rs s room] less(6) Cons Received rd1(4) by (auto simp: room_def later_def)
      have pre: "prefix (buffer rd1 @ take room bytes) t" using less(7) s'(1) rd1(3) by (auto simp: prefix_def)
      have "length (buffer rd1 @ take room bytes) \<le> buffer_capacity rd1" using rd1(4) by (simp add: room_def)
      then obtain rd2 where rd2: "after_recv rd1 (take room bytes) = Inr (rd2, buffer rd1 @ take room bytes = t)" "reading t hl n rd2"
          "buffer rd2 = buffer rd1 @ take room bytes" using after_recv_reading[OF less(2) rd1(2) pre] by blast
      have run: "read_loop grants input rd =
          (if buffer rd2 = t then Some (later, read_finished rd2) else read_loop grants later rd2)"
        using rd1(1) rd2 s'(2) Cons Received by (simp add: read_loop.simps[of grants "Received bytes # rs" rd] Let_def room_def later_def)
      show ?thesis
      proof (cases "buffer rd2 = t")
        case True
        have "t \<noteq> []" using less(5) by auto
        moreover have "headers_complete rd2" "header_length rd2 = hl" "content_length rd2 = n" "size_add hl n = length t"
          using rd2(2) True less(2) by (auto simp: reading_def framed_def size_add_def)
        ultimately show ?thesis using run True by (simp add: read_finished_def)
      next
        case False
        then have "length (buffer rd2) < length t" using pre rd2(3) by (metis prefix_length_less prefix_order.le_neq_trans strict_prefix_def)
        moreover have "input_size later < input_size input" using s'(2) Cons Received by (auto simp: later_def)
        ultimately show ?thesis using less(1)[OF _ less(2,3) rd2(2) _ s'(3)] run False rd2(3) less(7) rd1(3) s'(1) by auto
      qed
    next
      case Recv_Interrupted
      then have "read_loop grants input rd = read_loop grants rs rd1" using rd1(1) Cons by (simp add: read_loop.simps[of grants "Recv_Interrupted # rs" rd])
      then show ?thesis using less(1)[of rs rd1 s] less(2-7) rd1 Cons Recv_Interrupted by auto
    qed (use less(6) Cons in auto)
  qed
qed

section \<open>What a complete request is\<close>

fun received :: "recv_result list \<Rightarrow> string" where
  "received [] = []"
| "received (Received bytes # rs) = bytes @ received rs"
| "received (_ # rs) = received rs"

definition reader_ok :: "reader \<Rightarrow> bool" where
  "reader_ok rd \<longleftrightarrow>
     length (buffer rd) \<le> buffer_capacity rd \<and> buffer_capacity rd \<le> SERVER_REQUEST_MAX_CAPACITY \<and>
     (headers_complete rd \<longrightarrow> find_body_start (buffer rd) = Some (header_length rd) \<and>
        server_parse_content_length (buffer rd) (header_length rd) = Inr (content_length rd))"

definition complete_request :: "string \<Rightarrow> bool" where
  "complete_request b \<longleftrightarrow>
     length b \<le> SERVER_REQUEST_MAX_CAPACITY \<and>
     (\<exists>hl n. find_body_start b = Some hl \<and> server_parse_content_length b hl = Inr n \<and> size_add hl n \<le> length b)"

lemma find_body_start_extend:
  assumes "find_body_start p = Some hl"
  shows "find_body_start (p @ u) = Some hl" "hl \<le> length p"
proof -
  obtain i k where t: "terminator_loop p 0 = Some (i, k)" "i + k = hl"
    using assms terminator_body_start[of p] by (cases "terminator_loop p 0") (auto simp: server_find_request_terminator_def)
  from terminator_loop_extend[OF t(1), of u] t(2) show "find_body_start (p @ u) = Some hl" "hl \<le> length p"
    using terminator_body_start[of "p @ u"] by (auto simp: server_find_request_terminator_def)
qed

lemma after_recv_ok:
  assumes "reader_ok rd" "length (buffer rd @ now) \<le> buffer_capacity rd" "after_recv rd now = Inr (rd', c)"
  shows "reader_ok rd' \<and> buffer rd' = buffer rd @ now"
proof (cases "headers_complete rd")
  case True
  then have "find_body_start (buffer rd) = Some (header_length rd)" using assms(1) by (simp add: reader_ok_def)
  from find_body_start_extend[OF this] show ?thesis
    using True assms by (auto simp: after_recv_def reader_ok_def Let_def server_parse_content_length_def)
next
  case False
  then show ?thesis
    using assms terminator_body_start[of "buffer rd @ now"] by (auto simp: after_recv_def reader_ok_def Let_def split: option.splits sum.splits)
qed

lemma before_recv_ok:
  assumes "reader_ok rd" "before_recv grants rd = Inr rd'"
  shows "reader_ok rd' \<and> buffer rd' = buffer rd"
  using assms by (auto simp: before_recv_def reader_ok_def Let_def size_mul_def split: if_splits)

lemma read_finished_ok: "reader_ok rd \<Longrightarrow> read_finished rd = SERVER_REQUEST_READ_OK b \<Longrightarrow> complete_request b \<and> b = buffer rd"
  by (auto simp: read_finished_def reader_ok_def complete_request_def read_error_def split: if_splits)

lemma read_loop_sound:
  "reader_ok rd \<Longrightarrow> read_loop grants input rd = Some (rest, SERVER_REQUEST_READ_OK b) \<Longrightarrow> complete_request b \<and> prefix b (buffer rd @ received input)"
proof (induction "input_size input" arbitrary: input rd rule: less_induct)
  case less
  obtain rd1 where rd1: "before_recv grants rd = Inr rd1"
    using less(3) by (cases "before_recv grants rd") (auto simp: read_loop.simps[of grants input rd] before_recv_def too_large_def read_error_def Let_def split: if_splits)
  note ok1 = before_recv_ok[OF less(2) rd1]
  note run = less(3)[unfolded read_loop.simps[of grants input rd] rd1 sum.case]
  have finish: ?case if "read_finished rd1 = SERVER_REQUEST_READ_OK b" using read_finished_ok[OF _ that] ok1 by auto
  show ?case
  proof (cases input)
    case (Cons r rs)
    show ?thesis
    proof (cases r)
      case (Received bytes)
      define room where "room = buffer_capacity rd1 - length (buffer rd1)"
      define later where "later = (if drop room bytes = [] then rs else Received (drop room bytes) # rs)"
      have recv: "received input = take room bytes @ received later" using Cons Received by (auto simp: later_def)
      show ?thesis
      proof (cases "take room bytes = []")
        case True
        then show ?thesis using run Cons Received finish by (simp add: Let_def room_def)
      next
        case False
        have fits: "length (buffer rd1 @ take room bytes) \<le> buffer_capacity rd1" using ok1 by (auto simp: reader_ok_def room_def)
        obtain rd2 c where rd2: "after_recv rd1 (take room bytes) = Inr (rd2, c)"
          using run Cons Received False
          by (cases "after_recv rd1 (take room bytes)") (auto simp: Let_def room_def[symmetric] after_recv_def split: option.splits sum.splits if_splits)
        note ok2 = after_recv_ok[OF conjunct1[OF ok1] fits rd2]
        have "input_size later < input_size input" using False Cons Received by (auto simp: later_def)
        moreover have "c \<and> read_finished rd2 = SERVER_REQUEST_READ_OK b \<or> read_loop grants later rd2 = Some (rest, SERVER_REQUEST_READ_OK b)"
          using run Cons Received False rd2 by (auto simp: Let_def room_def later_def split: if_splits)
        ultimately show ?thesis using less(1)[of later rd2] read_finished_ok[of rd2 b] ok1 ok2 recv by auto
      qed
    next
      case Recv_Interrupted
      then show ?thesis using less(1)[of rs rd1] run Cons ok1 by auto
    qed (use run Cons finish in \<open>auto simp: read_error_def\<close>)
  qed (use run in simp)
qed

lemma parse_body:
  assumes "http_parse_request True (Some b) = Inr rq" "cstring b"
  shows "request_body rq = (case find_body_start b of None \<Rightarrow> None | Some hl \<Rightarrow> if drop hl b = [] then None else Some (drop hl b)) \<and>
    request_body_length rq = length (case request_body rq of None \<Rightarrow> [] | Some s \<Rightarrow> s)"
proof -
  have nul: "(peek (drop hl b) = NUL) = (drop hl b = [])" for hl
    using assms(2) cstring_suffix[OF assms(2) suffix_drop, of hl] cstring_peek by blast
  show ?thesis using assms(1) unfolding http_parse_request_def copy_request_token_def Let_def
    by (cases "find_body_start b") (auto split: if_splits option.splits dest: nul[THEN iffD1])
qed

section \<open>Properties\<close>

text \<open>
  C40. What the socket accepts as a request is a complete one: whatever the peer sends, in whatever pieces, an
  accepted request is a prefix of what was received and at most the supported maximum of 65536 bytes long
  (its terminator fits the buffer); it contains the blank line that ends the head, at the place where
  the HTTP parser looks for the body; the \<open>Content-Length\<close> of that head, taken modulo \<open>2 ^ 64\<close>, was
  readable; and head and body of that length together were received, so that their sum is within the
  maximum too, except when the sum of the two wraps around, where only the wrapped sum was received. The
  parser then takes as the body everything behind the head of a request without a NUL.
\<close>

theorem read_request_sound:
  assumes "server_socket_read_request granted grants input = Some (rest, SERVER_REQUEST_READ_OK b)"
  shows "prefix b (received input) \<and> length b \<le> SERVER_REQUEST_MAX_CAPACITY \<and>
    (\<exists>hl n. find_body_start b = Some hl \<and> hl \<le> length b \<and> server_parse_content_length b hl = Inr n \<and>
      size_add hl n \<le> length b \<and> (hl + n < 2 ^ 64 \<longrightarrow> hl + n \<le> length b) \<and>
      (\<forall>rq. http_parse_request True (Some b) = Inr rq \<and> cstring b \<longrightarrow> request_body rq = (if drop hl b = [] then None else Some (drop hl b))))"
proof -
  let ?rd = "\<lparr>buffer = [], buffer_capacity = SERVER_REQUEST_INITIAL_CAPACITY, headers_complete = False, header_length = 0, content_length = 0\<rparr>"
  have "read_loop grants input ?rd = Some (rest, SERVER_REQUEST_READ_OK b)"
    using assms by (simp add: server_socket_read_request_def read_error_def split: if_splits)
  moreover have "reader_ok ?rd" by (simp add: reader_ok_def)
  ultimately have c: "complete_request b" "prefix b (received input)" using read_loop_sound[of ?rd grants input rest b] by simp_all
  then obtain hl n where h: "find_body_start b = Some hl" "server_parse_content_length b hl = Inr n" "size_add hl n \<le> length b"
    by (auto simp: complete_request_def)
  have "hl + n \<le> length b" if "hl + n < 2 ^ 64" using h(3) that by (simp add: size_add_def)
  moreover have "hl \<le> length b"
    using h(1) terminator_loop_extend[of b 0 _ _ "[]"] by (auto simp: terminator_body_start server_find_request_terminator_def)
  moreover have "request_body rq = (if drop hl b = [] then None else Some (drop hl b))"
    if "http_parse_request True (Some b) = Inr rq" "cstring b" for rq using parse_body[OF that] h(1) by simp
  ultimately show ?thesis using c h unfolding complete_request_def by blast
qed

definition sample_request :: string where
  "sample_request = head_text [''POST /query HTTP/1.1'', ''Content-Length: '' @ show_nat 4] @ ''TEST''"

lemma sample_request_framed: "framed sample_request (length (head_text [''POST /query HTTP/1.1'', ''Content-Length: '' @ show_nat 4])) 4"
proof -
  let ?ls = "[''POST /query HTTP/1.1'', ''Content-Length: '' @ show_nat 4]"
  have ls: "list_all head_line ?ls" by code_simp
  have none: "length_line ''POST /query HTTP/1.1'' = None" by code_simp
  have "declared_length ?ls = Inr 4" using declared_length_show[of "[''POST /query HTTP/1.1'']" 4 "[]"] none by simp
  moreover have "length (show_nat 4) = 1" by (simp add: show_nat.simps)
  ultimately show ?thesis
    using find_body_start_head[OF ls] parse_content_length_head[OF ls] by (simp add: framed_def sample_request_def head_text_def)
qed

lemma any_split:
  assumes "framed t hl n" "arriving input = Some t" "\<forall>k. grants k" "t \<noteq> []"
  shows "\<exists>rest. server_socket_read_request True grants input = Some (rest, SERVER_REQUEST_READ_OK t)"
proof -
  have "0 < hl" using assms(1) terminator_body_start[of t] terminator_loop_length[of t 0]
    by (fastforce simp: framed_def server_find_request_terminator_def)
  then have "reading t hl n \<lparr>buffer = [], buffer_capacity = SERVER_REQUEST_INITIAL_CAPACITY, headers_complete = False, header_length = 0, content_length = 0\<rparr>"
    by (simp add: reading_def)
  from read_loop_any_split[OF assms(1,3) this] assms(2,4) show ?thesis by (simp add: server_socket_read_request_def)
qed

text \<open>
  C11. However the network cuts a request into pieces, and whatever interrupts arrive in between, a
  request of a supported size is read as a whole: for every request whose head declares the length of
  its body, the reader returns exactly the bytes that were sent.
\<close>

theorem read_request_any_split:
  assumes "list_all head_line ls" "ls \<noteq> []" "declared_length ls = Inr (length body)"
    and "length (head_text ls @ body) \<le> SERVER_REQUEST_MAX_CAPACITY" "arriving input = Some (head_text ls @ body)" "\<forall>k. grants k"
  shows "\<exists>rest. server_socket_read_request True grants input = Some (rest, SERVER_REQUEST_READ_OK (head_text ls @ body))"
proof (rule any_split[OF _ assms(5,6)])
  show "framed (head_text ls @ body) (length (head_text ls)) (length body)"
    using find_body_start_head[OF assms(1,2)] parse_content_length_head[OF assms(1,2)] assms(3,4) by (simp add: framed_def)
  show "head_text ls @ body \<noteq> []" by (simp add: head_text_def)
qed

theorem read_request_any_split_witness:
  "\<exists>rest. server_socket_read_request True (\<lambda>k. True)
     [Received (take 5 sample_request), Recv_Interrupted, Received (drop 5 sample_request)] = Some (rest, SERVER_REQUEST_READ_OK sample_request)"
proof -
  let ?ls = "[''POST /query HTTP/1.1'', ''Content-Length: '' @ show_nat 4]"
  have ls: "list_all head_line ?ls" by code_simp
  have none: "length_line ''POST /query HTTP/1.1'' = None" by code_simp
  have len: "length sample_request = 47" by code_simp
  then have "take 5 sample_request \<noteq> []" "drop 5 sample_request \<noteq> []" by auto
  moreover have "declared_length ?ls = Inr (length ''TEST'')"
    using declared_length_show[of "[''POST /query HTTP/1.1'']" 4 "[]"] none by simp
  ultimately show ?thesis
    using read_request_any_split[OF ls, of "''TEST''" "[Received (take 5 sample_request), Recv_Interrupted, Received (drop 5 sample_request)]" "\<lambda>k. True"] len
    unfolding sample_request_def[symmetric] by simp
qed

theorem read_request_sound_witness:
  "\<exists>rest. server_socket_read_request True (\<lambda>k. True) [Received sample_request] = Some (rest, SERVER_REQUEST_READ_OK sample_request) \<and>
     (\<exists>hl n. find_body_start sample_request = Some hl \<and> server_parse_content_length sample_request hl = Inr n \<and>
        size_add hl n \<le> length sample_request)"
proof -
  have "sample_request \<noteq> []" by (simp add: sample_request_def head_text_def)
  then obtain rest where "server_socket_read_request True (\<lambda>k. True) [Received sample_request] = Some (rest, SERVER_REQUEST_READ_OK sample_request)"
    using any_split[OF sample_request_framed, of "[Received sample_request]" "\<lambda>k. True"] by auto
  then show ?thesis using read_request_sound[of True "\<lambda>k. True" "[Received sample_request]" rest sample_request] by blast
qed

text \<open>
  The sum of the head and the declared length wraps around: a request that announces \<open>2 ^ 64 - 1\<close> bytes is
  accepted as complete as soon as its head has arrived.
\<close>

lemma wrapped_head:
  assumes "n < 2 ^ 64" "n + 1 = 2 ^ 64" "ls = [''POST / HTTP/1.1'', ''Content-Length: '' @ show_nat n]"
  shows "find_body_start (head_text ls) = Some (length (head_text ls)) \<and>
    server_parse_content_length (head_text ls) (length (head_text ls)) = Inr n \<and> size_add (length (head_text ls)) n < length (head_text ls)"
proof -
  have none: "length_line ''POST / HTTP/1.1'' = None" by code_simp
  have "RETURN \<notin> set (show_nat n)" "NEWLINE \<notin> set (show_nat n)" using show_nat_digits[of n] by (auto simp: list_all_iff isdigit_def)
  then have ls: "list_all head_line ls" "ls \<noteq> []" by (simp_all add: head_line_def assms(3))
  have "declared_length ls = Inr n" using declared_length_show[of "[''POST / HTTP/1.1'']" n "[]"] none assms(1,3) by simp
  moreover obtain m where m: "length (head_text ls) = Suc m" by (cases "length (head_text ls)") (auto simp: head_text_def)
  have "Suc m + n = m + 2 ^ 64" using assms(2) by linarith
  then have "size_add (Suc m) n = m mod 2 ^ 64" unfolding size_add_def by (metis mod_add_self2)
  then have "size_add (Suc m) n < Suc m" using mod_less_eq_dividend[of m "2 ^ 64"] by linarith
  ultimately show ?thesis
    using find_body_start_head[OF ls, of "[]"] parse_content_length_head[OF ls, of "[]"] m by simp
qed

theorem declared_length_wraps:
  "\<exists>n hl. n + 1 = 2 ^ 64 \<and> find_body_start (head_text [''POST / HTTP/1.1'', ''Content-Length: '' @ show_nat n]) = Some hl \<and>
     server_parse_content_length (head_text [''POST / HTTP/1.1'', ''Content-Length: '' @ show_nat n]) hl = Inr n \<and> size_add hl n < hl"
proof -
  obtain n :: nat where n: "n < 2 ^ 64" "n + 1 = 2 ^ 64" using that[of "2 ^ 64 - 1"] by simp
  from wrapped_head[OF n refl] show ?thesis using n(2) by metis
qed

end
