(* ===== verification/Job_Queue.thy ===== *)
theory Job_Queue
  imports Common
begin

text \<open>
  \<^verbatim>\<open>src/server/pool/job_queue.c\<close>: the bounded queue between the accepting thread and the workers.

  The calls hold the mutex from start to end except while they wait on a condition variable, so a call
  is one atomic step here; \<open>None\<close> is a call that waits (the caller tries again when another call has
  changed the queue). A \<open>Job\<close> records whether it has the two callbacks, and its data; what the
  callbacks do is recorded as a trace of events.
\<close>

section \<open>The queue\<close>

record 'd Job =
  job_execute :: bool
  job_cleanup :: bool
  job_data :: "'d option"

definition zeroed_job :: "'d Job" where
  "zeroed_job = \<lparr>job_execute = False, job_cleanup = False, job_data = None\<rparr>"

record 'd JobQueue =
  capacity :: int
  queue_count :: int
  queue_head :: int
  queue_tail :: int
  closed :: bool
  jobs :: "'d Job list"

text \<open>Which of the steps of \<open>job_queue_create\<close> the system grants.\<close>

record queue_resources =
  queue_granted :: bool
  buffer_granted :: bool
  mutex_init_ok :: bool
  not_empty_init_ok :: bool
  not_full_init_ok :: bool

definition job_queue_create :: "queue_resources \<Rightarrow> int \<Rightarrow> 'd JobQueue result" where
  "job_queue_create sys n =
     (if n \<le> 0 then fail ''job queue capacity must be positive''
      else if \<not> queue_granted sys then fail ''failed to allocate job queue''
      else if \<not> buffer_granted sys then fail ''failed to allocate job queue buffer''
      else if \<not> mutex_init_ok sys then fail ''failed to initialize job queue mutex''
      else if \<not> not_empty_init_ok sys then fail ''failed to initialize job queue not_empty condition''
      else if \<not> not_full_init_ok sys then fail ''failed to initialize job queue not_full condition''
      else Inr \<lparr>capacity = n, queue_count = 0, queue_head = 0, queue_tail = 0, closed = False, jobs = replicate (nat n) zeroed_job\<rparr>)"

definition job_queue_push :: "'d JobQueue \<Rightarrow> 'd Job \<Rightarrow> ('d JobQueue \<times> unit result) option" where
  "job_queue_push queue job =
     (if \<not> job_execute job then Some (queue, fail ''job execute callback must not be null'')
      else if \<not> closed queue \<and> queue_count queue = capacity queue then None
      else if closed queue then Some (queue, fail ''job queue is closed'')
      else Some (queue\<lparr>jobs := (jobs queue)[nat (queue_tail queue) := job],
                       queue_tail := (queue_tail queue + 1) mod capacity queue,
                       queue_count := queue_count queue + 1\<rparr>, Inr ()))"

definition job_queue_pop :: "'d JobQueue \<Rightarrow> ('d JobQueue \<times> 'd Job option) option" where
  "job_queue_pop queue =
     (if \<not> closed queue \<and> queue_count queue = 0 then None
      else if queue_count queue = 0 then Some (queue, None)
      else Some (queue\<lparr>jobs := (jobs queue)[nat (queue_head queue) := zeroed_job],
                       queue_head := (queue_head queue + 1) mod capacity queue,
                       queue_count := queue_count queue - 1\<rparr>, Some (jobs queue ! nat (queue_head queue))))"

definition job_queue_close :: "'d JobQueue \<Rightarrow> 'd JobQueue" where
  "job_queue_close queue = queue\<lparr>closed := True\<rparr>"

datatype 'd job_event = Executed "'d option" | Cleaned "'d option"

text \<open>The call \<open>job->cleanup(job->data)\<close>, when there is a callback.\<close>

definition run_cleanup :: "'d Job \<Rightarrow> 'd job_event list" where
  "run_cleanup job = (if job_cleanup job then [Cleaned (job_data job)] else [])"

fun destroy_loop :: "'d JobQueue \<Rightarrow> nat \<Rightarrow> nat \<Rightarrow> 'd job_event list" where
  "destroy_loop queue index 0 = []"
| "destroy_loop queue index (Suc n) =
     run_cleanup (jobs queue ! nat ((queue_head queue + int index) mod capacity queue)) @ destroy_loop queue (Suc index) n"

definition job_queue_destroy :: "'d JobQueue \<Rightarrow> 'd job_event list" where
  "job_queue_destroy queue = (let queue = job_queue_close queue in destroy_loop queue 0 (nat (queue_count queue)))"

section \<open>The list it stands for\<close>

definition queue_rep :: "'d JobQueue \<Rightarrow> 'd Job list \<Rightarrow> bool \<Rightarrow> bool" where
  "queue_rep q js c \<longleftrightarrow>
     0 < capacity q \<and> int (length (jobs q)) = capacity q \<and> 0 \<le> queue_head q \<and> queue_head q < capacity q \<and>
     queue_count q = int (length js) \<and> queue_count q \<le> capacity q \<and>
     queue_tail q = (queue_head q + queue_count q) mod capacity q \<and>
     (\<forall>i<length js. jobs q ! nat ((queue_head q + int i) mod capacity q) = js ! i) \<and> closed q = c"

lemma queue_rep_create: "job_queue_create sys n = Inr q \<Longrightarrow> queue_rep q [] False \<and> capacity q = n"
  by (auto simp: job_queue_create_def queue_rep_def split: if_splits)

lemma queue_slot_range: "queue_rep q js c \<Longrightarrow> nat ((queue_head q + int i) mod capacity q) < length (jobs q)"
  by (simp add: queue_rep_def nat_less_iff)

lemma mod_offset_inj:
  assumes "(h + int i) mod n = (h + int j) mod n" "int i < n" "int j < n"
  shows "i = j"
proof -
  have "n dvd (h + int i) - (h + int j)" using assms(1) by (rule mod_eq_dvd_iff[THEN iffD1])
  then have "int i - int j = 0" using assms(2,3) zdvd_imp_le[of n "\<bar>int i - int j\<bar>"] by (cases "i = j") auto
  then show ?thesis by simp
qed

lemma queue_rep_push:
  assumes "queue_rep q js False" "job_execute j" "int (length js) < capacity q"
  shows "\<exists>q'. job_queue_push q j = Some (q', Inr ()) \<and> queue_rep q' (js @ [j]) False \<and> capacity q' = capacity q"
proof -
  let ?at = "\<lambda>i. nat ((queue_head q + int i) mod capacity q)"
  have r: "0 < capacity q" "queue_count q = int (length js)" "queue_tail q = (queue_head q + queue_count q) mod capacity q"
    using assms(1) by (auto simp: queue_rep_def)
  let ?q = "q\<lparr>jobs := (jobs q)[nat (queue_tail q) := j], queue_tail := (queue_tail q + 1) mod capacity q, queue_count := queue_count q + 1\<rparr>"
  have tail: "nat (queue_tail q) = ?at (length js)" using r by simp
  have ne: "?at (length js) \<noteq> ?at i" if "i < length js" for i
  proof
    assume "?at (length js) = ?at i"
    then have "(queue_head q + int i) mod capacity q = (queue_head q + int (length js)) mod capacity q"
      using r(1) by (metis eq_nat_nat_iff pos_mod_sign)
    then show False using mod_offset_inj[of "queue_head q" i "capacity q" "length js"] assms(3) that by simp
  qed
  have "(jobs q)[?at (length js) := j] ! ?at i = (js @ [j]) ! i" if "i < length (js @ [j])" for i
    using that assms(1) queue_slot_range[OF assms(1), of "length js"] nth_list_update_neq[OF ne, of i "jobs q" j]
    by (cases "i = length js") (auto simp: queue_rep_def nth_append)
  then have "\<forall>i<length (js @ [j]). jobs ?q ! ?at i = (js @ [j]) ! i" by (simp add: tail)
  moreover have "(queue_tail q + 1) mod capacity q = (queue_head q + (queue_count q + 1)) mod capacity q"
    using r(3) by (simp add: mod_add_left_eq add.assoc)
  ultimately have "queue_rep ?q (js @ [j]) False" using assms(1,3) by (auto simp: queue_rep_def)
  then show ?thesis using assms r(2) by (auto simp: job_queue_push_def queue_rep_def)
qed

lemma queue_rep_pop:
  assumes "queue_rep q (j # js) c"
  shows "\<exists>q'. job_queue_pop q = Some (q', Some j) \<and> queue_rep q' js c \<and> capacity q' = capacity q"
proof -
  let ?at = "\<lambda>i. nat ((queue_head q + int i) mod capacity q)"
  have r: "0 < capacity q" "queue_count q = int (length js) + 1" "0 \<le> queue_head q" "queue_head q < capacity q"
    "queue_tail q = (queue_head q + queue_count q) mod capacity q" "queue_count q \<le> capacity q"
    using assms by (auto simp: queue_rep_def)
  let ?q = "q\<lparr>jobs := (jobs q)[nat (queue_head q) := zeroed_job], queue_head := (queue_head q + 1) mod capacity q, queue_count := queue_count q - 1\<rparr>"
  have all: "\<forall>i<length (j # js). jobs q ! ?at i = (j # js) ! i" using assms by (simp add: queue_rep_def)
  have head: "nat (queue_head q) = ?at 0" using r by simp
  have ne: "?at 0 \<noteq> ?at (Suc i)" if "i < length js" for i
  proof
    assume "?at 0 = ?at (Suc i)"
    then have "(queue_head q + int (Suc i)) mod capacity q = (queue_head q + int 0) mod capacity q"
      using r(1) by (metis eq_nat_nat_iff pos_mod_sign)
    then show False using mod_offset_inj[of "queue_head q" "Suc i" "capacity q" 0] r(1,2,6) that by simp
  qed
  have "jobs ?q ! nat (((queue_head q + 1) mod capacity q + int i) mod capacity q) = js ! i" if "i < length js" for i
    using that all[rule_format, of "Suc i"] nth_list_update_neq[OF ne[OF that], of "jobs q" zeroed_job] unfolding head
    by (simp add: mod_add_left_eq add.assoc)
  moreover have "queue_tail q = ((queue_head q + 1) mod capacity q + (queue_count q - 1)) mod capacity q"
    using r(5) by (simp add: mod_add_left_eq)
  ultimately have "queue_rep ?q js c" using assms r by (auto simp: queue_rep_def)
  moreover have "jobs q ! nat (queue_head q) = j" using all[rule_format, of 0] unfolding head by simp
  ultimately show ?thesis using r(2) by (auto simp: job_queue_pop_def)
qed

lemma destroy_loop_rep:
  "\<forall>i<n. jobs q ! nat ((queue_head q + int (index + i)) mod capacity q) = js ! i \<Longrightarrow> n = length js \<Longrightarrow>
     destroy_loop q index n = concat (map run_cleanup js)"
proof (induction q index n arbitrary: js rule: destroy_loop.induct)
  case (2 q index n)
  from 2(3) obtain j js' where js: "js = j # js'" "length js' = n" by (cases js) auto
  have at: "jobs q ! nat ((queue_head q + int (index + i)) mod capacity q) = (j # js') ! i" if "i < Suc n" for i
    using 2(2) that unfolding js(1) by blast
  have "jobs q ! nat ((queue_head q + int index) mod capacity q) = j" using at[of 0] by simp
  moreover have "\<forall>i<n. jobs q ! nat ((queue_head q + int (Suc index + i)) mod capacity q) = js' ! i"
    using at[of "Suc i" for i] by (simp del: of_nat_Suc)
  then have "destroy_loop q (Suc index) n = concat (map run_cleanup js')" using js(2)[symmetric] by (rule 2(1))
  ultimately show ?case by (simp add: js(1))
qed simp

lemma queue_rep_destroy: "queue_rep q js c \<Longrightarrow> job_queue_destroy q = concat (map run_cleanup js)"
  unfolding job_queue_destroy_def Let_def
  by (rule destroy_loop_rep) (auto simp: queue_rep_def job_queue_close_def)

section \<open>The contract of a bounded queue\<close>

text \<open>
  What the thread pool relies on: \<open>view q js c\<close> says that \<open>q\<close> holds the jobs \<open>js\<close>, oldest first, and whether
  it is closed. A full queue makes the producer wait, an empty open one the consumer; a closed one
  refuses jobs and is emptied before its consumers are sent away. \<open>push_all\<close> fills a queue and
  \<open>pop_many\<close> takes a number of jobs from it.
\<close>

primrec push_all :: "('q \<Rightarrow> 'j \<Rightarrow> ('q \<times> unit result) option) \<Rightarrow> 'q \<Rightarrow> 'j list \<Rightarrow> 'q option" where
  "push_all push q [] = Some q"
| "push_all push q (j # js) = (case push q j of Some (q', Inr _) \<Rightarrow> push_all push q' js | _ \<Rightarrow> None)"

primrec pop_many :: "('q \<Rightarrow> ('q \<times> 'j option) option) \<Rightarrow> 'q \<Rightarrow> nat \<Rightarrow> ('q \<times> 'j list) option" where
  "pop_many pop q 0 = Some (q, [])"
| "pop_many pop q (Suc n) =
     (case pop q of
        Some (q', Some j) \<Rightarrow> (case pop_many pop q' n of Some (q'', js) \<Rightarrow> Some (q'', j # js) | None \<Rightarrow> None)
      | _ \<Rightarrow> None)"

locale bounded_queue =
  fixes push :: "'q \<Rightarrow> 'j \<Rightarrow> ('q \<times> unit result) option"
    and pop :: "'q \<Rightarrow> ('q \<times> 'j option) option"
    and close :: "'q \<Rightarrow> 'q"
    and view :: "'q \<Rightarrow> 'j list \<Rightarrow> bool \<Rightarrow> bool"
    and room :: "'q \<Rightarrow> int"
    and valid :: "'j \<Rightarrow> bool"
  assumes push_waits: "view q js False \<Longrightarrow> valid j \<Longrightarrow> int (length js) = room q \<Longrightarrow> push q j = None"
    and push_room: "view q js False \<Longrightarrow> valid j \<Longrightarrow> int (length js) < room q \<Longrightarrow>
      \<exists>q'. push q j = Some (q', Inr ()) \<and> view q' (js @ [j]) False \<and> room q' = room q"
    and push_closed: "view q js True \<Longrightarrow> valid j \<Longrightarrow> \<exists>e. push q j = Some (q, Inl e)"
    and push_invalid: "\<not> valid j \<Longrightarrow> \<exists>e. push q j = Some (q, Inl e)"
    and pop_waits: "view q [] False \<Longrightarrow> pop q = None"
    and pop_job: "view q (j # js) c \<Longrightarrow> \<exists>q'. pop q = Some (q', Some j) \<and> view q' js c \<and> room q' = room q"
    and pop_end: "view q [] True \<Longrightarrow> pop q = Some (q, None)"
    and close_view: "view q js c \<Longrightarrow> view (close q) js True \<and> room (close q) = room q"
    and view_room: "view q js c \<Longrightarrow> int (length js) \<le> room q \<and> 0 < room q"
begin

text \<open>A push returns unless the queue is open and full, and only an accepted job is added.\<close>

lemma push_cases:
  assumes "view q js c"
  obtains (waits) "push q j = None" "\<not> c" "int (length js) = room q"
  | (accepted) q' where "push q j = Some (q', Inr ())" "view q' (js @ [j]) c" "\<not> c" "valid j" "room q' = room q"
  | (refused) e where "push q j = Some (q, Inl e)" "c \<or> \<not> valid j"
proof (cases "valid j")
  case False
  then show thesis using push_invalid refused by blast
next
  case valid: True
  show thesis
  proof (cases c)
    case True
    then obtain e where "push q j = Some (q, Inl e)" using push_closed[of q js j] assms valid by auto
    then show thesis using refused True by blast
  next
    case False
    then have v: "view q js False" using assms by simp
    show thesis
    proof (cases "int (length js) = room q")
      case True
      then show thesis using push_waits[OF v valid] waits False by blast
    next
      case False
      then have "int (length js) < room q" using view_room[OF v] by simp
      then obtain q' where "push q j = Some (q', Inr ())" "view q' (js @ [j]) False" "room q' = room q" using push_room[OF v valid] by blast
      then show thesis using \<open>\<not> c\<close> valid by (intro accepted[of q']) simp_all
    qed
  qed
qed

lemma pop_cases:
  assumes "view q js c"
  obtains (waits) "pop q = None" "js = []" "\<not> c"
  | (job) q' j js' where "pop q = Some (q', Some j)" "js = j # js'" "view q' js' c" "room q' = room q"
  | (ended) "pop q = Some (q, None)" "js = []" "c"
proof (cases js)
  case Nil
  show thesis
  proof (cases c)
    case True
    then show thesis using assms Nil pop_end[of q] by (intro ended) simp_all
  next
    case False
    then show thesis using assms Nil pop_waits[of q] by (intro waits) simp_all
  qed
next
  case (Cons j js')
  then obtain q' where "pop q = Some (q', Some j)" "view q' js' c" "room q' = room q" using pop_job[of q j js' c] assms by auto
  then show thesis using job Cons by blast
qed

lemma push_all_view:
  assumes "view q xs False" "\<forall>j\<in>set js. valid j" "int (length xs + length js) \<le> room q"
  shows "\<exists>q'. push_all push q js = Some q' \<and> view q' (xs @ js) False \<and> room q' = room q"
  using assms
proof (induction js arbitrary: q xs)
  case (Cons j js)
  then have "valid j" "int (length xs) < room q" by simp_all
  with Cons.prems(1) obtain q' where q': "push q j = Some (q', Inr ())" "view q' (xs @ [j]) False" "room q' = room q"
    using push_room[of q xs j] by blast
  then show ?case using Cons.IH[of q' "xs @ [j]"] Cons.prems(2,3) by simp
qed simp

lemma pop_many_view:
  assumes "view q (js @ rest) c"
  shows "\<exists>q'. pop_many pop q (length js) = Some (q', js) \<and> view q' rest c"
  using assms
proof (induction js arbitrary: q)
  case (Cons j js)
  then obtain q' where q': "pop q = Some (q', Some j)" "view q' (js @ rest) c" using pop_job[of q j "js @ rest" c] by auto
  obtain q'' where "pop_many pop q' (length js) = Some (q'', js)" "view q'' rest c" using Cons.IH[OF q'(2)] by blast
  then show ?case using q'(1) by simp
qed simp

lemma first_in_first_out:
  assumes "view q [] False" "\<forall>j\<in>set js. valid j" "int (length js) \<le> room q"
  shows "\<exists>q1 q2. push_all push q js = Some q1 \<and> pop_many pop (close q1) (length js) = Some (q2, js) \<and> pop q2 = Some (q2, None)"
proof -
  obtain q1 where q1: "push_all push q js = Some q1" "view q1 js False" using push_all_view[of q "[]" js] assms by auto
  obtain q2 where "pop_many pop (close q1) (length js) = Some (q2, js)" "view q2 [] True"
    using pop_many_view[of "close q1" js "[]" True] close_view[OF q1(2)] by auto
  then show ?thesis using q1(1) pop_end by blast
qed

end

interpretation jq: bounded_queue job_queue_push job_queue_pop job_queue_close queue_rep capacity job_execute
proof
  fix q :: "'a JobQueue" and js j c
  show "queue_rep q js False \<Longrightarrow> job_execute j \<Longrightarrow> int (length js) = capacity q \<Longrightarrow> job_queue_push q j = None"
    by (simp add: queue_rep_def job_queue_push_def)
  show "queue_rep q js False \<Longrightarrow> job_execute j \<Longrightarrow> int (length js) < capacity q \<Longrightarrow>
      \<exists>q'. job_queue_push q j = Some (q', Inr ()) \<and> queue_rep q' (js @ [j]) False \<and> capacity q' = capacity q"
    by (rule queue_rep_push)
  show "queue_rep q (j # js) c \<Longrightarrow> \<exists>q'. job_queue_pop q = Some (q', Some j) \<and> queue_rep q' js c \<and> capacity q' = capacity q"
    by (rule queue_rep_pop)
qed (auto simp: queue_rep_def job_queue_push_def job_queue_pop_def job_queue_close_def)

section \<open>Properties of the queue\<close>

text \<open>
  C12. The ring buffer implements a bounded list: a job is added at the end unless the queue is closed,
  has no room (the caller waits) or the job has no callback; the oldest job is taken from the front
  unless there is none (the caller waits, or is sent away when the queue is closed); closing keeps the
  jobs; destroying runs the cleanup of every job that is left, in order, and of no other.
\<close>

theorem job_queue_refines_list:
  assumes "queue_rep q js c"
  shows "(case job_queue_push q j of
      None \<Rightarrow> \<not> c \<and> int (length js) = capacity q
    | Some (q', Inl e) \<Rightarrow> q' = q \<and> (c \<or> \<not> job_execute j)
    | Some (q', Inr _) \<Rightarrow> \<not> c \<and> queue_rep q' (js @ [j]) c \<and> capacity q' = capacity q) \<and>
    (case job_queue_pop q of
      None \<Rightarrow> \<not> c \<and> js = []
    | Some (q', None) \<Rightarrow> c \<and> js = [] \<and> q' = q
    | Some (q', Some x) \<Rightarrow> js = x # tl js \<and> queue_rep q' (tl js) c \<and> capacity q' = capacity q) \<and>
    queue_rep (job_queue_close q) js True \<and> job_queue_destroy q = concat (map run_cleanup js)"
proof -
  have "case job_queue_push q j of
      None \<Rightarrow> \<not> c \<and> int (length js) = capacity q
    | Some (q', Inl e) \<Rightarrow> q' = q \<and> (c \<or> \<not> job_execute j)
    | Some (q', Inr _) \<Rightarrow> \<not> c \<and> queue_rep q' (js @ [j]) c \<and> capacity q' = capacity q"
    by (cases rule: jq.push_cases[OF assms, of j]) auto
  moreover have "case job_queue_pop q of
      None \<Rightarrow> \<not> c \<and> js = []
    | Some (q', None) \<Rightarrow> c \<and> js = [] \<and> q' = q
    | Some (q', Some x) \<Rightarrow> js = x # tl js \<and> queue_rep q' (tl js) c \<and> capacity q' = capacity q"
    by (cases rule: jq.pop_cases[OF assms]) auto
  ultimately show ?thesis using jq.close_view[OF assms] queue_rep_destroy[OF assms] by blast
qed

definition sample_job :: "nat \<Rightarrow> nat Job" where
  "sample_job n = \<lparr>job_execute = True, job_cleanup = True, job_data = Some n\<rparr>"

definition all_resources :: queue_resources where
  "all_resources = \<lparr>queue_granted = True, buffer_granted = True, mutex_init_ok = True, not_empty_init_ok = True, not_full_init_ok = True\<rparr>"

lemma sample_queue: "\<exists>q. job_queue_create all_resources n = Inr q \<and> queue_rep q [] False \<and> capacity q = n" if "0 < n"
  using that queue_rep_create[of all_resources n] by (simp add: job_queue_create_def all_resources_def)

theorem job_queue_refines_list_witness:
  "\<exists>q :: nat JobQueue. queue_rep q [sample_job 7] False \<and> job_queue_destroy q = [Cleaned (Some 7)] \<and>
     queue_rep (job_queue_close q) [sample_job 7] True"
proof -
  obtain q :: "nat JobQueue" where "queue_rep q [sample_job 7] False"
    using sample_queue[of 2] queue_rep_push[of _ "[]" "sample_job 7"] by (fastforce simp: sample_job_def)
  then show ?thesis using job_queue_refines_list[of q "[sample_job 7]" False] by (auto simp: run_cleanup_def sample_job_def)
qed

text \<open>
  C30. First in, first out: jobs put into a new queue of sufficient capacity, which is then closed, come
  out in the order they were put in; after the last one the consumer is sent away.
\<close>

theorem job_queue_first_in_first_out:
  assumes "job_queue_create sys n = Inr q" "\<forall>j\<in>set js. job_execute j" "int (length js) \<le> n"
  shows "\<exists>q1 q2. push_all job_queue_push q js = Some q1 \<and>
    pop_many job_queue_pop (job_queue_close q1) (length js) = Some (q2, js) \<and> job_queue_pop q2 = Some (q2, None)"
  using jq.first_in_first_out[of q js] queue_rep_create[OF assms(1)] assms(2,3) by blast

theorem job_queue_first_in_first_out_witness:
  "\<exists>q q1 q2 :: nat JobQueue. job_queue_create all_resources 3 = Inr q \<and> push_all job_queue_push q [sample_job 1, sample_job 2, sample_job 3] = Some q1 \<and>
     pop_many job_queue_pop (job_queue_close q1) 3 = Some (q2, [sample_job 1, sample_job 2, sample_job 3]) \<and> job_queue_pop q2 = Some (q2, None)"
proof -
  obtain q :: "nat JobQueue" where q: "job_queue_create all_resources 3 = Inr q" using sample_queue[of 3] by auto
  then show ?thesis
    using job_queue_first_in_first_out[OF q, of "[sample_job 1, sample_job 2, sample_job 3]"]
    by (simp add: sample_job_def numeral_3_eq_3)
qed

text \<open>
  The queue after a sequence of calls by whichever threads; a call that has to wait changes nothing.
\<close>

datatype 'd queue_call = Push "'d Job" | Pop | Close

fun queue_after :: "'d JobQueue \<Rightarrow> 'd queue_call list \<Rightarrow> 'd JobQueue" where
  "queue_after q [] = q"
| "queue_after q (Push j # calls) = queue_after (case job_queue_push q j of None \<Rightarrow> q | Some (q', _) \<Rightarrow> q') calls"
| "queue_after q (Pop # calls) = queue_after (case job_queue_pop q of None \<Rightarrow> q | Some (q', _) \<Rightarrow> q') calls"
| "queue_after q (Close # calls) = queue_after (job_queue_close q) calls"

lemma queue_after_rep:
  "queue_rep q js c \<Longrightarrow> \<exists>js' c'. queue_rep (queue_after q calls) js' c' \<and> capacity (queue_after q calls) = capacity q"
proof (induction q calls arbitrary: js c rule: queue_after.induct)
  case (2 q j calls)
  show ?case using "2.prems"
  proof (cases rule: jq.push_cases[of _ _ _ j])
    case waits
    then show ?thesis using "2.IH"[of js c] "2.prems" by simp
  next
    case (accepted q')
    then show ?thesis using "2.IH"[of "js @ [j]" c] by simp
  next
    case (refused e)
    then show ?thesis using "2.IH"[of js c] "2.prems" by simp
  qed
next
  case (3 q calls)
  show ?case using "3.prems"
  proof (cases rule: jq.pop_cases)
    case waits
    then show ?thesis using "3.IH"[of js c] "3.prems" by simp
  next
    case (job q' j js')
    then show ?thesis using "3.IH"[of js' c] by simp
  next
    case ended
    then show ?thesis using "3.IH"[of js c] "3.prems" by simp
  qed
next
  case (4 q calls)
  then show ?case using jq.close_view[OF "4.prems"] by fastforce
qed auto

text \<open>
  C31. The arithmetic of the ring buffer stays inside the buffer and inside \<open>int\<close>: in a queue made by
  \<open>job_queue_create\<close>, after any sequence of pushes, pops and closes, accepted, refused or waiting, the
  slots the next call reads and writes are slots of the array, and the values it computes (\<open>tail + 1\<close>,
  \<open>head + 1\<close>, and \<open>count + 1\<close> when there is room) are \<open>int\<close> values. The sum \<open>head + index\<close> of the
  destruction does not overflow when the capacity is at most \<open>2 ^ 30\<close>.
\<close>

theorem job_queue_bounds:
  assumes "job_queue_create sys n = Inr q0" "int32 n" "q = queue_after q0 calls"
  shows "capacity q = n \<and> int (length (jobs q)) = n \<and> 0 \<le> queue_count q \<and> queue_count q \<le> n \<and>
    0 \<le> queue_tail q \<and> queue_tail q < n \<and> 0 \<le> queue_head q \<and> queue_head q < n \<and>
    int32 (queue_tail q + 1) \<and> int32 (queue_head q + 1) \<and> (queue_count q \<noteq> n \<longrightarrow> int32 (queue_count q + 1)) \<and>
    (n \<le> 2 ^ 30 \<longrightarrow> (\<forall>index. 0 \<le> index \<and> index < queue_count q \<longrightarrow> int32 (queue_head q + index)))"
proof -
  obtain js c where rep: "queue_rep q js c" "capacity q = n"
    using queue_after_rep[of q0 "[]" False calls] queue_rep_create[OF assms(1)] assms(3) by auto
  then have r: "0 < n" "int (length (jobs q)) = n" "0 \<le> queue_head q" "queue_head q < n" "queue_count q = int (length js)" "queue_count q \<le> n"
    and t: "queue_tail q = (queue_head q + queue_count q) mod n"
    by (auto simp: queue_rep_def)
  have "0 \<le> queue_tail q" "queue_tail q < n" using r(1) t by simp_all
  then show ?thesis using r rep(2) assms(2) by (auto simp: int32_def)
qed

theorem job_queue_bounds_witness:
  "\<exists>q0 q :: nat JobQueue. job_queue_create all_resources 2 = Inr q0 \<and>
     q = queue_after q0 [Push (sample_job 1), Push (sample_job 2), Push (sample_job 3), Pop, Push (sample_job 4), Pop] \<and>
     queue_tail q = 1 \<and> queue_head q = 0 \<and> queue_count q = 1 \<and> int32 (queue_count q + 1)"
proof -
  obtain q0 :: "nat JobQueue" where q0: "job_queue_create all_resources 2 = Inr q0" using sample_queue[of 2] by auto
  let ?calls = "[Push (sample_job 1), Push (sample_job 2), Push (sample_job 3), Pop, Push (sample_job 4), Pop]"
  have "case job_queue_create all_resources 2 of Inl e \<Rightarrow> False
    | Inr q \<Rightarrow> (let q = queue_after q ?calls in queue_tail q = 1 \<and> queue_head q = 0 \<and> queue_count q = 1)" by code_simp
  moreover have "int32 2" by (simp add: int32_def)
  ultimately show ?thesis using q0 job_queue_bounds[OF q0 _ refl, of ?calls] by (auto simp: Let_def)
qed

end
