(* ===== verification/Thread_Pool.thy ===== *)
theory Thread_Pool
  imports Job_Queue "HOL-Library.Multiset"
begin

text \<open>
  \<^verbatim>\<open>src/server/pool/thread_pool.c\<close>: the workers that take jobs from the queue, run them and clean up
  after them, and the calls that start, feed and stop them.

  The threads interleave: a step of the system is one step of a worker (a \<open>pop\<close>, an \<open>execute\<close> or a
  \<open>cleanup\<close> callback), one step of the thread that starts or stops the pool (a \<open>pthread_create\<close>, a
  \<open>pthread_join\<close>), or one of the two halves of a \<open>thread_pool_submit\<close> (its checks, then its push). A
  step that would wait is not enabled. What the callbacks do is the trace of events.
\<close>

section \<open>The pool\<close>

datatype 'd worker = Absent | Fetching | Holding "'d Job" | Cleaning "'d Job" | Exited

record 'd ThreadPool =
  worker_count :: int
  started :: bool
  pool_queue :: "'d JobQueue"
  workers :: "'d worker list"

record pool_resources =
  pool_granted :: bool
  workers_granted :: bool
  for_queue :: queue_resources

definition thread_pool_create :: "pool_resources \<Rightarrow> int \<Rightarrow> int \<Rightarrow> 'd ThreadPool result" where
  "thread_pool_create sys n queue_capacity =
     (if n \<le> 0 then fail ''worker count must be positive''
      else if queue_capacity \<le> 0 then fail ''queue capacity must be positive''
      else if \<not> pool_granted sys then fail ''failed to allocate thread pool''
      else if \<not> workers_granted sys then fail ''failed to allocate thread pool workers''
      else case job_queue_create (for_queue sys) queue_capacity of
        Inl e \<Rightarrow> Inl e
      | Inr q \<Rightarrow> Inr \<lparr>worker_count = n, started = False, pool_queue = q, workers = replicate (nat n) Absent\<rparr>)"

text \<open>The two calls of \<open>run_job\<close>, as the steps of the worker that makes them.\<close>

fun run_job :: "'d worker \<Rightarrow> ('d worker \<times> 'd job_event list) option" where
  "run_job (Holding job) = Some (Cleaning job, [Executed (job_data job)])"
| "run_job (Cleaning job) = Some (Fetching, run_cleanup job)"
| "run_job _ = None"

fun thread_pool_worker_main :: "'d JobQueue \<Rightarrow> 'd worker \<Rightarrow> ('d JobQueue \<times> 'd worker \<times> 'd job_event list) option" where
  "thread_pool_worker_main queue Fetching =
     (case job_queue_pop queue of
        None \<Rightarrow> None
      | Some (queue, Some job) \<Rightarrow> Some (queue, Holding job, [])
      | Some (queue, None) \<Rightarrow> Some (queue, Exited, []))"
| "thread_pool_worker_main queue w = (case run_job w of None \<Rightarrow> None | Some (w', es) \<Rightarrow> Some (queue, w', es))"

text \<open>Where the thread is that starts and stops the pool: in no call (with the result of the last one), or in a loop.\<close>

datatype pool_call = Idle "unit result" | Starting int | Joining int "unit result"

definition thread_pool_stop :: "'d ThreadPool \<Rightarrow> unit result \<Rightarrow> 'd ThreadPool \<times> pool_call" where
  "thread_pool_stop pool r =
     (let pool = pool\<lparr>pool_queue := job_queue_close (pool_queue pool)\<rparr> in
      if \<not> started pool then (pool, Idle r) else (pool, Joining 0 r))"

definition thread_pool_join :: "'d ThreadPool \<Rightarrow> int \<Rightarrow> unit result \<Rightarrow> ('d ThreadPool \<times> pool_call) option" where
  "thread_pool_join pool index r =
     (if index < worker_count pool
      then if workers pool ! nat index = Exited then Some (pool, Joining (index + 1) r) else None
      else Some (pool\<lparr>started := False\<rparr>, Idle r))"

definition thread_pool_start :: "'d ThreadPool \<Rightarrow> 'd ThreadPool \<times> pool_call" where
  "thread_pool_start pool = (if started pool then (pool, Idle (Inr ())) else (pool\<lparr>started := True\<rparr>, Starting 0))"

definition thread_pool_start_loop :: "bool \<Rightarrow> 'd ThreadPool \<Rightarrow> int \<Rightarrow> 'd ThreadPool \<times> pool_call" where
  "thread_pool_start_loop created pool index =
     (if index < worker_count pool
      then if created then (pool\<lparr>workers := (workers pool)[nat index := Fetching]\<rparr>, Starting (index + 1))
           else thread_pool_stop (pool\<lparr>worker_count := index\<rparr>) (fail ''failed to start worker thread'')
      else (pool, Idle (Inr ())))"

definition submit_checks :: "'d ThreadPool option \<Rightarrow> 'd Job \<Rightarrow> 'd job_event list \<times> unit result" where
  "submit_checks pool job =
     (case pool of
        None \<Rightarrow> (run_cleanup job, fail ''thread pool must not be null'')
      | Some p \<Rightarrow>
          if \<not> started p then (run_cleanup job, fail ''thread pool is not started'')
          else if \<not> job_execute job then (run_cleanup job, fail ''job execute callback must not be null'')
          else ([], Inr ()))"

definition submit_push :: "'d ThreadPool \<Rightarrow> 'd Job \<Rightarrow> ('d ThreadPool \<times> 'd job_event list \<times> unit result) option" where
  "submit_push pool job =
     (case job_queue_push (pool_queue pool) job of
        None \<Rightarrow> None
      | Some (queue, Inl e) \<Rightarrow> Some (pool\<lparr>pool_queue := queue\<rparr>, run_cleanup job, Inl e)
      | Some (queue, Inr u) \<Rightarrow> Some (pool\<lparr>pool_queue := queue\<rparr>, [], Inr u))"

definition thread_pool_submit ::
  "'d ThreadPool option \<Rightarrow> 'd Job \<Rightarrow> ('d ThreadPool option \<times> 'd job_event list \<times> unit result) option" where
  "thread_pool_submit pool job =
     (case submit_checks pool job of
        (es, Inl e) \<Rightarrow> Some (pool, es, Inl e)
      | (es, Inr _) \<Rightarrow>
          (case submit_push (the pool) job of None \<Rightarrow> None | Some (p, es', r) \<Rightarrow> Some (Some p, es @ es', r)))"

text \<open>What \<open>thread_pool_destroy\<close> does after its call of \<open>thread_pool_stop\<close> has returned.\<close>

definition thread_pool_destroy :: "'d ThreadPool \<Rightarrow> 'd job_event list" where
  "thread_pool_destroy pool = job_queue_destroy (pool_queue pool)"

section \<open>The threads together\<close>

text \<open>
  \<open>pending\<close> holds the jobs of the submitters between their checks and their push. The last three lists
  are for the statements: every job a submit was called with, those it refused, and those a worker is
  done with.
\<close>

record 'd pool_system =
  pool :: "'d ThreadPool"
  call :: pool_call
  pending :: "'d Job list"
  trace :: "'d job_event list"
  submitted :: "'d Job list"
  refused :: "'d Job list"
  completed :: "'d Job list"

fun finished :: "'d worker \<Rightarrow> 'd Job list" where
  "finished (Cleaning job) = [job]"
| "finished _ = []"

inductive pool_step :: "'d pool_system \<Rightarrow> 'd pool_system \<Rightarrow> bool" where
  worker: "i < length (workers (pool s)) \<Longrightarrow>
     thread_pool_worker_main (pool_queue (pool s)) (workers (pool s) ! i) = Some (q, w, es) \<Longrightarrow>
     pool_step s (s\<lparr>pool := (pool s)\<lparr>pool_queue := q, workers := (workers (pool s))[i := w]\<rparr>,
                    trace := trace s @ es, completed := completed s @ finished (workers (pool s) ! i)\<rparr>)"
| start: "call s = Idle r \<Longrightarrow> thread_pool_start (pool s) = (p, c) \<Longrightarrow> pool_step s (s\<lparr>pool := p, call := c\<rparr>)"
| start_loop: "call s = Starting k \<Longrightarrow> thread_pool_start_loop created (pool s) k = (p, c) \<Longrightarrow> pool_step s (s\<lparr>pool := p, call := c\<rparr>)"
| stop: "call s = Idle r \<Longrightarrow> thread_pool_stop (pool s) (Inr ()) = (p, c) \<Longrightarrow> pool_step s (s\<lparr>pool := p, call := c\<rparr>)"
| join: "call s = Joining k r \<Longrightarrow> thread_pool_join (pool s) k r = Some (p, c) \<Longrightarrow> pool_step s (s\<lparr>pool := p, call := c\<rparr>)"
| submit_refused: "submit_checks (Some (pool s)) job = (es, Inl e) \<Longrightarrow>
     pool_step s (s\<lparr>trace := trace s @ es, submitted := submitted s @ [job], refused := refused s @ [job]\<rparr>)"
| submit_checked: "submit_checks (Some (pool s)) job = (es, Inr u) \<Longrightarrow>
     pool_step s (s\<lparr>trace := trace s @ es, submitted := submitted s @ [job], pending := pending s @ [job]\<rparr>)"
| push: "pending s = ps @ job # ps' \<Longrightarrow> submit_push (pool s) job = Some (p, es, r) \<Longrightarrow>
     pool_step s (s\<lparr>pool := p, trace := trace s @ es, pending := ps @ ps',
                    refused := refused s @ (case r of Inl _ \<Rightarrow> [job] | Inr _ \<Rightarrow> [])\<rparr>)"

definition pool_initial :: "'d ThreadPool \<Rightarrow> 'd pool_system" where
  "pool_initial p = \<lparr>pool = p, call = Idle (Inr ()), pending = [], trace = [], submitted = [], refused = [], completed = []\<rparr>"

definition pool_reachable :: "'d ThreadPool \<Rightarrow> 'd pool_system \<Rightarrow> bool" where
  "pool_reachable p = pool_step\<^sup>*\<^sup>* (pool_initial p)"

section \<open>What the queue holds\<close>

definition queue_list :: "'d JobQueue \<Rightarrow> 'd Job list" where
  "queue_list q = map (\<lambda>i. jobs q ! nat ((queue_head q + int i) mod capacity q)) [0..<nat (queue_count q)]"

definition queue_ok :: "'d JobQueue \<Rightarrow> bool" where
  "queue_ok q \<longleftrightarrow> queue_rep q (queue_list q) (closed q)"

lemma queue_rep_list: "queue_rep q js c \<Longrightarrow> queue_list q = js \<and> closed q = c"
  by (auto simp: queue_list_def queue_rep_def intro!: nth_equalityI)

lemma queue_rep_ok: "queue_rep q js c \<Longrightarrow> queue_ok q \<and> queue_list q = js \<and> closed q = c"
  using queue_rep_list[of q js c] by (auto simp: queue_ok_def)

lemma queue_ok_create: "job_queue_create sys n = Inr q \<Longrightarrow> queue_ok q \<and> queue_list q = [] \<and> \<not> closed q"
  using queue_rep_create[of sys n q] queue_rep_ok[of q "[]" False] by blast

lemma queue_ok_close: "queue_ok q \<Longrightarrow> queue_ok (job_queue_close q) \<and> queue_list (job_queue_close q) = queue_list q \<and> closed (job_queue_close q)"
  using jq.close_view queue_rep_ok unfolding queue_ok_def by blast

lemma queue_ok_push:
  assumes "queue_ok q" "job_queue_push q j = Some (q', Inr u)"
  shows "queue_ok q' \<and> queue_list q' = queue_list q @ [j] \<and> \<not> closed q \<and> closed q' = closed q \<and> job_execute j"
  by (cases rule: jq.push_cases[OF assms(1)[unfolded queue_ok_def], of j])
    (use assms(2) queue_rep_ok[of q'] in \<open>auto simp: job_queue_push_def split: if_splits\<close>)

lemma queue_refused_push: "job_queue_push q j = Some (q', Inl e) \<Longrightarrow> q' = q"
  by (auto simp: job_queue_push_def split: if_splits)

lemma queue_ok_pop:
  assumes "queue_ok q"
  shows "case job_queue_pop q of
      None \<Rightarrow> \<not> closed q \<and> queue_list q = []
    | Some (q', None) \<Rightarrow> q' = q \<and> closed q \<and> queue_list q = []
    | Some (q', Some j) \<Rightarrow> queue_ok q' \<and> queue_list q = j # queue_list q' \<and> closed q' = closed q"
  by (cases rule: jq.pop_cases[OF assms[unfolded queue_ok_def]]) (use queue_rep_ok in \<open>auto\<close>)

section \<open>The invariant\<close>

fun held :: "'d worker \<Rightarrow> 'd Job list" where
  "held (Holding job) = [job]"
| "held (Cleaning job) = [job]"
| "held _ = []"

fun quiet :: "'d worker \<Rightarrow> bool" where
  "quiet Absent = True"
| "quiet Exited = True"
| "quiet _ = False"

text \<open>The slots from this index on have no running thread.\<close>

definition active_slots :: "'d pool_system \<Rightarrow> int" where
  "active_slots s = (case call s of Starting k \<Rightarrow> k | _ \<Rightarrow> if started (pool s) then worker_count (pool s) else 0)"

definition pool_shape :: "'d pool_system \<Rightarrow> bool" where
  "pool_shape s \<longleftrightarrow>
     0 \<le> worker_count (pool s) \<and> worker_count (pool s) \<le> int (length (workers (pool s))) \<and>
     (\<forall>i<length (workers (pool s)). active_slots s \<le> int i \<longrightarrow> quiet (workers (pool s) ! i)) \<and>
     (\<forall>i. int i < active_slots s \<longrightarrow> workers (pool s) ! i \<noteq> Absent) \<and>
     (case call s of
        Idle r \<Rightarrow> True
      | Starting k \<Rightarrow> started (pool s) \<and> 0 \<le> k \<and> k \<le> worker_count (pool s)
      | Joining k r \<Rightarrow> started (pool s) \<and> 0 \<le> k \<and> k \<le> worker_count (pool s) \<and> closed (pool_queue (pool s)) \<and>
          (\<forall>i. int i < k \<longrightarrow> workers (pool s) ! i = Exited))"

definition pool_drained :: "'d pool_system \<Rightarrow> bool" where
  "pool_drained s \<longleftrightarrow>
     queue_ok (pool_queue (pool s)) \<and>
     (Exited \<in> set (workers (pool s)) \<longrightarrow> closed (pool_queue (pool s)) \<and> queue_list (pool_queue (pool s)) = []) \<and>
     (\<not> started (pool s) \<longrightarrow> closed (pool_queue (pool s)) \<or> pending s = []) \<and>
     (\<not> started (pool s) \<longrightarrow> queue_list (pool_queue (pool s)) = [] \<or> worker_count (pool s) = 0)"

definition pool_accounts :: "'d pool_system \<Rightarrow> bool" where
  "pool_accounts s \<longleftrightarrow>
     mset (submitted s) = mset (refused s) + mset (pending s) + mset (queue_list (pool_queue (pool s))) +
       mset (concat (map held (workers (pool s)))) + mset (completed s)"

definition pool_trace :: "'d pool_system \<Rightarrow> bool" where
  "pool_trace s \<longleftrightarrow>
     mset (trace s) = mset (map (Executed \<circ> job_data) (completed s @ concat (map finished (workers (pool s))))) +
       mset (concat (map run_cleanup (completed s @ refused s)))"

definition pool_callbacks :: "'d pool_system \<Rightarrow> bool" where
  "pool_callbacks s \<longleftrightarrow> (\<forall>j\<in>set (pending s) \<union> set (queue_list (pool_queue (pool s))) \<union> set (concat (map held (workers (pool s)))). job_execute j)"

section \<open>Every step keeps it\<close>

lemma worker_cases:
  assumes "queue_ok q" "thread_pool_worker_main q w = Some (q', w', es)"
  obtains (fetch) j where "w = Fetching" "w' = Holding j" "es = []" "queue_list q = j # queue_list q'" "queue_ok q'" "closed q' = closed q"
  | (exit) "w = Fetching" "w' = Exited" "es = []" "q' = q" "closed q" "queue_list q = []"
  | (execute) j where "w = Holding j" "w' = Cleaning j" "es = [Executed (job_data j)]" "q' = q"
  | (clean) j where "w = Cleaning j" "w' = Fetching" "es = run_cleanup j" "q' = q"
  using assms(2) queue_ok_pop[OF assms(1)] by (cases w) (auto split: option.splits)

lemma mset_concat_update:
  "i < length xs \<Longrightarrow> mset (concat (map f (xs[i := x]))) + mset (f (xs ! i)) = mset (concat (map f xs)) + mset (f x)"
proof (induction xs arbitrary: i)
  case (Cons y ys)
  then show ?case by (cases i) (auto simp: ac_simps)
qed simp

lemma set_concat_update: "set (concat (map f (xs[i := x]))) \<subseteq> set (concat (map f xs)) \<union> set (f x)"
  using set_update_subset_insert[of xs i x] by auto

lemma shape_worker:
  assumes "pool_shape s" "queue_ok (pool_queue (pool s))" "i < length (workers (pool s))"
    "thread_pool_worker_main (pool_queue (pool s)) (workers (pool s) ! i) = Some (q, w, es)"
  shows "pool_shape (s\<lparr>pool := (pool s)\<lparr>pool_queue := q, workers := (workers (pool s))[i := w]\<rparr>, trace := t, completed := c\<rparr>)"
proof -
  have "\<not> quiet (workers (pool s) ! i)" "workers (pool s) ! i \<noteq> Exited" "closed q = closed (pool_queue (pool s))" "w \<noteq> Absent"
    by (cases rule: worker_cases[OF assms(2,4)]; simp)+
  then show ?thesis
    using assms(1,3) by (auto simp: pool_shape_def active_slots_def nth_list_update split: pool_call.splits)
qed

lemma shape_calls:
  assumes "pool_shape s" "queue_ok (pool_queue (pool s))"
  shows "call s = Idle r \<Longrightarrow> thread_pool_start (pool s) = (p, c) \<Longrightarrow> pool_shape (s\<lparr>pool := p, call := c\<rparr>)"
    and "call s = Idle r \<Longrightarrow> thread_pool_stop (pool s) r' = (p, c) \<Longrightarrow> pool_shape (s\<lparr>pool := p, call := c\<rparr>)"
    and "call s = Joining k r \<Longrightarrow> thread_pool_join (pool s) k r = Some (p, c) \<Longrightarrow> pool_shape (s\<lparr>pool := p, call := c\<rparr>)"
    and "call s = Starting k \<Longrightarrow> thread_pool_start_loop created (pool s) k = (p, c) \<Longrightarrow> pool_shape (s\<lparr>pool := p, call := c\<rparr>)"
proof -
  show "call s = Idle r \<Longrightarrow> thread_pool_start (pool s) = (p, c) \<Longrightarrow> pool_shape (s\<lparr>pool := p, call := c\<rparr>)"
    using assms(1) by (auto simp: pool_shape_def active_slots_def thread_pool_start_def split: if_splits)
  show "call s = Idle r \<Longrightarrow> thread_pool_stop (pool s) r' = (p, c) \<Longrightarrow> pool_shape (s\<lparr>pool := p, call := c\<rparr>)"
    using assms(1) by (auto simp: pool_shape_def active_slots_def thread_pool_stop_def Let_def job_queue_close_def split: if_splits)
  show "call s = Joining k r \<Longrightarrow> thread_pool_join (pool s) k r = Some (p, c) \<Longrightarrow> pool_shape (s\<lparr>pool := p, call := c\<rparr>)"
  proof -
    assume c: "call s = Joining k r" "thread_pool_join (pool s) k r = Some (p, c)"
    then have sh: "0 \<le> k" "k \<le> worker_count (pool s)" "worker_count (pool s) \<le> int (length (workers (pool s)))"
      "\<And>i. int i < k \<Longrightarrow> workers (pool s) ! i = Exited" "closed (pool_queue (pool s))" "started (pool s)"
      "\<And>i. i < length (workers (pool s)) \<Longrightarrow> worker_count (pool s) \<le> int i \<Longrightarrow> quiet (workers (pool s) ! i)"
      "\<And>i. int i < worker_count (pool s) \<Longrightarrow> workers (pool s) ! i \<noteq> Absent"
      using assms(1) by (auto simp: pool_shape_def active_slots_def)
    show ?thesis
    proof (cases "k < worker_count (pool s)")
      case True
      then have e: "workers (pool s) ! nat k = Exited" "p = pool s" "c = Joining (k + 1) r"
        using c(2) by (auto simp: thread_pool_join_def split: if_splits)
      have "workers (pool s) ! i = Exited" if "int i < k + 1" for i
        using that sh(4)[of i] e(1) by (cases "int i = k") auto
      then show ?thesis using sh e True by (auto simp: pool_shape_def active_slots_def)
    next
      case False
      then have "quiet (workers (pool s) ! i)" if "i < length (workers (pool s))" for i
        using that sh(4)[of i] sh(7)[of i] by (cases "int i < k") auto
      then show ?thesis using c(2) False sh by (auto simp: pool_shape_def active_slots_def thread_pool_join_def)
    qed
  qed
  show "call s = Starting k \<Longrightarrow> thread_pool_start_loop created (pool s) k = (p, c) \<Longrightarrow> pool_shape (s\<lparr>pool := p, call := c\<rparr>)"
    using assms(1)
    by (auto simp: pool_shape_def active_slots_def thread_pool_start_loop_def thread_pool_stop_def Let_def job_queue_close_def
        nth_list_update split: if_splits)
qed

lemma drained_worker:
  assumes "pool_drained s" "i < length (workers (pool s))"
    "thread_pool_worker_main (pool_queue (pool s)) (workers (pool s) ! i) = Some (q, w, es)"
  shows "pool_drained (s\<lparr>pool := (pool s)\<lparr>pool_queue := q, workers := (workers (pool s))[i := w]\<rparr>, trace := t, completed := c\<rparr>)"
proof -
  have q: "queue_ok (pool_queue (pool s))" using assms(1) by (simp add: pool_drained_def)
  have sub: "set ((workers (pool s))[i := w]) \<subseteq> insert w (set (workers (pool s)))" by (rule set_update_subset_insert)
  from q assms(3) show ?thesis
    by (cases rule: worker_cases) (use assms(1) sub in \<open>auto simp: pool_drained_def\<close>)
qed

lemma drained_calls:
  assumes "pool_drained s" "pool_shape s"
  shows "call s = Idle r \<Longrightarrow> thread_pool_start (pool s) = (p, c) \<Longrightarrow> pool_drained (s\<lparr>pool := p, call := c\<rparr>)"
    and "call s = Idle r \<Longrightarrow> thread_pool_stop (pool s) r' = (p, c) \<Longrightarrow> pool_drained (s\<lparr>pool := p, call := c\<rparr>)"
    and "call s = Joining k r \<Longrightarrow> thread_pool_join (pool s) k r = Some (p, c) \<Longrightarrow> pool_drained (s\<lparr>pool := p, call := c\<rparr>)"
    and "call s = Starting k \<Longrightarrow> thread_pool_start_loop created (pool s) k = (p, c) \<Longrightarrow> pool_drained (s\<lparr>pool := p, call := c\<rparr>)"
proof -
  note close = queue_ok_close[of "pool_queue (pool s)"]
  show "call s = Idle r \<Longrightarrow> thread_pool_start (pool s) = (p, c) \<Longrightarrow> pool_drained (s\<lparr>pool := p, call := c\<rparr>)"
    using assms(1) by (auto simp: pool_drained_def thread_pool_start_def split: if_splits)
  show "call s = Idle r \<Longrightarrow> thread_pool_stop (pool s) r' = (p, c) \<Longrightarrow> pool_drained (s\<lparr>pool := p, call := c\<rparr>)"
    using assms(1) close by (auto simp: pool_drained_def thread_pool_stop_def Let_def split: if_splits)
  show "call s = Joining k r \<Longrightarrow> thread_pool_join (pool s) k r = Some (p, c) \<Longrightarrow> pool_drained (s\<lparr>pool := p, call := c\<rparr>)"
  proof -
    assume c: "call s = Joining k r" "thread_pool_join (pool s) k r = Some (p, c)"
    have "Exited \<in> set (workers (pool s)) \<or> worker_count (pool s) = 0" if "\<not> k < worker_count (pool s)"
    proof (cases "worker_count (pool s) = 0")
      case False
      then have "0 < length (workers (pool s))" "workers (pool s) ! 0 = Exited"
        using assms(2) c(1) that by (auto simp: pool_shape_def active_slots_def)
      then show ?thesis by (metis nth_mem)
    qed simp
    then show ?thesis using assms c by (auto simp: pool_drained_def pool_shape_def thread_pool_join_def split: if_splits)
  qed
  have "set (ws[i := Fetching]) \<subseteq> insert Fetching (set ws)" for ws :: "'a worker list" and i by (rule set_update_subset_insert)
  then show "call s = Starting k \<Longrightarrow> thread_pool_start_loop created (pool s) k = (p, c) \<Longrightarrow> pool_drained (s\<lparr>pool := p, call := c\<rparr>)"
    using assms close
    by (fastforce simp: pool_drained_def pool_shape_def thread_pool_start_loop_def thread_pool_stop_def Let_def split: if_splits)
qed

lemma drained_submit:
  assumes "pool_drained s" "submit_checks (Some (pool s)) job = (es, Inr u)"
  shows "pool_drained (s\<lparr>trace := t, submitted := sub, pending := pending s @ [job]\<rparr>)"
  using assms by (auto simp: pool_drained_def submit_checks_def split: if_splits)

lemma drained_push:
  assumes "pool_drained s" "pending s = ps @ job # ps'" "submit_push (pool s) job = Some (p, es, r)"
  shows "pool_drained (s\<lparr>pool := p, trace := t, pending := ps @ ps', refused := rs\<rparr>)"
proof -
  have q: "queue_ok (pool_queue (pool s))" using assms(1) by (simp add: pool_drained_def)
  show ?thesis using assms queue_ok_push[OF q, of job] queue_refused_push[of "pool_queue (pool s)" job]
    by (auto simp: pool_drained_def submit_push_def split: option.splits sum.splits)
qed

lemma accounts_worker:
  assumes "queue_ok (pool_queue (pool s))" "pool_accounts s" "i < length (workers (pool s))"
    "thread_pool_worker_main (pool_queue (pool s)) (workers (pool s) ! i) = Some (q, w, es)"
  shows "pool_accounts (s\<lparr>pool := (pool s)\<lparr>pool_queue := q, workers := (workers (pool s))[i := w]\<rparr>,
                    trace := t, completed := completed s @ finished (workers (pool s) ! i)\<rparr>)"
  using assms(1,4)
  by (cases rule: worker_cases) (use assms(2) mset_concat_update[OF assms(3), of held w] in \<open>auto simp: pool_accounts_def\<close>)

lemma trace_worker:
  assumes "queue_ok (pool_queue (pool s))" "pool_trace s" "i < length (workers (pool s))"
    "thread_pool_worker_main (pool_queue (pool s)) (workers (pool s) ! i) = Some (q, w, es)"
  shows "pool_trace (s\<lparr>pool := (pool s)\<lparr>pool_queue := q, workers := (workers (pool s))[i := w]\<rparr>,
                    trace := trace s @ es, completed := completed s @ finished (workers (pool s) ! i)\<rparr>)"
proof -
  note m = mset_concat_update[OF assms(3), of finished w]
  from assms(1,4) show ?thesis
  proof (cases rule: worker_cases)
    case (clean j)
    then have "mset (concat (map finished (workers (pool s)))) = add_mset j (mset (concat (map finished ((workers (pool s))[i := w]))))"
      using m by simp
    then show ?thesis using assms(2) clean by (simp add: pool_trace_def)
  qed (use assms(2) m in \<open>auto simp: pool_trace_def\<close>)
qed

lemma callbacks_worker:
  assumes "queue_ok (pool_queue (pool s))" "pool_callbacks s" "i < length (workers (pool s))"
    "thread_pool_worker_main (pool_queue (pool s)) (workers (pool s) ! i) = Some (q, w, es)"
  shows "pool_callbacks (s\<lparr>pool := (pool s)\<lparr>pool_queue := q, workers := (workers (pool s))[i := w]\<rparr>, trace := t, completed := c\<rparr>)"
proof -
  have w: "set (held (workers (pool s) ! i)) \<subseteq> set (concat (map held (workers (pool s))))" using assms(3) by fastforce
  have "set (held w) \<subseteq> set (held (workers (pool s) ! i)) \<union> set (queue_list (pool_queue (pool s)))"
    "set (queue_list q) \<subseteq> set (queue_list (pool_queue (pool s)))"
    by (cases rule: worker_cases[OF assms(1,4)]; auto)+
  then show ?thesis using assms(2) w set_concat_update[of held "workers (pool s)" i w]
    unfolding pool_callbacks_def by (simp del: set_concat) blast
qed

text \<open>What the calls that start and stop the pool leave as it was.\<close>

definition same_jobs :: "'d ThreadPool \<Rightarrow> 'd ThreadPool \<Rightarrow> bool" where
  "same_jobs p p' \<longleftrightarrow>
     queue_list (pool_queue p') = queue_list (pool_queue p) \<and>
     mset (concat (map held (workers p'))) = mset (concat (map held (workers p))) \<and>
     mset (concat (map finished (workers p'))) = mset (concat (map finished (workers p)))"

lemma quiet_holds_nothing: "quiet w \<Longrightarrow> held w = [] \<and> finished w = []"
  by (cases w) auto

lemma close_same_jobs: "queue_ok (pool_queue p) \<Longrightarrow> same_jobs p (p\<lparr>pool_queue := job_queue_close (pool_queue p)\<rparr>)"
  using queue_ok_close[of "pool_queue p"] by (simp add: same_jobs_def)

lemma stop_same_jobs: "queue_ok (pool_queue p) \<Longrightarrow> thread_pool_stop p r = (p', c) \<Longrightarrow> same_jobs p p'"
  using close_same_jobs[of p] by (auto simp: thread_pool_stop_def Let_def split: if_splits)

lemma start_loop_same_jobs:
  assumes "pool_shape s" "queue_ok (pool_queue (pool s))" "call s = Starting k" "thread_pool_start_loop created (pool s) k = (p, c)"
  shows "same_jobs (pool s) p"
proof -
  let ?ws = "workers (pool s)"
  show ?thesis
  proof (cases "k < worker_count (pool s) \<and> created")
    case True
    then have i: "nat k < length ?ws" "quiet (?ws ! nat k)"
      using assms(1,3) by (auto simp: pool_shape_def active_slots_def)
    have "mset (concat (map f (?ws[nat k := Fetching]))) = mset (concat (map f ?ws))"
      if "f Fetching = []" "f (?ws ! nat k) = []" for f :: "'a worker \<Rightarrow> 'a Job list"
      using mset_concat_update[OF i(1), of f Fetching] that by simp
    then show ?thesis using True assms(4) quiet_holds_nothing[OF i(2)]
      by (auto simp: thread_pool_start_loop_def same_jobs_def)
  next
    case False
    then show ?thesis using assms(2,4) stop_same_jobs[of "pool s\<lparr>worker_count := k\<rparr>" _ p c]
      by (auto simp: thread_pool_start_loop_def same_jobs_def split: if_splits)
  qed
qed

lemma call_keeps_jobs:
  assumes "same_jobs (pool s) p"
  shows "pool_accounts s \<Longrightarrow> pool_accounts (s\<lparr>pool := p, call := c\<rparr>)"
    and "pool_trace s \<Longrightarrow> pool_trace (s\<lparr>pool := p, call := c\<rparr>)"
    and "pool_callbacks s \<Longrightarrow> pool_callbacks (s\<lparr>pool := p, call := c\<rparr>)"
proof -
  have eq: "set (concat (map held (workers p))) = set (concat (map held (workers (pool s))))"
    using assms unfolding same_jobs_def by (metis set_mset_mset)
  show "pool_accounts s \<Longrightarrow> pool_accounts (s\<lparr>pool := p, call := c\<rparr>)"
    using assms by (simp add: pool_accounts_def same_jobs_def)
  show "pool_trace s \<Longrightarrow> pool_trace (s\<lparr>pool := p, call := c\<rparr>)"
    using assms by (simp add: pool_trace_def same_jobs_def)
  show "pool_callbacks s \<Longrightarrow> pool_callbacks (s\<lparr>pool := p, call := c\<rparr>)"
    using assms eq by (simp add: pool_callbacks_def same_jobs_def del: set_concat)
qed

lemma push_outcome:
  assumes "queue_ok (pool_queue p)" "submit_push p job = Some (p', es, r)"
  shows "worker_count p' = worker_count p \<and> started p' = started p \<and> workers p' = workers p \<and> closed (pool_queue p') = closed (pool_queue p) \<and>
    (case r of Inl _ \<Rightarrow> es = run_cleanup job \<and> queue_list (pool_queue p') = queue_list (pool_queue p)
     | Inr _ \<Rightarrow> es = [] \<and> queue_list (pool_queue p') = queue_list (pool_queue p) @ [job])"
  using assms(2) queue_ok_push[OF assms(1), of job] queue_refused_push[of "pool_queue p" job]
  by (auto simp: submit_push_def split: option.splits sum.splits)

definition pool_inv :: "'d pool_system \<Rightarrow> bool" where
  "pool_inv s \<longleftrightarrow> pool_shape s \<and> pool_drained s \<and> pool_accounts s \<and> pool_trace s \<and> pool_callbacks s"

lemma pool_invI: "pool_shape s \<Longrightarrow> pool_drained s \<Longrightarrow> pool_accounts s \<Longrightarrow> pool_trace s \<Longrightarrow> pool_callbacks s \<Longrightarrow> pool_inv s"
  by (simp add: pool_inv_def)

lemma inv_push:
  assumes "pool_inv s" "pending s = ps @ job # ps'" "submit_push (pool s) job = Some (p, es, r)"
  shows "pool_inv (s\<lparr>pool := p, trace := trace s @ es, pending := ps @ ps', refused := refused s @ (case r of Inl _ \<Rightarrow> [job] | Inr _ \<Rightarrow> [])\<rparr>)"
proof (rule pool_invI)
  have inv: "pool_shape s" "pool_drained s" "pool_accounts s" "pool_trace s" "pool_callbacks s"
    using assms(1) by (simp_all add: pool_inv_def)
  have q: "queue_ok (pool_queue (pool s))" using inv(2) by (simp add: pool_drained_def)
  note out = push_outcome[OF q assms(3)]
  let ?s = "s\<lparr>pool := p, trace := trace s @ es, pending := ps @ ps', refused := refused s @ (case r of Inl _ \<Rightarrow> [job] | Inr _ \<Rightarrow> [])\<rparr>"
  show "pool_shape ?s" using inv(1) out by (auto simp: pool_shape_def active_slots_def split: pool_call.splits)
  show "pool_drained ?s" by (rule drained_push[OF inv(2) assms(2,3)])
  show "pool_accounts ?s" using inv(3) out assms(2) by (cases r) (auto simp: pool_accounts_def)
  show "pool_trace ?s" using inv(4) out by (cases r) (auto simp: pool_trace_def)
  show "pool_callbacks ?s" using inv(5) out assms(2) by (cases r) (auto simp: pool_callbacks_def)
qed

lemma shape_same: "pool s' = pool s \<Longrightarrow> call s' = call s \<Longrightarrow> pool_shape s \<Longrightarrow> pool_shape s'"
  by (simp add: pool_shape_def active_slots_def cong: pool_call.case_cong)

lemma inv_step: "pool_step s s' \<Longrightarrow> pool_inv s \<Longrightarrow> pool_inv s'"
proof (induction rule: pool_step.induct)
  case (worker i s q w es)
  then have inv: "pool_shape s" "pool_drained s" "pool_accounts s" "pool_trace s" "pool_callbacks s" "queue_ok (pool_queue (pool s))"
    by (simp_all add: pool_inv_def pool_drained_def)
  show ?case
    by (rule pool_invI shape_worker[OF inv(1,6) worker(1,2)] drained_worker[OF inv(2) worker(1,2)]
        accounts_worker[OF inv(6,3) worker(1,2)] trace_worker[OF inv(6,4) worker(1,2)] callbacks_worker[OF inv(6,5) worker(1,2)])+
next
  case (start s r p c)
  then have "same_jobs (pool s) p" by (auto simp: thread_pool_start_def same_jobs_def split: if_splits)
  with start show ?case using call_keeps_jobs[of s p c] drained_calls(1)[of s] shape_calls(1)[of s]
    by (auto simp: pool_inv_def pool_drained_def[of s])
next
  case (start_loop s k created p c)
  then have "same_jobs (pool s) p" by (auto simp: pool_inv_def pool_drained_def intro: start_loop_same_jobs)
  with start_loop show ?case using call_keeps_jobs[of s p c] drained_calls(4)[of s] shape_calls(4)[of s]
    by (auto simp: pool_inv_def pool_drained_def[of s])
next
  case (stop s r p c)
  then have "same_jobs (pool s) p" by (auto simp: pool_inv_def pool_drained_def intro: stop_same_jobs)
  with stop show ?case using call_keeps_jobs[of s p c] drained_calls(2)[of s] shape_calls(2)[of s]
    by (auto simp: pool_inv_def pool_drained_def[of s])
next
  case (join s k r p c)
  then have "same_jobs (pool s) p" by (auto simp: thread_pool_join_def same_jobs_def split: if_splits)
  with join show ?case using call_keeps_jobs[of s p c] drained_calls(3)[of s] shape_calls(3)[of s]
    by (auto simp: pool_inv_def pool_drained_def[of s])
next
  case (submit_refused s job es e)
  then have "es = run_cleanup job" by (auto simp: submit_checks_def split: if_splits)
  with submit_refused shape_same[of "s\<lparr>trace := t, submitted := u, refused := v\<rparr>" s for t u v] show ?case
    by (auto simp: pool_inv_def pool_drained_def pool_accounts_def pool_trace_def pool_callbacks_def)
next
  case (submit_checked s job es u)
  then have es: "es = []" "job_execute job" by (auto simp: submit_checks_def split: if_splits)
  have inv: "pool_shape s" "pool_drained s" "pool_accounts s" "pool_trace s" "pool_callbacks s"
    using submit_checked(2) by (simp_all add: pool_inv_def)
  show ?case
    by (rule pool_invI, rule shape_same[OF _ _ inv(1)], simp, simp, rule drained_submit[OF inv(2) submit_checked(1)])
      (use inv es in \<open>simp_all add: pool_accounts_def pool_trace_def pool_callbacks_def\<close>)
next
  case (push s ps job ps' p es r)
  then show ?case by (blast intro: inv_push)
qed

lemma inv_initial: "thread_pool_create sys n k = Inr p \<Longrightarrow> pool_inv (pool_initial p)"
proof -
  assume c: "thread_pool_create sys n k = Inr p"
  then obtain q where q: "job_queue_create (for_queue sys) k = Inr q" "0 < n"
    "p = \<lparr>worker_count = n, started = False, pool_queue = q, workers = replicate (nat n) Absent\<rparr>"
    by (auto simp: thread_pool_create_def split: if_splits sum.splits)
  then show ?thesis using queue_ok_create[OF q(1)]
    by (auto simp: pool_initial_def pool_inv_def pool_shape_def active_slots_def pool_drained_def pool_accounts_def
        pool_trace_def pool_callbacks_def)
qed

lemma inv_reachable:
  assumes "thread_pool_create sys n k = Inr p" "pool_reachable p s"
  shows "pool_inv s"
  using assms(2)[unfolded pool_reachable_def] inv_initial[OF assms(1)] by (induction rule: rtranclp_induct) (auto intro: inv_step)

section \<open>Stopping ends\<close>

fun worker_work :: "'d worker \<Rightarrow> nat" where
  "worker_work Absent = 0"
| "worker_work Exited = 0"
| "worker_work Fetching = 1"
| "worker_work (Cleaning j) = 2"
| "worker_work (Holding j) = 3"

definition pool_work :: "'d ThreadPool \<Rightarrow> nat" where
  "pool_work p = 3 * length (queue_list (pool_queue p)) + sum_list (map worker_work (workers p))"

lemma sum_list_map_update:
  "i < length xs \<Longrightarrow> sum_list (map f (xs[i := x])) + f (xs ! i) = sum_list (map f xs) + (f x :: nat)"
proof (induction xs arbitrary: i)
  case (Cons y ys)
  then show ?case by (cases i) (auto simp: ac_simps)
qed simp

lemma worker_step_decreases:
  assumes "queue_ok (pool_queue p)" "i < length (workers p)" "thread_pool_worker_main (pool_queue p) (workers p ! i) = Some (q, w, es)"
  shows "pool_work (p\<lparr>pool_queue := q, workers := (workers p)[i := w]\<rparr>) < pool_work p"
  using assms(1,3) by (cases rule: worker_cases) (use sum_list_map_update[OF assms(2), of worker_work w] in \<open>auto simp: pool_work_def\<close>)

lemma worker_enabled:
  assumes "queue_ok q" "closed q" "\<not> quiet w"
  shows "\<exists>q' w' es. thread_pool_worker_main q w = Some (q', w', es)"
  using assms(2,3) queue_ok_pop[OF assms(1)] by (cases w) (auto split: option.splits)

text \<open>The workers alone bring a closed pool to the point where every thread has ended.\<close>

lemma workers_run_out:
  assumes "pool_inv s" "closed (pool_queue (pool s))"
  shows "\<exists>s'. pool_step\<^sup>*\<^sup>* s s' \<and> list_all quiet (workers (pool s')) \<and> call s' = call s \<and> pool_inv s'"
  using assms
proof (induction "pool_work (pool s)" arbitrary: s rule: less_induct)
  case less
  have q: "queue_ok (pool_queue (pool s))" using less(2) by (simp add: pool_inv_def pool_drained_def)
  show ?case
  proof (cases "list_all quiet (workers (pool s))")
    case False
    then obtain i where i: "i < length (workers (pool s))" "\<not> quiet (workers (pool s) ! i)" by (auto simp: list_all_length)
    obtain q' w es where w: "thread_pool_worker_main (pool_queue (pool s)) (workers (pool s) ! i) = Some (q', w, es)"
      using worker_enabled[OF q less(3) i(2)] by blast
    let ?s = "s\<lparr>pool := (pool s)\<lparr>pool_queue := q', workers := (workers (pool s))[i := w]\<rparr>,
                trace := trace s @ es, completed := completed s @ finished (workers (pool s) ! i)\<rparr>"
    have st: "pool_step s ?s" by (rule pool_step.worker[OF i(1) w])
    have c: "closed (pool_queue (pool ?s))" using less(3) by (cases rule: worker_cases[OF q w]) simp_all
    have lt: "pool_work (pool ?s) < pool_work (pool s)" using worker_step_decreases[OF q i(1) w] by simp
    show ?thesis using less(1)[OF lt inv_step[OF st less(2)] c] st converse_rtranclp_into_rtranclp[of pool_step, OF st] by auto
  qed (use less(2) in blast)
qed

lemma joins_return:
  assumes "pool_inv s" "call s = Joining k r" "list_all quiet (workers (pool s))"
  shows "\<exists>s'. pool_step\<^sup>*\<^sup>* s s' \<and> call s' = Idle r \<and> \<not> started (pool s')"
  using assms
proof (induction "nat (worker_count (pool s) - k)" arbitrary: s k rule: less_induct)
  case less
  have sh: "0 \<le> k" "worker_count (pool s) \<le> int (length (workers (pool s)))" "\<And>i. int i < worker_count (pool s) \<Longrightarrow> workers (pool s) ! i \<noteq> Absent"
    using less(2,3) by (auto simp: pool_inv_def pool_shape_def active_slots_def)
  show ?case
  proof (cases "k < worker_count (pool s)")
    case True
    then have i: "nat k < length (workers (pool s))" "workers (pool s) ! nat k \<noteq> Absent" using sh by auto
    then have "workers (pool s) ! nat k = Exited" using less(4) by (cases "workers (pool s) ! nat k") (auto simp: list_all_length)
    then have st: "pool_step s (s\<lparr>pool := pool s, call := Joining (k + 1) r\<rparr>)" using True
      by (intro pool_step.join[OF less(3)]) (simp add: thread_pool_join_def)
    show ?thesis
      using less(1)[of "s\<lparr>pool := pool s, call := Joining (k + 1) r\<rparr>" "k + 1"] inv_step[OF st less(2)] less(4) True
        converse_rtranclp_into_rtranclp[of pool_step, OF st] by auto
  next
    case False
    then have "pool_step s (s\<lparr>pool := (pool s)\<lparr>started := False\<rparr>, call := Idle r\<rparr>)"
      by (intro pool_step.join[OF less(3)]) (simp add: thread_pool_join_def)
    then show ?thesis by (intro exI[of _ "s\<lparr>pool := (pool s)\<lparr>started := False\<rparr>, call := Idle r\<rparr>"]) auto
  qed
qed

section \<open>Submitting\<close>

text \<open>
  A submit either waits (a running pool whose queue is open and full), or queues the job, or refuses
  it; in the last case it has run the cleanup callback of the job, once, and the pool is as it was.
\<close>

lemma thread_pool_submit_outcome:
  assumes "queue_ok (pool_queue p)"
  shows "case thread_pool_submit (Some p) job of
      None \<Rightarrow> started p \<and> job_execute job \<and> \<not> closed (pool_queue p) \<and> queue_count (pool_queue p) = capacity (pool_queue p)
    | Some (p', es, Inl e) \<Rightarrow> p' = Some p \<and> es = run_cleanup job \<and> (\<not> started p \<or> \<not> job_execute job \<or> closed (pool_queue p))
    | Some (p', es, Inr _) \<Rightarrow> started p \<and> job_execute job \<and> \<not> closed (pool_queue p) \<and> es = [] \<and>
        (\<exists>q. p' = Some (p\<lparr>pool_queue := q\<rparr>) \<and> queue_ok q \<and> queue_list q = queue_list (pool_queue p) @ [job])"
proof (cases "job_queue_push (pool_queue p) job")
  case None
  then show ?thesis
    by (auto simp: thread_pool_submit_def submit_checks_def submit_push_def job_queue_push_def split: if_splits)
next
  case (Some a)
  obtain q r where a: "a = (q, r)" by (cases a)
  show ?thesis
  proof (cases r)
    case (Inl e)
    then have "q = pool_queue p" "\<not> job_execute job \<or> closed (pool_queue p)"
      using Some a by (auto simp: job_queue_push_def split: if_splits)
    then show ?thesis using Some a Inl by (auto simp: thread_pool_submit_def submit_checks_def submit_push_def)
  next
    case (Inr u)
    then have "queue_ok q \<and> queue_list q = queue_list (pool_queue p) @ [job] \<and> \<not> closed (pool_queue p) \<and> job_execute job"
      using queue_ok_push[OF assms, of job q u] Some a by blast
    then show ?thesis using Some a Inr by (auto simp: thread_pool_submit_def submit_checks_def submit_push_def)
  qed
qed

lemma stopped_cleaned:
  fixes s :: "'a pool_system"
  assumes "pool_inv s" "\<not> started (pool s)" "pending s = []"
  shows "(worker_count (pool s) \<noteq> 0 \<longrightarrow> mset (submitted s) = mset (refused s) + mset (completed s) \<and> thread_pool_destroy (pool s) = []) \<and>
    {#e \<in># mset (trace s @ thread_pool_destroy (pool s)). \<exists>d. e = Cleaned d#} = mset (concat (map run_cleanup (submitted s)))"
proof -
  note inv = assms(1)[unfolded pool_inv_def]
  let ?q = "pool_queue (pool s)"
  have q: "queue_ok ?q" using inv by (simp add: pool_drained_def)
  have "active_slots s = 0" using inv assms(2) by (auto simp: pool_shape_def active_slots_def split: pool_call.splits)
  then have "list_all quiet (workers (pool s))" using inv by (auto simp: pool_shape_def list_all_length)
  then have h: "concat (map held (workers (pool s))) = []" "concat (map finished (workers (pool s))) = []"
    using quiet_holds_nothing by (auto simp: list_all_iff)
  have d: "thread_pool_destroy (pool s) = concat (map run_cleanup (queue_list ?q))"
    using queue_rep_destroy[OF q[unfolded queue_ok_def]] by (simp add: thread_pool_destroy_def)
  have sub: "mset (submitted s) = mset (refused s) + mset (queue_list ?q) + mset (completed s)"
    using inv assms(3) h by (simp add: pool_accounts_def)
  have clean: "mset (concat (map run_cleanup js)) = (\<Sum>j\<in>#mset js. mset (run_cleanup j))" for js :: "'a Job list"
    by (induction js) auto
  have "{#e \<in># mset (concat (map run_cleanup js)). \<exists>d. e = Cleaned d#} = mset (concat (map run_cleanup js))" for js :: "'a Job list"
    by (induction js) (auto simp: run_cleanup_def)
  moreover have "{#e \<in># mset (map (Executed \<circ> job_data) js). \<exists>d. e = Cleaned d#} = {#}" for js :: "'a Job list"
    by (induction js) auto
  moreover have "mset (trace s) = mset (map (Executed \<circ> job_data) (completed s)) + mset (concat (map run_cleanup (completed s @ refused s)))"
    using inv h(2) by (simp add: pool_trace_def)
  ultimately have "{#e \<in># mset (trace s @ thread_pool_destroy (pool s)). \<exists>d. e = Cleaned d#} =
      mset (concat (map run_cleanup (completed s @ refused s))) + mset (concat (map run_cleanup (queue_list ?q)))"
    unfolding d by simp
  also have "\<dots> = mset (concat (map run_cleanup (submitted s)))" unfolding clean by (simp add: sub)
  finally show ?thesis using sub inv assms(2) d by (auto simp: pool_drained_def)
qed

section \<open>Properties of the pool\<close>

text \<open>
  C8. No job is lost, run twice or run without its callback. In every reachable state the jobs that
  were ever submitted are the refused ones, those of submitters that wait for room, the queued ones,
  those the workers hold and the completed ones, each exactly once; the callbacks that ran are one
  \<open>execute\<close> for every completed job and every job being cleaned up, and one \<open>cleanup\<close> for every completed
  and every refused job.
\<close>

theorem pool_runs_each_job_once:
  assumes "thread_pool_create sys n k = Inr p" "pool_reachable p s"
  shows "mset (submitted s) = mset (refused s) + mset (pending s) + mset (queue_list (pool_queue (pool s))) +
      mset (concat (map held (workers (pool s)))) + mset (completed s) \<and>
    mset (trace s) = mset (map (Executed \<circ> job_data) (completed s @ concat (map finished (workers (pool s))))) +
      mset (concat (map run_cleanup (completed s @ refused s))) \<and>
    (\<forall>j\<in>set (concat (map held (workers (pool s)))). job_execute j)"
  using inv_reachable[OF assms] unfolding pool_inv_def pool_accounts_def pool_trace_def pool_callbacks_def by blast

definition pool_grants :: pool_resources where
  "pool_grants = \<lparr>pool_granted = True, workers_granted = True, for_queue = all_resources\<rparr>"

lemma sample_pool: "\<exists>p :: nat ThreadPool. thread_pool_create pool_grants 2 3 = Inr p \<and> \<not> started p"
proof -
  obtain q :: "nat JobQueue" where "job_queue_create all_resources 3 = Inr q" using sample_queue[of 3] by auto
  then show ?thesis by (auto simp: thread_pool_create_def pool_grants_def)
qed

theorem pool_runs_each_job_once_witness:
  "\<exists>(p :: nat ThreadPool) s. thread_pool_create pool_grants 2 3 = Inr p \<and> pool_reachable p s \<and>
     submitted s = [sample_job 7] \<and> mset (refused s) + mset (completed s) \<subseteq># {#sample_job 7#} \<and> Executed (Some 7) \<notin> set (trace s)"
proof -
  obtain p :: "nat ThreadPool" where p: "thread_pool_create pool_grants 2 3 = Inr p" "\<not> started p" using sample_pool by blast
  let ?s = "(pool_initial p)\<lparr>trace := [] @ run_cleanup (sample_job 7), submitted := [] @ [sample_job 7], refused := [] @ [sample_job 7]\<rparr>"
  have "pool_step (pool_initial p) ?s"
    using p(2) pool_step.submit_refused[of "pool_initial p" "sample_job 7"] by (simp add: submit_checks_def pool_initial_def)
  then have r: "pool_reachable p ?s" by (simp add: pool_reachable_def)
  show ?thesis
    using pool_runs_each_job_once[OF p(1) r] p(1) r by (intro exI[of _ p] exI[of _ ?s]) (simp add: pool_initial_def run_cleanup_def sample_job_def)
qed

text \<open>
  C32. A stopped pool has finished its work: once the pool is not running and no submitter waits, no
  worker holds a job, and if it had workers at all then every accepted job was completed. Destroying the
  pool then cleans up what a pool without workers left behind, so that in the end every submitted job
  with a cleanup callback was cleaned up exactly once.
\<close>

theorem stopped_pool_cleaned_everything:
  assumes "thread_pool_create sys n k = Inr p" "pool_reachable p s" "\<not> started (pool s)" "pending s = []"
  shows "(worker_count (pool s) \<noteq> 0 \<longrightarrow> mset (submitted s) = mset (refused s) + mset (completed s) \<and> thread_pool_destroy (pool s) = []) \<and>
    {#e \<in># mset (trace s @ thread_pool_destroy (pool s)). \<exists>d. e = Cleaned d#} = mset (concat (map run_cleanup (submitted s)))"
  using stopped_cleaned[OF inv_reachable[OF assms(1,2)] assms(3,4)] .

theorem stopped_pool_cleaned_everything_witness:
  "\<exists>(p :: nat ThreadPool) s. thread_pool_create pool_grants 2 3 = Inr p \<and> pool_reachable p s \<and> submitted s = [sample_job 7] \<and>
     {#e \<in># mset (trace s @ thread_pool_destroy (pool s)). \<exists>d. e = Cleaned d#} = {#Cleaned (Some 7)#}"
proof -
  obtain p :: "nat ThreadPool" where p: "thread_pool_create pool_grants 2 3 = Inr p" "\<not> started p" using sample_pool by blast
  let ?s = "(pool_initial p)\<lparr>trace := [] @ run_cleanup (sample_job 7), submitted := [] @ [sample_job 7], refused := [] @ [sample_job 7]\<rparr>"
  have "pool_step (pool_initial p) ?s"
    using p(2) pool_step.submit_refused[of "pool_initial p" "sample_job 7"] by (simp add: submit_checks_def pool_initial_def)
  then have r: "pool_reachable p ?s" by (simp add: pool_reachable_def)
  show ?thesis using stopped_pool_cleaned_everything[OF p(1) r] p r
    by (intro exI[of _ p] exI[of _ ?s]) (simp add: pool_initial_def run_cleanup_def sample_job_def)
qed

text \<open>
  C33. Stopping a pool ends: once the queue is closed, every worker that has not ended can take a step,
  every such step brings the pool closer to the end (in the number \<open>pool_work\<close>), and from every reachable
  state in which the stopping thread joins the workers the call can run to its return.
\<close>

theorem pool_stop_terminates:
  assumes "thread_pool_create sys n k = Inr p" "pool_reachable p s" "call s = Joining index r"
  shows "(\<forall>i<length (workers (pool s)). quiet (workers (pool s) ! i) \<or>
      (\<exists>q w es. thread_pool_worker_main (pool_queue (pool s)) (workers (pool s) ! i) = Some (q, w, es) \<and>
        pool_work ((pool s)\<lparr>pool_queue := q, workers := (workers (pool s))[i := w]\<rparr>) < pool_work (pool s))) \<and>
    (\<exists>s'. pool_step\<^sup>*\<^sup>* s s' \<and> call s' = Idle r \<and> \<not> started (pool s'))"
proof -
  note inv = inv_reachable[OF assms(1,2)]
  have q: "queue_ok (pool_queue (pool s))" "closed (pool_queue (pool s))"
    using inv assms(3) by (auto simp: pool_inv_def pool_drained_def pool_shape_def)
  obtain s1 where s1: "pool_step\<^sup>*\<^sup>* s s1" "list_all quiet (workers (pool s1))" "call s1 = Joining index r" "pool_inv s1"
    using workers_run_out[OF inv q(2)] assms(3) by auto
  obtain s2 where "pool_step\<^sup>*\<^sup>* s1 s2" "call s2 = Idle r" "\<not> started (pool s2)" using joins_return[OF s1(4,3,2)] by blast
  then show ?thesis using worker_enabled[OF q] worker_step_decreases[OF q(1)] rtranclp_trans[OF s1(1)] by blast
qed

lemma sample_stopping:
  fixes p :: "nat ThreadPool"
  assumes "thread_pool_create pool_grants 2 3 = Inr p"
  shows "\<exists>s. pool_reachable p s \<and> call s = Joining 0 (Inr ()) \<and> workers (pool s) = [Fetching, Fetching]"
proof -
  have p: "\<not> started p" "worker_count p = 2" "workers p = [Absent, Absent]"
    using assms by (auto simp: thread_pool_create_def pool_grants_def numeral_2_eq_2 split: sum.splits)
  let ?p = "\<lambda>ws. p\<lparr>started := True, workers := ws\<rparr>"
  let ?s = "\<lambda>q c. (pool_initial p)\<lparr>pool := q, call := c\<rparr>"
  have "pool_step (pool_initial p) (?s (p\<lparr>started := True\<rparr>) (Starting 0))"
    using p(1) by (intro pool_step.start[of _ "Inr ()"]) (simp_all add: pool_initial_def thread_pool_start_def)
  moreover have "pool_step (?s (p\<lparr>started := True\<rparr>) (Starting 0)) (?s (?p [Fetching, Absent]) (Starting 1))"
    using p pool_step.start_loop[of "?s (p\<lparr>started := True\<rparr>) (Starting 0)" 0 True]
    by (simp add: thread_pool_start_loop_def pool_initial_def)
  moreover have "pool_step (?s (?p [Fetching, Absent]) (Starting 1)) (?s (?p [Fetching, Fetching]) (Starting 2))"
    using p pool_step.start_loop[of "?s (?p [Fetching, Absent]) (Starting 1)" 1 True]
    by (simp add: thread_pool_start_loop_def pool_initial_def)
  moreover have "pool_step (?s (?p [Fetching, Fetching]) (Starting 2)) (?s (?p [Fetching, Fetching]) (Idle (Inr ())))"
    using p pool_step.start_loop[of "?s (?p [Fetching, Fetching]) (Starting 2)" 2 True]
    by (simp add: thread_pool_start_loop_def pool_initial_def)
  moreover have "pool_step (?s (?p [Fetching, Fetching]) (Idle (Inr ())))
      (?s ((?p [Fetching, Fetching])\<lparr>pool_queue := job_queue_close (pool_queue p)\<rparr>) (Joining 0 (Inr ())))"
    using pool_step.stop[of "?s (?p [Fetching, Fetching]) (Idle (Inr ()))" "Inr ()"]
    by (simp add: thread_pool_stop_def pool_initial_def)
  ultimately have "pool_reachable p (?s ((?p [Fetching, Fetching])\<lparr>pool_queue := job_queue_close (pool_queue p)\<rparr>) (Joining 0 (Inr ())))"
    unfolding pool_reachable_def by (meson converse_rtranclp_into_rtranclp r_into_rtranclp)
  then show ?thesis by (intro exI conjI, assumption) simp_all
qed

theorem pool_stop_terminates_witness:
  "\<exists>(p :: nat ThreadPool) s s'. thread_pool_create pool_grants 2 3 = Inr p \<and> pool_reachable p s \<and> workers (pool s) = [Fetching, Fetching] \<and>
     pool_step\<^sup>*\<^sup>* s s' \<and> call s' = Idle (Inr ()) \<and> \<not> started (pool s')"
proof -
  obtain p :: "nat ThreadPool" where p: "thread_pool_create pool_grants 2 3 = Inr p" using sample_pool by blast
  obtain s where s: "pool_reachable p s" "call s = Joining 0 (Inr ())" "workers (pool s) = [Fetching, Fetching]"
    using sample_stopping[OF p] by blast
  then show ?thesis using pool_stop_terminates[OF p s(1,2)] p by blast
qed

end
