(* ===== verification/Server_Job.thy ===== *)
theory Server_Job
  imports Thread_Pool
begin

text \<open>
  \<^verbatim>\<open>src/server/pool/server_job_stub.c\<close> and \<^verbatim>\<open>include/server_job.h\<close>: the data of a job that answers a
  client, and what becomes of it.

  All jobs of a server point to its one request handler, so of that pointer a job only keeps whether it
  is set. The calls of \<open>close\<close> and \<open>free\<close> are a list of events.
\<close>

record ServerJobData =
  client_fd :: int
  raw_request :: "string option"
  raw_request_length :: nat
  has_handler :: bool

datatype resource_event = Closed int | Freed_Request | Freed_Job

definition server_job_data_init ::
  "ServerJobData option \<Rightarrow> int \<Rightarrow> string option \<Rightarrow> nat \<Rightarrow> bool \<Rightarrow> ServerJobData option" where
  "server_job_data_init data fd request len handler =
     (case data of
        None \<Rightarrow> None
      | Some d \<Rightarrow> Some (d\<lparr>client_fd := fd, raw_request := request, raw_request_length := len, has_handler := handler\<rparr>))"

definition server_job_data_validate :: "ServerJobData option \<Rightarrow> unit result" where
  "server_job_data_validate data =
     (case data of
        None \<Rightarrow> fail ''server_job_data must not be null''
      | Some d \<Rightarrow>
          if client_fd d < 0 then fail ''server_job_data client_fd must be valid''
          else if raw_request d = None \<or> raw_request_length d = 0 then fail ''server_job_data raw_request must not be empty''
          else if \<not> has_handler d then fail ''server_job_data request_handler must not be null''
          else Inr ())"

definition server_job_build :: "bool \<Rightarrow> bool \<Rightarrow> 'd option \<Rightarrow> 'd Job" where
  "server_job_build execute cleanup data = zeroed_job\<lparr>job_execute := execute, job_cleanup := cleanup, job_data := data\<rparr>"

definition server_job_data_destroy :: "ServerJobData option \<Rightarrow> ServerJobData option \<times> resource_event list" where
  "server_job_data_destroy data =
     (case data of
        None \<Rightarrow> (None, [])
      | Some d \<Rightarrow>
          (Some (d\<lparr>raw_request := None, raw_request_length := 0, has_handler := False, client_fd := -1\<rparr>),
           (if client_fd d \<ge> 0 then [Closed (client_fd d)] else []) @ [Freed_Request]))"

definition server_job_cleanup :: "ServerJobData option \<Rightarrow> resource_event list" where
  "server_job_cleanup data = snd (server_job_data_destroy data) @ (if data = None then [] else [Freed_Job])"

section \<open>Closing the connections\<close>

text \<open>The connections a list of events closes.\<close>

fun closes :: "resource_event list \<Rightarrow> int list" where
  "closes [] = []"
| "closes (Closed fd # es) = fd # closes es"
| "closes (_ # es) = closes es"

text \<open>The connections the cleanup callbacks of a trace close.\<close>

fun cleanup_closes :: "ServerJobData job_event list \<Rightarrow> int list" where
  "cleanup_closes [] = []"
| "cleanup_closes (Cleaned data # es) = closes (server_job_cleanup data) @ cleanup_closes es"
| "cleanup_closes (Executed data # es) = cleanup_closes es"

lemma closes_append [simp]: "closes (es @ es') = closes es @ closes es'"
  by (induction es rule: closes.induct) auto

lemma cleanup_closes_append [simp]: "cleanup_closes (es @ es') = cleanup_closes es @ cleanup_closes es'"
  by (induction es rule: cleanup_closes.induct) auto

text \<open>The list depends on the trace as a multiset only.\<close>

lemma cleanup_closes_mset: "mset (cleanup_closes es) = (\<Sum>e\<in>#mset es. mset (cleanup_closes [e]))"
proof (induction es)
  case (Cons e es)
  then show ?case using cleanup_closes_append[of "[e]" es] by simp
qed simp

lemma cleanup_closes_cong: "mset es = mset es' \<Longrightarrow> mset (cleanup_closes es) = mset (cleanup_closes es')"
  using cleanup_closes_mset[of es] cleanup_closes_mset[of es'] by simp

text \<open>A job as the server builds it.\<close>

definition server_job :: "ServerJobData Job \<Rightarrow> bool" where
  "server_job j \<longleftrightarrow> job_execute j \<and> job_cleanup j \<and> server_job_data_validate (job_data j) = Inr ()"

definition job_fd :: "ServerJobData Job \<Rightarrow> int" where
  "job_fd j = client_fd (the (job_data j))"

lemma server_job_cleans: "server_job j \<Longrightarrow> cleanup_closes (run_cleanup j) = [job_fd j]"
  by (auto simp: server_job_def run_cleanup_def server_job_cleanup_def server_job_data_destroy_def server_job_data_validate_def job_fd_def
      split: option.splits if_splits)

lemma server_jobs_clean: "list_all server_job js \<Longrightarrow> cleanup_closes (concat (map run_cleanup js)) = map job_fd js"
  by (induction js) (simp_all add: server_job_cleans)

lemma executed_closes_nothing: "cleanup_closes (map (Executed \<circ> f) js) = []"
  by (induction js) simp_all

end
