(* ===== verification/Socket_Server.thy ===== *)
theory Socket_Server
  imports Server_Config Request_Handler Socket_Io Server_Job
begin

text \<open>
  The rest of \<^verbatim>\<open>src/server/api/socket_server.c\<close> and \<^verbatim>\<open>include/server.h\<close>: opening the listening socket,
  reading a client's request, handing it to the pool, and the job that answers it.

  What the kernel answers to the socket calls is a parameter. A function that ends in a call of
  \<open>thread_pool_submit\<close> returns the job it submits: the steps of that call interleave with the other
  threads.
\<close>

section \<open>Socket options\<close>

definition server_set_errno_error :: "string \<Rightarrow> string \<Rightarrow> SqlError" where
  "server_set_errno_error context_text errno_text = sql_set_error 0 0 (context_text @ '': '' @ errno_text)"

text \<open>The result of a system call that may fail: the text of its \<open>errno\<close>, or nothing.\<close>

type_synonym syscall = "string option"

definition server_socket_set_reuseaddr :: "syscall \<Rightarrow> unit result" where
  "server_socket_set_reuseaddr setsockopt =
     (case setsockopt of Some errno \<Rightarrow> Inl (server_set_errno_error ''failed to set SO_REUSEADDR'' errno) | None \<Rightarrow> Inr ())"

text \<open>The seconds and microseconds passed to the kernel, and the result.\<close>

definition server_socket_set_timeout :: "syscall \<Rightarrow> syscall \<Rightarrow> int \<Rightarrow> (int \<times> int) list \<times> unit result" where
  "server_socket_set_timeout set_receive set_send timeout_ms =
     (if timeout_ms \<le> 0 then ([], Inr ())
      else let timeout = (timeout_ms div 1000, timeout_ms mod 1000 * 1000) in
        case set_receive of
          Some errno \<Rightarrow> ([timeout], Inl (server_set_errno_error ''failed to set receive timeout'' errno))
        | None \<Rightarrow>
            (case set_send of
               Some errno \<Rightarrow> ([timeout, timeout], Inl (server_set_errno_error ''failed to set send timeout'' errno))
             | None \<Rightarrow> ([timeout, timeout], Inr ())))"

text \<open>The outer \<open>None\<close>: the platform has no \<open>SO_NOSIGPIPE\<close>.\<close>

definition server_socket_disable_sigpipe :: "syscall option \<Rightarrow> bool" where
  "server_socket_disable_sigpipe set_nosigpipe = (case set_nosigpipe of None \<Rightarrow> True | Some res \<Rightarrow> res = None)"

section \<open>The job\<close>

definition plain_answer :: "send_result list \<Rightarrow> string \<Rightarrow> string \<Rightarrow> string \<Rightarrow> (send_result list \<times> string \<times> bool) option" where
  "plain_answer out status msg default_msg = server_socket_send_plain_response out status (if msg \<noteq> [] then msg else default_msg @ [NEWLINE])"

text \<open>
  The handler and the files afterwards, the rest of the script of the socket, the bytes sent, the message
  of the error object, and the result.
\<close>

type_synonym job_outcome = "RequestHandler option \<times> filesystem \<times> send_result list \<times> string \<times> string \<times> bool"

definition server_socket_process_request ::
  "request_world \<Rightarrow> filesystem \<Rightarrow> RequestHandler option \<Rightarrow> send_result list \<Rightarrow> ServerJobData option \<Rightarrow> job_outcome option" where
  "server_socket_process_request world fs handler out data =
     (if data = None \<or> \<not> has_handler (the data) then Some (handler, fs, out, [], ''server request job is not initialized'', False)
      else (case http_parse_request (body_granted world) (map_option cstr (raw_request (the data))) of
              Inl e \<Rightarrow> do {
                (out, sent, ok) \<leftarrow> plain_answer out ''400 Bad Request'' (message e) ''failed to parse HTTP request'';
                Some (handler, fs, out, sent, message e, ok) }
            | Inr request \<Rightarrow> do {
                (handler, fs, locks, handled) \<leftarrow> request_handler_handle world fs handler (Some request);
                (case handled of
                   Inl e \<Rightarrow> do {
                     (out, sent, ok) \<leftarrow> plain_answer out ''500 Internal Server Error'' (message e) ''failed to handle HTTP request'';
                     Some (handler, fs, out, sent, message e, ok) }
                 | Inr response \<Rightarrow> do {
                     serialized \<leftarrow> http_serialize_response (response_granted world) (Some response);
                     (case serialized of
                        Inl e \<Rightarrow> do {
                          (out, sent, ok) \<leftarrow> plain_answer out ''500 Internal Server Error'' (message e) ''failed to serialize HTTP response'';
                          Some (handler, fs, out, sent, message e, ok) }
                      | Inr bytes \<Rightarrow> do {
                          (out, sent, ok) \<leftarrow> server_socket_write_all out (cstr bytes);
                          Some (handler, fs, out, sent, [], ok) }) }) }))"

definition server_socket_execute_request_job ::
  "request_world \<Rightarrow> filesystem \<Rightarrow> RequestHandler option \<Rightarrow> send_result list \<Rightarrow> ServerJobData option \<Rightarrow>
     (RequestHandler option \<times> filesystem \<times> send_result list \<times> string) option" where
  "server_socket_execute_request_job world fs handler out data =
     (if data = None then Some (handler, fs, out, [])
      else do {
        (handler, fs, out, sent, msg, ok) \<leftarrow> server_socket_process_request world fs handler out data;
        (if ok then Some (handler, fs, out, sent)
         else do {
           (out, sent', _) \<leftarrow> plain_answer out ''500 Internal Server Error'' msg ''request processing failed'';
           Some (handler, fs, out, sent @ sent') }) })"

section \<open>The accepting thread\<close>

text \<open>The pointers \<open>sql_service\<close> and \<open>db_guard\<close> of the server are those its request handler holds.\<close>

record DbServer =
  listen_fd :: int
  is_running :: bool
  server_config :: ServerConfig
  thread_pool :: "ServerJobData ThreadPool option"
  request_handler :: "RequestHandler option"

text \<open>A client: what the calls on its socket return, and whether memory is granted for it.\<close>

record client_io =
  set_nosigpipe :: "syscall option"
  set_receive_timeout :: syscall
  set_send_timeout :: syscall
  initial_granted :: bool
  buffer_grants :: "nat \<Rightarrow> bool"
  incoming :: "recv_result list"
  outgoing :: "send_result list"
  job_granted :: bool

definition server_socket_create_job_data ::
  "bool \<Rightarrow> int \<Rightarrow> string \<Rightarrow> bool \<Rightarrow> resource_event list \<times> ServerJobData result" where
  "server_socket_create_job_data calloc_granted fd request handler =
     (if \<not> calloc_granted then ([Freed_Request, Closed fd], fail ''failed to allocate server job payload'')
      else let data = server_job_data_init (Some \<lparr>client_fd = 0, raw_request = None, raw_request_length = 0, has_handler = False\<rparr>)
                        fd (Some request) (length request) handler in
        case server_job_data_validate data of
          Inl e \<Rightarrow> (server_job_cleanup data, Inl e)
        | Inr _ \<Rightarrow> ([], Inr (the data)))"

text \<open>How a function ends: it returns, or it calls \<open>thread_pool_submit\<close> with the job and returns its result.\<close>

datatype call_end = Returns "unit result" | Submits "ServerJobData Job"

definition server_socket_dispatch_request :: "bool \<Rightarrow> DbServer option \<Rightarrow> int \<Rightarrow> string \<Rightarrow> resource_event list \<times> call_end" where
  "server_socket_dispatch_request calloc_granted server fd request =
     (if server = None \<or> thread_pool (the server) = None \<or> request_handler (the server) = None
      then ([], Returns (fail ''server thread pool is not ready''))
      else (case server_socket_create_job_data calloc_granted fd request (request_handler (the server) \<noteq> None) of
              (es, Inl e) \<Rightarrow> (es, Returns (Inl e))
            | (es, Inr data) \<Rightarrow> (es, Submits (server_job_build True True (Some data)))))"

text \<open>The bytes sent to the client, what was closed and freed, and how the call ends.\<close>

definition refuse_client :: "client_io \<Rightarrow> int \<Rightarrow> string \<Rightarrow> string \<Rightarrow> (string \<times> resource_event list \<times> call_end) option" where
  "refuse_client client fd status body = do {
     (_, sent, _) \<leftarrow> server_socket_send_plain_response (outgoing client) status body;
     Some (sent, [Freed_Request, Closed fd], Returns (Inr ())) }"

definition server_socket_handle_client ::
  "DbServer \<Rightarrow> int \<Rightarrow> client_io \<Rightarrow> (string \<times> resource_event list \<times> call_end) option" where
  "server_socket_handle_client server fd client =
     (if \<not> server_socket_disable_sigpipe (set_nosigpipe client) then Some ([], [Closed fd], Returns (Inr ()))
      else if snd (server_socket_set_timeout (set_receive_timeout client) (set_send_timeout client)
                     (client_read_timeout_ms (server_config server))) \<noteq> Inr ()
      then Some ([], [Closed fd], Returns (Inr ()))
      else do {
        (_, status) \<leftarrow> server_socket_read_request (initial_granted client) (buffer_grants client) (incoming client);
        (case status of
           SERVER_REQUEST_READ_OK request \<Rightarrow>
             (case server_socket_dispatch_request (job_granted client) (Some server) fd request of (es, e) \<Rightarrow> Some ([], es, e))
         | SERVER_REQUEST_READ_TOO_LARGE _ \<Rightarrow>
             refuse_client client fd ''413 Payload Too Large'' (''request exceeded the temporary API skeleton limit'' @ [NEWLINE])
         | SERVER_REQUEST_READ_EMPTY \<Rightarrow> refuse_client client fd ''400 Bad Request'' (''empty request received'' @ [NEWLINE])
         | SERVER_REQUEST_READ_ERROR e \<Rightarrow>
             refuse_client client fd ''400 Bad Request'' (if message e \<noteq> [] then message e else ''failed to read request'' @ [NEWLINE])) })"

section \<open>The listening socket\<close>

text \<open>\<open>inet_pton\<close> for \<open>AF_INET\<close>: four decimal numbers up to 255 without leading zeros, with dots between them.\<close>

definition ipv4_number :: "string \<Rightarrow> bool" where
  "ipv4_number s \<longleftrightarrow> s \<noteq> [] \<and> list_all isdigit s \<and> digits_value 0 s \<le> 255 \<and> (hd s = CHR ''0'' \<longrightarrow> s = ''0'')"

fun dotted_parts :: "string \<Rightarrow> string \<Rightarrow> string list" where
  "dotted_parts part [] = [part]"
| "dotted_parts part (c # s) = (if c = CHR ''.'' then part # dotted_parts [] s else dotted_parts (part @ [c]) s)"

definition inet_pton :: "string \<Rightarrow> bool" where
  "inet_pton s \<longleftrightarrow> length (dotted_parts [] s) = 4 \<and> list_all ipv4_number (dotted_parts [] s)"

record listen_io =
  socket_result :: "string + int"
  reuseaddr_result :: syscall
  bind_result :: "string \<Rightarrow> int \<Rightarrow> syscall"
  listen_result :: "int \<Rightarrow> syscall"

definition server_socket_open :: "listen_io \<Rightarrow> ServerConfig option \<Rightarrow> resource_event list \<times> int result" where
  "server_socket_open sys config =
     (case config of
        None \<Rightarrow> ([], fail ''server config must not be null'')
      | Some c \<Rightarrow>
          (case socket_result sys of
             Inl errno \<Rightarrow> ([], Inl (server_set_errno_error ''failed to create listen socket'' errno))
           | Inr fd \<Rightarrow>
               (case server_socket_set_reuseaddr (reuseaddr_result sys) of
                  Inl e \<Rightarrow> ([Closed fd], Inl e)
                | Inr _ \<Rightarrow>
                    (let bind_host = (if config_host c = [] then ''0.0.0.0'' else config_host c) in
                     if \<not> inet_pton bind_host then ([Closed fd], fail ''server host must be a valid IPv4 address'')
                     else (case bind_result sys bind_host (config_port c mod 2 ^ 16) of
                             Some errno \<Rightarrow> ([Closed fd], Inl (server_set_errno_error ''failed to bind listen socket'' errno))
                           | None \<Rightarrow>
                               (case listen_result sys (config_backlog c) of
                                  Some errno \<Rightarrow> ([Closed fd], Inl (server_set_errno_error ''failed to listen on socket'' errno))
                                | None \<Rightarrow> ([], Inr fd)))))))"

text \<open>What a call of \<open>accept\<close> returns, and how a round of the loop goes on from there: it takes the client, tries again, or
  returns. No other thread writes \<open>is_running\<close>, so the two reads of a round agree.\<close>

datatype accept_result = Accepted int client_io | Accept_Interrupted | Accept_Invalid | Accept_Fails string

datatype accept_round = Takes_Client int client_io | Tries_Again | Leaves "unit result"

definition server_socket_accept_loop :: "DbServer option \<Rightarrow> accept_result \<Rightarrow> accept_round" where
  "server_socket_accept_loop server res =
     (if server = None then Leaves (fail ''server must not be null'')
      else if \<not> is_running (the server) then Leaves (Inr ())
      else (case res of
              Accepted fd client \<Rightarrow> Takes_Client fd client
            | Accept_Interrupted \<Rightarrow> Tries_Again
            | Accept_Invalid \<Rightarrow> Leaves (Inr ())
            | Accept_Fails errno \<Rightarrow> Leaves (Inl (server_set_errno_error ''failed to accept client'' errno))))"

text \<open>The descriptor afterwards, and what was closed.\<close>

definition server_socket_close :: "int option \<Rightarrow> int option \<times> resource_event list" where
  "server_socket_close fd =
     (case fd of
        None \<Rightarrow> (None, [])
      | Some n \<Rightarrow> if n < 0 then (fd, []) else (Some (-1), [Closed n]))"

end
