(* ===== verification/Server_Main.thy ===== *)
theory Server_Main
  imports Socket_Server
begin

text \<open>
  \<^verbatim>\<open>src/server/api/server_main.c\<close> and \<open>main\<close> of \<^verbatim>\<open>src/server/api/server_runtime_main.c\<close>: the server as a whole.

  \<open>server_start\<close> runs for the life of the server, together with the workers it starts. It is a step
  relation: a step of the main thread is the work between two points where another thread can be seen,
  and a step of a worker or of the calls that start and join the workers is a step of the pool. A
  thread that waits takes no step.
\<close>

section \<open>The operations\<close>

record server_world =
  server_granted :: bool
  for_pool :: pool_resources
  for_request :: request_world
  guard_granted :: bool

definition server_create :: "server_world \<Rightarrow> ServerConfig option \<Rightarrow> DbServer result" where
  "server_create world config =
     (case server_config_validate config of
        Inl e \<Rightarrow> Inl e
      | Inr _ \<Rightarrow>
          if \<not> server_granted world then fail ''failed to allocate server runtime''
          else (case thread_pool_create (for_pool world) (config_worker_count (the config)) (config_queue_capacity (the config)) of
             Inl e \<Rightarrow> Inl e
           | Inr p \<Rightarrow>
               (case sql_service_create (for_service (for_request world)) (Some (config_db_root (the config))) of
                  Inl e \<Rightarrow> Inl e
                | Inr service \<Rightarrow>
                    (case db_guard_create (guard_granted world) (db_context service) of
                       Inl e \<Rightarrow> Inl e
                     | Inr g \<Rightarrow>
                         (case request_handler_create (for_request world) (Some service) (Some g) of
                            Inl e \<Rightarrow> Inl e
                          | Inr handler \<Rightarrow> Inr
                              \<lparr>listen_fd = -1, is_running = False, server_config = the config, thread_pool = Some p,
                               request_handler = Some handler\<rparr>)))))"

text \<open>\<open>server_start\<close> up to its call of \<open>thread_pool_start\<close>.\<close>

definition server_start_open :: "listen_io \<Rightarrow> DbServer option \<Rightarrow> resource_event list \<times> DbServer result" where
  "server_start_open sys server =
     (case server of
        None \<Rightarrow> ([], fail ''server must not be null'')
      | Some s \<Rightarrow>
          if is_running s then ([], fail ''server is already running'')
          else if thread_pool s = None then ([], fail ''server thread pool is not initialized'')
          else (case server_socket_open sys (Some (server_config s)) of
                  (es, Inl e) \<Rightarrow> (es, Inl e)
                | (es, Inr fd) \<Rightarrow> (es, Inr (s\<lparr>listen_fd := fd, is_running := True\<rparr>))))"

definition server_close_listen :: "DbServer \<Rightarrow> DbServer \<times> resource_event list" where
  "server_close_listen s =
     (case server_socket_close (Some (listen_fd s)) of (fd, es) \<Rightarrow> (s\<lparr>is_running := False, listen_fd := the fd\<rparr>, es))"

text \<open>\<open>server_stop\<close>, up to where \<open>thread_pool_stop\<close> joins the workers.\<close>

definition server_stop :: "DbServer option \<Rightarrow> (DbServer \<times> resource_event list \<times> pool_call) option" where
  "server_stop server =
     (case server of
        None \<Rightarrow> None
      | Some s \<Rightarrow>
          (case server_close_listen s of
             (s, es) \<Rightarrow>
               (case thread_pool s of
                  None \<Rightarrow> Some (s, es, Idle (Inr ()))
                | Some p \<Rightarrow> (case thread_pool_stop p (Inr ()) of (p, c) \<Rightarrow> Some (s\<lparr>thread_pool := Some p\<rparr>, es, c)))))"

text \<open>What \<open>server_destroy\<close> does with jobs after its call of \<open>server_stop\<close> has returned.\<close>

definition server_destroy :: "DbServer option \<Rightarrow> ServerJobData job_event list" where
  "server_destroy server =
     (case server of
        None \<Rightarrow> []
      | Some s \<Rightarrow> (case thread_pool s of None \<Rightarrow> [] | Some p \<Rightarrow> thread_pool_destroy p))"

definition print_server_usage :: "string \<Rightarrow> string" where
  "print_server_usage program_name = ''usage: '' @ program_name @ '' [--host 0.0.0.0] [--port 8080] [--db ./data]'' @ [NEWLINE]"

text \<open>
  The part of \<open>main\<close> before the server starts: standard output, standard error and the exit status, or the
  server; and the part after \<open>server_start\<close> has returned.
\<close>

definition server_main :: "server_world \<Rightarrow> string list \<Rightarrow> (string \<times> string \<times> int) + DbServer" where
  "server_main world argv =
     (case parse_server_args argv (Some \<lparr>config_host = [], config_db_root = [], config_port = 0, config_backlog = 0,
             config_worker_count = 0, config_queue_capacity = 0, client_read_timeout_ms = 0\<rparr>) of
        Usage_Asked \<Rightarrow> Inl (print_server_usage (hd argv), [], 0)
      | Args_Refused e \<Rightarrow>
          if message e \<noteq> [] then Inl ([], print_server_usage (hd argv) @ ''error: '' @ message e @ [NEWLINE], 1) else Inl ([], [], 0)
      | Args_Taken config \<Rightarrow>
          (case server_create world (Some config) of
             Inl e \<Rightarrow> Inl ([], ''error: '' @ message e @ [NEWLINE], 1)
           | Inr s \<Rightarrow> Inr s))"

definition server_main_end :: "unit result \<Rightarrow> string \<times> int" where
  "server_main_end r = (case r of Inl e \<Rightarrow> (''error: '' @ message e @ [NEWLINE], 1) | Inr _ \<Rightarrow> ([], 0))"

text \<open>Arguments the program accepts make a configuration that only memory can keep the server from being created with.\<close>

lemma server_main_creates:
  assumes "parse_server_args argv (Some c0) = Args_Taken config" "config_db_root config \<noteq> []"
    and "service_granted (for_service w)" "context_granted (world_allocator (for_service w))" "handler_granted w"
  shows "\<exists>d. server_create \<lparr>server_granted = True, for_pool = pool_grants, for_request = w, guard_granted = True\<rparr> (Some config) = Inr d"
proof -
  have v: "server_config_validate (Some config) = Inr ()" using parse_server_args_valid[OF assms(1,2)] .
  then have c: "0 < config_worker_count config" "0 < config_queue_capacity config" "length (config_db_root config) < SQL_PATH_BUFFER_SIZE"
    by (auto simp: server_config_validate_def split: if_splits)
  then have "\<exists>p :: ServerJobData ThreadPool. thread_pool_create pool_grants (config_worker_count config) (config_queue_capacity config) = Inr p"
    by (simp add: thread_pool_create_def pool_grants_def job_queue_create_def all_resources_def)
  moreover have "\<exists>s ctx. sql_service_create (for_service w) (Some (config_db_root config)) = Inr s \<and> db_context s = Some ctx"
    using c(3) assms(2-4) by (simp add: sql_service_create_def db_context_create_def)
  ultimately show ?thesis using v assms(5) by (auto simp: server_create_def db_guard_create_def request_handler_create_def)
qed

section \<open>The running server\<close>

text \<open>
  Where the main thread is. \<open>accepted\<close> are the connections \<open>accept\<close> returned, \<open>closings\<close> what the main thread
  closed and freed of them, and \<open>threads\<close> the pool with the trace of its callbacks.
\<close>

datatype phase = Ready | Starting_Pool | Accepting | Submitting "ServerJobData Job" | Pushing | Stopping "unit result" | Ended "unit result"

record server_system =
  server :: DbServer
  threads :: "ServerJobData pool_system"
  at_phase :: phase
  accepted :: "int list"
  closings :: "resource_event list"

definition with_threads :: "server_system \<Rightarrow> ServerJobData pool_system \<Rightarrow> server_system" where
  "with_threads s t = s\<lparr>server := (server s)\<lparr>thread_pool := Some (pool t)\<rparr>, threads := t\<rparr>"

text \<open>The call of \<open>server_stop\<close> at the end of \<open>server_start\<close>.\<close>

definition stopping :: "server_system \<Rightarrow> unit result \<Rightarrow> server_system" where
  "stopping s r =
     (case server_stop (Some (server s)) of
        Some (d, es, c) \<Rightarrow> s\<lparr>server := d, threads := (threads s)\<lparr>pool := the (thread_pool d), call := c\<rparr>, at_phase := Stopping r\<rparr>)"

inductive server_step :: "server_system \<Rightarrow> server_system \<Rightarrow> bool" where
  not_opened: "at_phase s = Ready \<Longrightarrow> server_start_open sys (Some (server s)) = (es, Inl e) \<Longrightarrow>
     server_step s (s\<lparr>at_phase := Ended (Inl e)\<rparr>)"
| opened: "at_phase s = Ready \<Longrightarrow> server_start_open sys (Some (server s)) = (es, Inr d) \<Longrightarrow> call (threads s) = Idle r \<Longrightarrow>
     thread_pool_start (pool (threads s)) = (p, c) \<Longrightarrow>
     server_step s (with_threads (s\<lparr>server := d, at_phase := Starting_Pool\<rparr>) ((threads s)\<lparr>pool := p, call := c\<rparr>))"
| worker: "i < length (workers (pool (threads s))) \<Longrightarrow>
     thread_pool_worker_main (pool_queue (pool (threads s))) (workers (pool (threads s)) ! i) = Some (q, w, es) \<Longrightarrow>
     server_step s (with_threads s ((threads s)\<lparr>
        pool := (pool (threads s))\<lparr>pool_queue := q, workers := (workers (pool (threads s)))[i := w]\<rparr>,
        trace := trace (threads s) @ es, completed := completed (threads s) @ finished (workers (pool (threads s)) ! i)\<rparr>))"
| start_loop: "call (threads s) = Starting k \<Longrightarrow> thread_pool_start_loop created (pool (threads s)) k = (p, c) \<Longrightarrow>
     server_step s (with_threads s ((threads s)\<lparr>pool := p, call := c\<rparr>))"
| join: "call (threads s) = Joining k r \<Longrightarrow> thread_pool_join (pool (threads s)) k r = Some (p, c) \<Longrightarrow>
     server_step s (with_threads s ((threads s)\<lparr>pool := p, call := c\<rparr>))"
| pool_started: "at_phase s = Starting_Pool \<Longrightarrow> call (threads s) = Idle (Inr u) \<Longrightarrow> server_step s (s\<lparr>at_phase := Accepting\<rparr>)"
| pool_failed: "at_phase s = Starting_Pool \<Longrightarrow> call (threads s) = Idle (Inl e) \<Longrightarrow> server_close_listen (server s) = (d, es) \<Longrightarrow>
     server_step s (s\<lparr>server := d, at_phase := Ended (Inl e)\<rparr>)"
| leaves: "at_phase s = Accepting \<Longrightarrow> server_socket_accept_loop (Some (server s)) res = Leaves r \<Longrightarrow> server_step s (stopping s r)"
| handled: "at_phase s = Accepting \<Longrightarrow> server_socket_accept_loop (Some (server s)) res = Takes_Client fd client \<Longrightarrow> 0 \<le> fd \<Longrightarrow>
     server_socket_handle_client (server s) fd client = Some (sent, es, Returns (Inr u)) \<Longrightarrow>
     server_step s (s\<lparr>accepted := accepted s @ [fd], closings := closings s @ es\<rparr>)"
| not_handled: "at_phase s = Accepting \<Longrightarrow> server_socket_accept_loop (Some (server s)) res = Takes_Client fd client \<Longrightarrow> 0 \<le> fd \<Longrightarrow>
     server_socket_handle_client (server s) fd client = Some (sent, es, Returns (Inl e)) \<Longrightarrow>
     server_step s (stopping (s\<lparr>accepted := accepted s @ [fd], closings := closings s @ es\<rparr>) (Inl e))"
| submits: "at_phase s = Accepting \<Longrightarrow> server_socket_accept_loop (Some (server s)) res = Takes_Client fd client \<Longrightarrow> 0 \<le> fd \<Longrightarrow>
     server_socket_handle_client (server s) fd client = Some (sent, es, Submits job) \<Longrightarrow>
     server_step s (s\<lparr>accepted := accepted s @ [fd], closings := closings s @ es, at_phase := Submitting job\<rparr>)"
| submit_refused: "at_phase s = Submitting job \<Longrightarrow> submit_checks (Some (pool (threads s))) job = (es, Inl e) \<Longrightarrow>
     server_step s (stopping (with_threads s ((threads s)\<lparr>trace := trace (threads s) @ es, submitted := submitted (threads s) @ [job],
        refused := refused (threads s) @ [job]\<rparr>)) (Inl e))"
| submit_checked: "at_phase s = Submitting job \<Longrightarrow> submit_checks (Some (pool (threads s))) job = (es, Inr u) \<Longrightarrow>
     server_step s (with_threads (s\<lparr>at_phase := Pushing\<rparr>) ((threads s)\<lparr>trace := trace (threads s) @ es,
        submitted := submitted (threads s) @ [job], pending := pending (threads s) @ [job]\<rparr>))"
| pushed: "at_phase s = Pushing \<Longrightarrow> pending (threads s) = ps @ job # ps' \<Longrightarrow> submit_push (pool (threads s)) job = Some (p, es, Inr u) \<Longrightarrow>
     server_step s (with_threads (s\<lparr>at_phase := Accepting\<rparr>) ((threads s)\<lparr>pool := p, trace := trace (threads s) @ es,
        pending := ps @ ps', refused := refused (threads s) @ []\<rparr>))"
| push_refused: "at_phase s = Pushing \<Longrightarrow> pending (threads s) = ps @ job # ps' \<Longrightarrow> submit_push (pool (threads s)) job = Some (p, es, Inl e) \<Longrightarrow>
     server_step s (stopping (with_threads s ((threads s)\<lparr>pool := p, trace := trace (threads s) @ es,
        pending := ps @ ps', refused := refused (threads s) @ [job]\<rparr>)) (Inl e))"
| stopped: "at_phase s = Stopping r \<Longrightarrow> call (threads s) = Idle r' \<Longrightarrow> server_step s (s\<lparr>at_phase := Ended r\<rparr>)"

definition server_initial :: "DbServer \<Rightarrow> server_system" where
  "server_initial d =
     \<lparr>server = d, threads = pool_initial (the (thread_pool d)), at_phase = Ready, accepted = [], closings = []\<rparr>"

definition server_reachable :: "DbServer \<Rightarrow> server_system \<Rightarrow> bool" where
  "server_reachable d = server_step\<^sup>*\<^sup>* (server_initial d)"

section \<open>What a call does with its connection\<close>

lemma refuse_client_closes: "refuse_client client fd status body = Some (sent, es, e) \<Longrightarrow> closes es = [fd] \<and> (\<exists>r. e = Returns r)"
  by (auto simp: refuse_client_def split: bind_splits)

lemma dispatch_closes:
  assumes "server_socket_dispatch_request calloc_granted (Some d) fd request = (es, e)" "0 \<le> fd" "thread_pool d \<noteq> None" "request_handler d \<noteq> None"
  shows "case e of Returns r \<Rightarrow> closes es = [fd] | Submits j \<Rightarrow> closes es = [] \<and> server_job j \<and> job_fd j = fd"
  using assms
  by (auto simp: server_socket_dispatch_request_def server_socket_create_job_data_def server_job_build_def server_job_def job_fd_def
      server_job_cleanup_def server_job_data_destroy_def server_job_data_init_def Let_def split: if_splits sum.splits prod.splits)

lemma handle_client_closes:
  assumes "server_socket_handle_client d fd client = Some (sent, es, e)" "0 \<le> fd" "thread_pool d \<noteq> None" "request_handler d \<noteq> None"
  shows "case e of Returns r \<Rightarrow> closes es = [fd] | Submits j \<Rightarrow> closes es = [] \<and> server_job j \<and> job_fd j = fd"
proof -
  consider "closes es = [fd]" "\<exists>r. e = Returns r"
    | request where "server_socket_dispatch_request (job_granted client) (Some d) fd request = (es, e)"
    using assms(1) by (auto simp: server_socket_handle_client_def dest!: refuse_client_closes split: if_splits bind_splits ServerRequestReadStatus.splits)
  then show ?thesis by cases (use dispatch_closes[OF _ assms(2-4)] in auto)
qed

section \<open>The invariant\<close>

definition submitting :: "phase \<Rightarrow> ServerJobData Job list" where
  "submitting ph = (case ph of Submitting j \<Rightarrow> [j] | _ \<Rightarrow> [])"

text \<open>The jobs that hold an open connection.\<close>

definition in_flight :: "server_system \<Rightarrow> ServerJobData Job list" where
  "in_flight s =
     submitting (at_phase s) @ pending (threads s) @ queue_list (pool_queue (pool (threads s))) @
     concat (map held (workers (pool (threads s))))"

definition server_linked :: "server_system \<Rightarrow> bool" where
  "server_linked s \<longleftrightarrow> thread_pool (server s) = Some (pool (threads s)) \<and> request_handler (server s) \<noteq> None \<and> pool_inv (threads s)"

definition server_counts :: "server_system \<Rightarrow> bool" where
  "server_counts s \<longleftrightarrow>
     list_all server_job (submitted (threads s) @ submitting (at_phase s)) \<and>
     mset (accepted s) = mset (closes (closings s)) + mset (map job_fd (submitted (threads s) @ submitting (at_phase s)))"

definition phase_ok :: "server_system \<Rightarrow> bool" where
  "phase_ok s \<longleftrightarrow>
     (case at_phase s of
        Ready \<Rightarrow> (\<exists>r. call (threads s) = Idle r) \<and> \<not> started (pool (threads s))
      | Starting_Pool \<Rightarrow> (\<forall>e. call (threads s) = Idle (Inl e) \<longrightarrow> \<not> started (pool (threads s))) \<and>
          (\<forall>k r. call (threads s) = Joining k r \<longrightarrow> (\<exists>e. r = Inl e))
      | Stopping r \<Rightarrow> (\<forall>k. call (threads s) \<noteq> Starting k) \<and> (\<forall>r. call (threads s) = Idle r \<longrightarrow> \<not> started (pool (threads s)))
      | Ended r \<Rightarrow> (\<exists>r. call (threads s) = Idle r) \<and> \<not> started (pool (threads s))
      | _ \<Rightarrow> \<exists>r. call (threads s) = Idle r) \<and>
     (if at_phase s = Pushing then length (pending (threads s)) = 1 else pending (threads s) = [])"

definition server_inv :: "server_system \<Rightarrow> bool" where
  "server_inv s \<longleftrightarrow> server_linked s \<and> server_counts s \<and> phase_ok s"

lemma server_invI: "server_linked s \<Longrightarrow> server_counts s \<Longrightarrow> phase_ok s \<Longrightarrow> server_inv s"
  by (simp add: server_inv_def)

lemma with_threads_simps [simp]:
  "threads (with_threads s t) = t" "at_phase (with_threads s t) = at_phase s" "accepted (with_threads s t) = accepted s"
  "closings (with_threads s t) = closings s" "server (with_threads s t) = (server s)\<lparr>thread_pool := Some (pool t)\<rparr>"
  by (simp_all add: with_threads_def)

lemma linked_with_threads: "server_linked s \<Longrightarrow> pool_inv t \<Longrightarrow> server_linked (with_threads s t)"
  by (simp add: server_linked_def)

lemma inv_start:
  assumes "server_create world config = Inr d"
  shows "server_inv (server_initial d)"
proof -
  obtain p n k where p: "thread_pool d = Some p" "request_handler d \<noteq> None" "thread_pool_create (for_pool world) n k = Inr p"
    using assms by (auto simp: server_create_def split: sum.splits if_splits)
  then have "pool_inv (pool_initial p)" using inv_initial by blast
  moreover have "\<not> started p" using p(3) by (auto simp: thread_pool_create_def split: if_splits sum.splits)
  ultimately show ?thesis using p(1,2)
    by (auto simp: server_inv_def server_initial_def server_linked_def server_counts_def phase_ok_def submitting_def pool_initial_def)
qed

text \<open>The call of \<open>server_stop\<close> is a step of the pool.\<close>

lemma inv_stopping:
  assumes "server_linked s" "server_counts (s\<lparr>at_phase := Stopping r'\<rparr>)" "call (threads s) = Idle r" "pending (threads s) = []"
  shows "server_inv (stopping s r')"
proof -
  let ?t = "threads s"
  obtain p c where p: "thread_pool_stop (pool ?t) (Inr ()) = (p, c)" by fastforce
  obtain d es where d: "server_close_listen (server s) = (d, es)" by fastforce
  then have link: "thread_pool d = Some (pool ?t)" "request_handler d \<noteq> None"
    using assms(1) by (auto simp: server_close_listen_def server_linked_def split: prod.splits)
  have st: "stopping s r' = s\<lparr>server := d\<lparr>thread_pool := Some p\<rparr>, threads := ?t\<lparr>pool := p, call := c\<rparr>, at_phase := Stopping r'\<rparr>"
    using d link p by (simp add: stopping_def server_stop_def)
  have "pool_inv (?t\<lparr>pool := p, call := c\<rparr>)"
    using inv_step[OF pool_step.stop[OF assms(3) p]] assms(1) by (simp add: server_linked_def)
  then show ?thesis
    using p link assms(2-4)
    by (auto simp: server_inv_def st server_linked_def server_counts_def phase_ok_def submitting_def thread_pool_stop_def Let_def split: if_splits)
qed

text \<open>A step of the pool that submits nothing, and the pools its calls leave.\<close>

lemma counts_quiet_step:
  "server_counts s \<Longrightarrow> submitted t = submitted (threads s) \<Longrightarrow> server_counts (with_threads s t)"
  by (simp add: server_counts_def)

lemma counts_client:
  assumes "server_counts s" "at_phase s = Accepting"
  shows "closes es = [fd] \<Longrightarrow> server_counts (s\<lparr>accepted := accepted s @ [fd], closings := closings s @ es\<rparr>)"
    and "closes es = [] \<Longrightarrow> server_job job \<Longrightarrow> job_fd job = fd \<Longrightarrow>
      server_counts (s\<lparr>accepted := accepted s @ [fd], closings := closings s @ es, at_phase := Submitting job\<rparr>)"
  using assms by (auto simp: server_counts_def submitting_def)

lemma counts_submit:
  "server_counts s \<Longrightarrow> at_phase s = Submitting job \<Longrightarrow> submitted t = submitted (threads s) @ [job] \<Longrightarrow> submitting ph = [] \<Longrightarrow>
     server_counts (with_threads (s\<lparr>at_phase := ph\<rparr>) t)"
  by (auto simp: server_counts_def submitting_def)

lemma inv_pool_step:
  assumes "server_inv s" "pool_step (threads s) t" "submitted t = submitted (threads s)" "phase_ok (with_threads s t)"
  shows "server_inv (with_threads s t)"
  using assms linked_with_threads[of s t] counts_quiet_step[of s t] inv_step[of "threads s" t] by (auto simp: server_inv_def server_linked_def)

lemma accepting_stops:
  assumes "server_linked s" "server_counts s" "at_phase s = Accepting" "call (threads s) = Idle r" "pending (threads s) = []"
  shows "server_inv (stopping s r')"
  using assms by (intro inv_stopping[OF _ _ assms(4)]) (auto simp: server_counts_def submitting_def)

lemma at_rest:
  assumes "server_inv s" "at_phase s \<in> {Accepting, Pushing} \<union> range Submitting"
  obtains r where "server_linked s" "server_counts s" "call (threads s) = Idle r"
    "if at_phase s = Pushing then length (pending (threads s)) = 1 else pending (threads s) = []"
  using assms by (auto simp: server_inv_def phase_ok_def split: phase.splits)

lemma server_inv_step: "server_step s s' \<Longrightarrow> server_inv s \<Longrightarrow> server_inv s'"
proof (induction rule: server_step.induct)
  case (not_opened s sys es e)
  then show ?case by (auto simp: server_inv_def server_linked_def server_counts_def phase_ok_def submitting_def)
next
  case (opened s sys es d r p c)
  have "server_linked (s\<lparr>server := d, at_phase := Starting_Pool\<rparr>)" "server_counts (s\<lparr>server := d, at_phase := Starting_Pool\<rparr>)"
    using opened by (auto simp: server_inv_def server_linked_def server_counts_def submitting_def server_start_open_def split: option.splits if_splits prod.splits sum.splits)
  moreover have "pool_inv ((threads s)\<lparr>pool := p, call := c\<rparr>)"
    using inv_step[OF pool_step.start[OF opened(3,4)]] opened.prems by (simp add: server_inv_def server_linked_def)
  ultimately show ?case using opened
    by (intro server_invI linked_with_threads counts_quiet_step)
      (auto simp: server_inv_def phase_ok_def thread_pool_start_def split: if_splits)
next
  case (worker i s q w es)
  then show ?case
    by (intro inv_pool_step pool_step.worker) (auto simp: server_inv_def phase_ok_def split: phase.splits)
next
  case (start_loop s k created p c)
  then show ?case
    by (intro inv_pool_step pool_step.start_loop[OF start_loop(1,2)])
      (auto simp: server_inv_def phase_ok_def thread_pool_start_loop_def thread_pool_stop_def Let_def split: phase.splits if_splits)
next
  case (join s k r p c)
  then show ?case
    by (intro inv_pool_step pool_step.join[OF join(1,2)])
      (auto simp: server_inv_def phase_ok_def thread_pool_join_def split: phase.splits if_splits)
next
  case (pool_started s u)
  then show ?case by (auto simp: server_inv_def server_linked_def server_counts_def phase_ok_def submitting_def)
next
  case (pool_failed s e d es)
  then show ?case
    by (auto simp: server_inv_def server_linked_def server_counts_def phase_ok_def submitting_def server_close_listen_def split: prod.splits)
next
  case (leaves s res r)
  then obtain r0 where "server_linked s" "server_counts s" "call (threads s) = Idle r0" "pending (threads s) = []" by (auto elim!: at_rest)
  then show ?case using leaves(1) by (intro accepting_stops)
next
  case (handled s res fd client sent es u)
  then have "closes es = [fd]" using handle_client_closes[OF handled(4,3)] by (auto simp: server_inv_def server_linked_def)
  then show ?case using handled counts_client(1)[of s es fd]
    by (auto simp: server_inv_def server_linked_def phase_ok_def)
next
  case (not_handled s res fd client sent es e)
  then obtain r0 where s: "server_linked s" "server_counts s" "call (threads s) = Idle r0" "pending (threads s) = []" by (auto elim!: at_rest)
  then have "closes es = [fd]" using handle_client_closes[OF not_handled(4,3)] by (auto simp: server_linked_def)
  then have "server_counts (s\<lparr>accepted := accepted s @ [fd], closings := closings s @ es\<rparr>)"
    using not_handled(1) s(2) counts_client(1)[of s es fd] by simp
  then show ?case using s not_handled(1) by (intro accepting_stops) (simp_all add: server_linked_def)
next
  case (submits s res fd client sent es job)
  then have "closes es = [] \<and> server_job job \<and> job_fd job = fd"
    using handle_client_closes[OF submits(4,3)] by (auto simp: server_inv_def server_linked_def)
  then show ?case using submits counts_client(2)[of s es job fd] by (auto simp: server_inv_def server_linked_def phase_ok_def)
next
  case (submit_refused s job es e)
  then obtain r0 where s: "server_linked s" "server_counts s" "call (threads s) = Idle r0" "pending (threads s) = []" by (auto elim!: at_rest)
  let ?t = "(threads s)\<lparr>trace := trace (threads s) @ es, submitted := submitted (threads s) @ [job], refused := refused (threads s) @ [job]\<rparr>"
  have "pool_inv ?t" using inv_step[OF pool_step.submit_refused[OF submit_refused(2)]] s(1) by (simp add: server_linked_def)
  moreover have "server_counts ((with_threads s ?t)\<lparr>at_phase := Stopping (Inl e)\<rparr>)"
    using s(2) submit_refused(1) by (auto simp: server_counts_def submitting_def)
  ultimately show ?case using s by (intro inv_stopping linked_with_threads) simp_all
next
  case (submit_checked s job es u)
  then obtain r0 where s: "server_linked s" "server_counts s" "call (threads s) = Idle r0" "pending (threads s) = []" by (auto elim!: at_rest)
  let ?t = "(threads s)\<lparr>trace := trace (threads s) @ es, submitted := submitted (threads s) @ [job], pending := pending (threads s) @ [job]\<rparr>"
  have "pool_inv ?t" using inv_step[OF pool_step.submit_checked[OF submit_checked(2)]] s(1) by (simp add: server_linked_def)
  moreover have "server_counts (with_threads (s\<lparr>at_phase := Pushing\<rparr>) ?t)"
    using s(2) submit_checked(1) by (rule counts_submit) (simp_all add: submitting_def)
  ultimately show ?case using s by (intro server_invI linked_with_threads) (simp_all add: server_linked_def phase_ok_def)
next
  case (pushed s ps job ps' p es u)
  then obtain r0 where s: "server_linked s" "server_counts s" "call (threads s) = Idle r0" "length (pending (threads s)) = 1" by (auto elim!: at_rest)
  let ?t = "(threads s)\<lparr>pool := p, trace := trace (threads s) @ es, pending := ps @ ps', refused := refused (threads s) @ []\<rparr>"
  have "pool_inv ?t" using inv_step[OF pool_step.push[OF pushed(2,3)]] s(1) by (simp add: server_linked_def)
  then show ?case using s pushed(1,2) 
    by (intro server_invI linked_with_threads) (auto simp: server_linked_def server_counts_def phase_ok_def submitting_def)
next
  case (push_refused s ps job ps' p es e)
  then obtain r0 where s: "server_linked s" "server_counts s" "call (threads s) = Idle r0" "length (pending (threads s)) = 1" by (auto elim!: at_rest)
  let ?t = "(threads s)\<lparr>pool := p, trace := trace (threads s) @ es, pending := ps @ ps', refused := refused (threads s) @ [job]\<rparr>"
  have "pool_inv ?t" using inv_step[OF pool_step.push[OF push_refused(2,3)]] s(1) by (simp add: server_linked_def)
  then show ?case using s push_refused(1,2)
    by (intro inv_stopping linked_with_threads) (auto simp: server_counts_def submitting_def)
next
  case (stopped s r r')
  then show ?case by (auto simp: server_inv_def server_linked_def server_counts_def phase_ok_def submitting_def)
qed

lemma server_inv_reachable:
  assumes "server_create world config = Inr d" "server_reachable d s"
  shows "server_inv s"
  using assms(2)[unfolded server_reachable_def] inv_start[OF assms(1)] by (induction rule: rtranclp_induct) (auto intro: server_inv_step)

section \<open>Properties\<close>

lemma closed_or_in_flight:
  assumes "server_inv s"
  shows "mset (accepted s) = mset (closes (closings s)) + mset (cleanup_closes (trace (threads s))) + mset (map job_fd (in_flight s))"
proof -
  let ?t = "threads s"
  have inv: "pool_accounts ?t" "pool_trace ?t" and jobs: "list_all server_job (submitted ?t)"
    and counts: "mset (accepted s) = mset (closes (closings s)) + mset (map job_fd (submitted ?t @ submitting (at_phase s)))"
    using assms by (auto simp: server_inv_def server_linked_def pool_inv_def server_counts_def)
  have sub: "mset (submitted ?t) = mset (completed ?t @ refused ?t) +
      mset (pending ?t @ queue_list (pool_queue (pool ?t)) @ concat (map held (workers (pool ?t))))"
    using inv(1) by (simp add: pool_accounts_def)
  then have "set (completed ?t @ refused ?t) \<subseteq> set (submitted ?t)" by (metis mset_subset_eq_add_left set_mset_mono set_mset_mset)
  then have "list_all server_job (completed ?t @ refused ?t)" using jobs by (auto simp: list_all_iff)
  then have "mset (cleanup_closes (trace ?t)) = mset (map job_fd (completed ?t @ refused ?t))"
    using cleanup_closes_cong[of "trace ?t" "map (Executed \<circ> job_data) (completed ?t @ concat (map finished (workers (pool ?t)))) @
        concat (map run_cleanup (completed ?t @ refused ?t))"] inv(2)
    unfolding pool_trace_def by (simp only: mset_append cleanup_closes_append executed_closes_nothing server_jobs_clean append_Nil)
  then show ?thesis unfolding counts in_flight_def using arg_cong[OF sub, of "image_mset job_fd"] by simp
qed

lemma ended_all_closed:
  assumes "server_inv s" "at_phase s = Ended r"
  shows "mset (accepted s) = mset (closes (closings s)) + mset (cleanup_closes (trace (threads s) @ server_destroy (Some (server s))))"
proof -
  let ?t = "threads s"
  have inv: "pool_inv ?t" "thread_pool (server s) = Some (pool ?t)" "\<not> started (pool ?t)" "pending ?t = []" "list_all server_job (submitted ?t)"
    and counts: "mset (accepted s) = mset (closes (closings s)) + mset (map job_fd (submitted ?t))"
    using assms by (auto simp: server_inv_def server_linked_def server_counts_def phase_ok_def submitting_def)
  let ?es = "trace ?t @ thread_pool_destroy (pool ?t)"
  have "cleanup_closes (filter (\<lambda>e. \<exists>d. e = Cleaned d) es) = cleanup_closes es" for es by (induction es rule: cleanup_closes.induct) auto
  then have "mset (cleanup_closes ?es) = mset (cleanup_closes (filter (\<lambda>e. \<exists>d. e = Cleaned d) ?es))" by simp
  also have "\<dots> = mset (cleanup_closes (concat (map run_cleanup (submitted ?t))))"
    using stopped_cleaned[OF inv(1,3,4)] by (intro cleanup_closes_cong) (simp only: mset_filter)
  also have "\<dots> = mset (map job_fd (submitted ?t))" using inv(5) by (simp add: server_jobs_clean)
  finally show ?thesis using counts inv(2) by (simp add: server_destroy_def)
qed

text \<open>
  C5. No connection is leaked and none is closed twice: at any moment of the life of the server, whatever
  the clients send, wherever memory runs out and however the threads interleave, the connections that were
  accepted are those the main thread closed, those the cleanup of a job closed, and those of the jobs
  still under way; and when \<open>server_start\<close> has returned and the server is destroyed, every accepted
  connection was closed exactly once.
\<close>

theorem connections_closed_once:
  assumes "server_create world config = Inr d" "server_reachable d s"
  shows "mset (accepted s) = mset (closes (closings s)) + mset (cleanup_closes (trace (threads s))) + mset (map job_fd (in_flight s)) \<and>
    (\<forall>r. at_phase s = Ended r \<longrightarrow>
       mset (accepted s) = mset (closes (closings s)) + mset (cleanup_closes (trace (threads s) @ server_destroy (Some (server s)))))"
  using closed_or_in_flight ended_all_closed server_inv_reachable[OF assms] by blast

definition sample_config :: ServerConfig where
  "sample_config =
     \<lparr>config_host = [], config_db_root = ''db'', config_port = 8080, config_backlog = 1, config_worker_count = 1,
      config_queue_capacity = 3, client_read_timeout_ms = 0\<rparr>"

definition sample_server_world :: server_world where
  "sample_server_world = \<lparr>server_granted = True, for_pool = pool_grants, for_request = sample_request_world, guard_granted = True\<rparr>"

definition sample_listen :: listen_io where
  "sample_listen = \<lparr>socket_result = Inr 3, reuseaddr_result = None, bind_result = \<lambda>_ _. None, listen_result = \<lambda>_. None\<rparr>"

definition silent_client :: client_io where
  "silent_client =
     \<lparr>set_nosigpipe = None, set_receive_timeout = None, set_send_timeout = None, initial_granted = True, buffer_grants = \<lambda>_. True,
      incoming = [Peer_Closed], outgoing = [Send_Fails], job_granted = True\<rparr>"

lemma sample_server:
  "\<exists>d p. server_create sample_server_world (Some sample_config) = Inr d \<and> thread_pool d = Some p \<and> \<not> started p \<and> worker_count p = 1 \<and>
     workers p = [Absent] \<and> server_config d = sample_config \<and> \<not> is_running d"
proof -
  obtain q :: "ServerJobData JobQueue" where "job_queue_create all_resources 3 = Inr q" using sample_queue[of 3] by auto
  then have "thread_pool_create pool_grants 1 3 = Inr \<lparr>worker_count = 1, started = False, pool_queue = q, workers = [Absent]\<rparr>"
    by (simp add: thread_pool_create_def pool_grants_def)
  moreover have "\<exists>s ctx. sql_service_create sample_world (Some ''db'') = Inr s \<and> db_context s = Some ctx"
    by (simp add: sql_service_create_def sample_world_def db_context_create_def sample_allocator_def)
  ultimately show ?thesis
    by (auto simp: server_create_def sample_server_world_def sample_config_def server_config_validate_def sample_request_world_def
        db_guard_create_def request_handler_create_def)
qed

lemma reach_next: "server_reachable d s \<Longrightarrow> server_step s s' \<Longrightarrow> server_reachable d s'"
  unfolding server_reachable_def by (rule rtranclp.rtrancl_into_rtrancl)

lemma sample_accepting:
  assumes "server_create sample_server_world (Some sample_config) = Inr d" "thread_pool d = Some p" "\<not> started p" "worker_count p = 1"
    "workers p = [Absent]" "server_config d = sample_config" "\<not> is_running d"
  shows "\<exists>s. server_reachable d s \<and> at_phase s = Accepting \<and> server_config (server s) = sample_config \<and> is_running (server s) \<and>
    accepted s = [] \<and> closings s = []"
proof -
  let ?d = "d\<lparr>listen_fd := 3, is_running := True\<rparr>"
  have "inet_pton ''0.0.0.0''" by code_simp
  then have open_ok: "server_start_open sample_listen (Some d) = ([], Inr ?d)"
    using assms(2,6,7)
    by (simp add: server_start_open_def server_socket_open_def sample_config_def sample_listen_def server_socket_set_reuseaddr_def)
  let ?p = "p\<lparr>started := True\<rparr>"
  let ?s = "\<lambda>ph q c. with_threads ((server_initial d)\<lparr>server := ?d, at_phase := ph\<rparr>) ((pool_initial p)\<lparr>pool := q, call := c\<rparr>)"
  let ?q = "?p\<lparr>workers := [Fetching]\<rparr>"
  have "server_step (server_initial d) (?s Starting_Pool ?p (Starting 0))"
    using server_step.opened[of "server_initial d" sample_listen "[]" ?d "Inr ()" ?p "Starting 0"] open_ok assms(2,3)
    by (simp add: server_initial_def pool_initial_def thread_pool_start_def)
  moreover have "server_step (?s Starting_Pool ?p (Starting 0)) (?s Starting_Pool ?q (Starting 1))"
    using server_step.start_loop[of "?s Starting_Pool ?p (Starting 0)" 0 True] assms(4,5)
    by (simp add: thread_pool_start_loop_def with_threads_def)
  moreover have "server_step (?s Starting_Pool ?q (Starting 1)) (?s Starting_Pool ?q (Idle (Inr ())))"
    using server_step.start_loop[of "?s Starting_Pool ?q (Starting 1)" 1 True] assms(4)
    by (simp add: thread_pool_start_loop_def with_threads_def)
  moreover have "server_step (?s Starting_Pool ?q (Idle (Inr ()))) ((?s Starting_Pool ?q (Idle (Inr ())))\<lparr>at_phase := Accepting\<rparr>)"
    using server_step.pool_started[of "?s Starting_Pool ?q (Idle (Inr ()))" "()"] by simp
  ultimately have "server_reachable d ((?s Starting_Pool ?q (Idle (Inr ())))\<lparr>at_phase := Accepting\<rparr>)"
    unfolding server_reachable_def by (meson converse_rtranclp_into_rtranclp r_into_rtranclp)
  then show ?thesis using assms(6) by (intro exI[of _ "(?s Starting_Pool ?q (Idle (Inr ())))\<lparr>at_phase := Accepting\<rparr>"]) (simp add: server_initial_def)
qed

theorem connections_closed_once_witness:
  "\<exists>d s. server_create sample_server_world (Some sample_config) = Inr d \<and> server_reachable d s \<and> accepted s = [5] \<and>
     closes (closings s) = [5] \<and> cleanup_closes (trace (threads s)) = [] \<and> in_flight s = []"
proof -
  obtain d p where d: "server_create sample_server_world (Some sample_config) = Inr d" "thread_pool d = Some p" "\<not> started p" "worker_count p = 1"
      "workers p = [Absent]" "server_config d = sample_config" "\<not> is_running d" using sample_server by blast
  obtain s where s: "server_reachable d s" "at_phase s = Accepting" "server_config (server s) = sample_config" "is_running (server s)"
      "accepted s = []" "closings s = []" using sample_accepting[OF d] by blast
  have "server_socket_send_plain_response [Send_Fails] ''400 Bad Request'' (''empty request received'' @ [NEWLINE]) = Some ([], [], False)" by code_simp
  moreover have "server_socket_read_request True (\<lambda>_. True) [Peer_Closed] = Some ([Peer_Closed], SERVER_REQUEST_READ_EMPTY)"
    by (simp add: server_socket_read_request_def read_loop.simps[of _ "[Peer_Closed]"] before_recv_def read_finished_def)
  ultimately have h: "server_socket_handle_client (server s) 5 silent_client = Some ([], [Freed_Request, Closed 5], Returns (Inr ()))"
    using s(3) by (simp add: server_socket_handle_client_def silent_client_def server_socket_disable_sigpipe_def server_socket_set_timeout_def
        sample_config_def refuse_client_def)
  let ?s = "s\<lparr>accepted := accepted s @ [5], closings := closings s @ [Freed_Request, Closed 5]\<rparr>"
  have r: "server_reachable d ?s"
    using s h by (intro reach_next[OF s(1)] server_step.handled[of _ "Accepted 5 silent_client" 5 silent_client "[]" _ "()"])
      (simp_all add: server_socket_accept_loop_def)
  moreover have "{#5#} = {#5#} + mset (cleanup_closes (trace (threads ?s))) + mset (map job_fd (in_flight ?s))"
    using connections_closed_once[OF d(1) r] s by simp
  ultimately show ?thesis using d(1) s by (intro exI[of _ d] exI[of _ ?s]) simp
qed

end
