(* ===== verification/Serving.thy ===== *)
theory Serving
  imports Server_Main
begin

text \<open>
  One request from the socket to the socket: what the accepting thread reads and hands to the pool, and
  what the worker that takes the job sends. The client, the way its bytes are cut into pieces, and the
  pieces in which the answer leaves are arbitrary.
\<close>

section \<open>Requests and answers\<close>

text \<open>The text of a POST with these header lines and this body.\<close>

definition post_text :: "string \<Rightarrow> string list \<Rightarrow> string \<Rightarrow> string" where
  "post_text path headers sql = head_text ((''POST'' @ '' '' @ path @ '' '' @ ''HTTP/1.1'') # headers) @ sql"

text \<open>A request a client may send: it declares the length of its body and fits the buffer of the server.\<close>

definition post_ok :: "string \<Rightarrow> string list \<Rightarrow> string \<Rightarrow> bool" where
  "post_ok path headers sql \<longleftrightarrow>
     http_token 128 path \<and> peek path = CHR ''/'' \<and> list_all head_line headers \<and> list_all cstring headers \<and> cstring sql \<and>
     declared_length ((''POST'' @ '' '' @ path @ '' '' @ ''HTTP/1.1'') # headers) = Inr (length sql) \<and>
     length (post_text path headers sql) \<le> SERVER_REQUEST_MAX_CAPACITY"

definition json_answer :: "int \<Rightarrow> string \<Rightarrow> string" where
  "json_answer code body = response_header code (http_reason_phrase code) ''application/json; charset=utf-8'' (length body) @ body"

text \<open>A client whose socket works and that sends this text, in any pieces, when memory is granted.\<close>

definition client_sends :: "client_io \<Rightarrow> string \<Rightarrow> bool" where
  "client_sends client t \<longleftrightarrow>
     server_socket_disable_sigpipe (set_nosigpipe client) \<and> set_receive_timeout client = None \<and> set_send_timeout client = None \<and>
     initial_granted client \<and> (\<forall>k. buffer_grants client k) \<and> arriving (incoming client) = Some t \<and> job_granted client"

definition server_ready :: "DbServer \<Rightarrow> bool" where
  "server_ready d \<longleftrightarrow> thread_pool d \<noteq> None \<and> request_handler d \<noteq> None"

text \<open>The accepting thread's call for a client, then the call of the worker that takes the job.\<close>

definition serve_request ::
  "request_world \<Rightarrow> DbServer \<Rightarrow> filesystem \<Rightarrow> RequestHandler \<Rightarrow> int \<Rightarrow> client_io \<Rightarrow> (RequestHandler option \<times> filesystem \<times> string) option" where
  "serve_request world d fs handler fd client =
     (case server_socket_handle_client d fd client of
        Some (_, _, Submits job) \<Rightarrow> do {
          (handler, fs, _, sent) \<leftarrow> server_socket_execute_request_job world fs (Some handler) (outgoing client) (job_data job);
          Some (handler, fs, sent) }
      | _ \<Rightarrow> None)"

section \<open>Reading and framing\<close>

lemma post_text_cstring: "post_ok path headers sql \<Longrightarrow> cstring (post_text path headers sql)"
proof -
  assume ok: "post_ok path headers sql"
  have "cstring (concat (map (\<lambda>l. l @ CRLF) ls))" if "list_all cstring ls" for ls using that by (induction ls) auto
  then show ?thesis using ok by (simp add: post_ok_def post_text_def head_text_def http_token_def) (simp add: cstring_def)
qed

lemma post_line: "http_token 128 path \<Longrightarrow> head_line (''POST'' @ '' '' @ path @ '' '' @ ''HTTP/1.1'')"
  by (auto simp: head_line_def http_token_def)

lemma post_framed:
  assumes "post_ok path headers sql"
  shows "framed (post_text path headers sql) (length (post_text path headers sql) - length sql) (length sql)"
proof -
  let ?ls = "(''POST'' @ '' '' @ path @ '' '' @ ''HTTP/1.1'') # headers"
  have ls: "list_all head_line ?ls" "?ls \<noteq> []" using assms post_line by (simp_all add: post_ok_def)
  show ?thesis using find_body_start_head[OF ls, of sql] parse_content_length_head[OF ls, of sql] assms
    by (simp add: framed_def post_ok_def post_text_def)
qed

lemma post_parsed:
  assumes "post_ok path headers sql" "sql \<noteq> []"
  shows "http_parse_request True (Some (post_text path headers sql)) =
    Inr \<lparr>http_method = ''POST'', http_path = path, request_body = Some sql, request_body_length = length sql\<rparr>"
proof -
  have "http_token 16 ''POST''" by code_simp
  then show ?thesis
    using parse_written[of "''POST''" path "''HTTP/1.1''" headers sql] assms unfolding post_text_def post_ok_def by simp
qed

lemma client_read:
  assumes "post_ok path headers sql" "client_sends client (post_text path headers sql)" "server_ready d" "0 \<le> fd"
  shows "\<exists>job data. server_socket_handle_client d fd client = Some ([], [], Submits job) \<and> job_data job = Some data \<and>
    raw_request data = Some (post_text path headers sql) \<and> has_handler data"
proof -
  let ?t = "post_text path headers sql"
  have t: "?t \<noteq> []" by (simp add: post_text_def head_text_def)
  obtain rest where "server_socket_read_request True (buffer_grants client) (incoming client) = Some (rest, SERVER_REQUEST_READ_OK ?t)"
    using any_split[OF post_framed[OF assms(1)] _ _ t, of "incoming client" "buffer_grants client"] assms(2) by (auto simp: client_sends_def)
  moreover have "snd (server_socket_set_timeout None None ms) = Inr ()" for ms by (simp add: server_socket_set_timeout_def Let_def)
  ultimately show ?thesis using assms(2-4) t
    by (auto simp: server_socket_handle_client_def client_sends_def server_ready_def server_socket_dispatch_request_def
        server_socket_create_job_data_def server_job_data_init_def server_job_data_validate_def server_job_build_def Let_def)
qed

text \<open>A client that frames the answer by its \<open>Content-Length\<close> finds exactly the body.\<close>

lemma json_answer_framed:
  assumes "code \<in> {200, 400}" "length body < 2 ^ 64"
  shows "\<exists>hl. find_body_start (json_answer code body) = Some hl \<and>
    server_parse_content_length (json_answer code body) hl = Inr (length body) \<and> drop hl (json_answer code body) = body"
proof -
  let ?pre = "[''HTTP/1.1 '' @ show_int code @ '' '' @ http_reason_phrase code, ''Content-Type: '' @ ''application/json; charset=utf-8'']"
  let ?ls = "?pre @ (''Content-Length: '' @ show_nat (length body)) # [''Connection: close'']"
  have "RETURN \<notin> set (show_nat n)" "NEWLINE \<notin> set (show_nat n)" for n using show_nat_digits[of n] by (auto simp: list_all_iff isdigit_def)
  then have ls: "list_all head_line ?ls" "?ls \<noteq> []" using assms(1) by (auto simp: head_line_def show_status http_reason_phrase_def)
  have "length_line (''HTTP/1.1 200 OK'') = None" "length_line (''HTTP/1.1 400 Bad Request'') = None"
    "length_line (''Content-Type: '' @ ''application/json; charset=utf-8'') = None" by code_simp+
  then have "\<forall>l\<in>set ?pre. length_line l = None" using assms(1) by (auto simp: show_status http_reason_phrase_def)
  from declared_length_show[OF this assms(2), of "[''Connection: close'']"]
  have "declared_length ?ls = Inr (length body)" .
  moreover have "json_answer code body = head_text ?ls @ body" by (simp add: json_answer_def response_header_head)
  ultimately show ?thesis using find_body_start_head[OF ls, of body] parse_content_length_head[OF ls, of body] by simp
qed

section \<open>Serving\<close>

definition memory_granted :: "request_world \<Rightarrow> bool" where
  "memory_granted world \<longleftrightarrow>
     heap_ok (world_heap (for_service world)) \<and> heap_total (world_heap (for_service world)) \<and> copy_granted (for_service world) \<and>
     tmpfile_ok (for_service world) \<and> stream_fault_at (for_service world) = None \<and>
     reply_granted world \<and> body_granted world \<and> response_granted world"

lemma text_fits_cstr: "text_fits (length s) \<Longrightarrow> length (cstr s) < 10 ^ 20 \<and> length (cstr s) < 2 ^ 64"
  using length_takeWhile_le[of "\<lambda>c. c \<noteq> NUL" s] by (simp add: text_fits_def cstr_def)

lemma served:
  assumes "post_ok path headers sql" "client_sends client (post_text path headers sql)" "server_ready d" "0 \<le> fd" "memory_granted world"
    and "sql_service_classify_operation (Some sql) = (operation, Inr u)" "operation \<noteq> SQL_OPERATION_UNKNOWN"
    and "sql_service h = Some s" "db_guard h \<noteq> None"
    and "sql_service_execute (for_service world) fs (Some s) (Some sql) = Some (s', fs', r, e)" "payload r = Some b" "cstring b" "length b < 10 ^ 20"
    and "delivers (outgoing client) (length (json_answer (if ok r then 200 else 400) b))"
  shows "serve_request world d fs h fd client = Some (Some (h\<lparr>sql_service := s'\<rparr>), fs', json_answer (if ok r then 200 else 400) b)"
proof -
  let ?code = "if ok r then 200 else 400 :: int"
  have sql: "sql \<noteq> []" using classified_not_blank[OF assms(6)] by (auto simp: is_blank_text_def)
  have g: "body_granted world" "response_granted world" "reply_granted world" using assms(5) by (simp_all add: memory_granted_def)
  obtain job data where job: "server_socket_handle_client d fd client = Some ([], [], Submits job)" "job_data job = Some data"
      "raw_request data = Some (post_text path headers sql)" "has_handler data" using client_read[OF assms(1-4)] by blast
  have "peek path = CHR ''/''" using assms(1) by (simp add: post_ok_def)
  note handled = handle_executed[OF assms(6-9) this sql assms(10,11) g(3)]
  have code: "?code \<in> {200, 400}" by simp
  obtain rest where "server_socket_write_all (outgoing client) (json_answer ?code b) = Some (rest, json_answer ?code b, True)"
    using write_all_delivers[OF assms(14)] by blast
  moreover have "cstr (json_answer ?code b) = json_answer ?code b"
    using cstring_response_header[OF code] assms(12) by (intro cstr_id) (simp add: json_answer_def)
  ultimately have "server_socket_process_request world fs (Some h) (outgoing client) (Some data) =
      Some (Some (h\<lparr>sql_service := s'\<rparr>), fs', rest, json_answer ?code b, [], True)"
    using job(3,4) post_parsed[OF assms(1) sql] post_text_cstring[OF assms(1)] g handled serialize_json[OF code refl assms(13)]
    by (simp add: server_socket_process_request_def json_answer_def)
  then show ?thesis using job(1,2) by (simp add: serve_request_def server_socket_execute_request_job_def)
qed

section \<open>A client\<close>

definition sample_client :: "string \<Rightarrow> client_io" where
  "sample_client t =
     \<lparr>set_nosigpipe = None, set_receive_timeout = None, set_send_timeout = None, initial_granted = True, buffer_grants = \<lambda>_. True,
      incoming = [Received (take 10 t), Recv_Interrupted, Received (drop 10 t)], outgoing = [Sent 10, Send_Interrupted, Sent 1000],
      job_granted = True\<rparr>"

lemma sample_client_sends: "10 < length t \<Longrightarrow> client_sends (sample_client t) t"
  by (auto simp: client_sends_def sample_client_def server_socket_disable_sigpipe_def)

lemma sample_client_receives: "n \<le> 1000 \<Longrightarrow> delivers (outgoing (sample_client t)) n"
proof (cases "n - 10")
  case 0
  then show ?thesis by (cases n) (simp_all add: sample_client_def)
next
  case (Suc k)
  moreover assume "n \<le> 1000"
  moreover obtain m where "n = Suc m" using Suc by (cases n) auto
  ultimately show ?thesis by (simp add: sample_client_def)
qed

lemma sample_post:
  assumes "cstring sql" "length sql \<le> 99"
  shows "post_ok ''/query'' [''Content-Length: '' @ show_nat (length sql)] sql" "10 < length (post_text ''/query'' [''Content-Length: '' @ show_nat (length sql)] sql)"
proof -
  let ?l = "''Content-Length: '' @ show_nat (length sql)"
  have none: "length_line (''POST'' @ '' '' @ ''/query'' @ '' '' @ ''HTTP/1.1'') = None" and tok: "http_token 128 ''/query''" by code_simp+
  have "RETURN \<notin> set (show_nat n)" "NEWLINE \<notin> set (show_nat n)" for n using show_nat_digits[of n] by (auto simp: list_all_iff isdigit_def)
  then have "head_line ?l" "cstring ?l" using cstring_digits[OF show_nat_digits] by (simp_all add: head_line_def)
  moreover have "length (show_nat (length sql)) \<le> 2" using assms(2) by (intro show_nat_length) auto
  moreover have "declared_length ((''POST'' @ '' '' @ ''/query'' @ '' '' @ ''HTTP/1.1'') # [?l]) = Inr (length sql)"
    using declared_length_show[of "[''POST'' @ '' '' @ ''/query'' @ '' '' @ ''HTTP/1.1'']" "length sql" "[]"] none assms(2) by simp
  ultimately show "post_ok ''/query'' [?l] sql" "10 < length (post_text ''/query'' [?l] sql)"
    using tok assms by (simp_all add: post_ok_def post_text_def head_text_def)
qed

end
