(* ===== verification/Cli.thy ===== *)
theory Cli
  imports Executor
begin

text \<open>
  \<^verbatim>\<open>src/runtime/cli.c\<close>, \<^verbatim>\<open>include/cli.h\<close> and \<^verbatim>\<open>src/runtime/main.c\<close>: the command line program. Its options, the
  parameter of a query, scripts of several statements, and the benchmark.

  A script is a buffer the program writes into. Two of the writes are visible here: the comments that
  become blanks, and the end of a statement; the NUL that \<open>trim_statement\<close> writes lies before the cursor and
  is never read again.
\<close>

section \<open>Options\<close>

record CliOptions =
  sql_path :: "string option"
  query_text :: "string option"
  param_value :: "string option"
  cli_db_root :: string
  bench_rows :: int
  explain :: bool

definition atol :: "string \<Rightarrow> int" where
  "atol s = fst (strtol s)"

function cli_args_loop :: "string list \<Rightarrow> CliOptions \<Rightarrow> CliOptions result" where
  "cli_args_loop [] options = Inr options"
| "cli_args_loop (arg # rest) options =
     (if arg = ''--sql'' \<and> rest \<noteq> [] then cli_args_loop (tl rest) (options\<lparr>sql_path := Some (hd rest)\<rparr>)
      else if arg = ''--query'' \<and> rest \<noteq> [] then cli_args_loop (tl rest) (options\<lparr>query_text := Some (hd rest)\<rparr>)
      else if arg = ''--param'' \<and> rest \<noteq> [] then cli_args_loop (tl rest) (options\<lparr>param_value := Some (hd rest)\<rparr>)
      else if arg = ''--db'' \<and> rest \<noteq> [] then cli_args_loop (tl rest) (options\<lparr>cli_db_root := hd rest\<rparr>)
      else if arg = ''--bench'' \<and> rest \<noteq> [] then cli_args_loop (tl rest) (options\<lparr>bench_rows := atol (hd rest)\<rparr>)
      else if arg = ''--explain'' then cli_args_loop rest (options\<lparr>explain := True\<rparr>)
      else fail (''unknown argument: '' @ arg))"
  by pat_completeness auto
termination cli_args_loop
  by (relation "measure (\<lambda>(args, _). length args)") auto

definition parse_cli_args :: "string list \<Rightarrow> CliOptions option \<Rightarrow> CliOptions result" where
  "parse_cli_args argv options =
     (case options of
        None \<Rightarrow> fail ''options must not be null''
      | Some opts \<Rightarrow>
          (case cli_args_loop (tl argv) (opts\<lparr>cli_db_root := ''./data''\<rparr>) of
             Inl e \<Rightarrow> Inl e
           | Inr opts \<Rightarrow>
               if sql_path opts \<noteq> None \<and> query_text opts \<noteq> None then fail ''--sql and --query cannot be used together''
               else if sql_path opts = None \<and> query_text opts = None \<and> bench_rows opts \<le> 0
               then fail ''either --sql, --query, or --bench must be provided''
               else Inr opts))"

section \<open>The parameter\<close>

definition is_quote :: "char \<Rightarrow> bool" where
  "is_quote c \<longleftrightarrow> c = SQUOTE \<or> c = DQUOTE"

text \<open>The loop over \<open>cursor\<close>: the number of bytes before the placeholder.\<close>

fun find_placeholder :: "string \<Rightarrow> char \<Rightarrow> nat \<Rightarrow> nat option" where
  "find_placeholder [] quote index = None"
| "find_placeholder (c # cursor) quote index =
     (if quote \<noteq> NUL then find_placeholder cursor (if c = quote then NUL else quote) (Suc index)
      else if is_quote c then find_placeholder cursor c (Suc index)
      else if c = CHR ''?'' then Some index
      else find_placeholder cursor quote (Suc index))"

definition apply_single_param :: "bool \<Rightarrow> string option \<Rightarrow> string option \<Rightarrow> string result" where
  "apply_single_param malloc_granted sql_text param =
     (case (sql_text, param) of
        (Some source, Some p) \<Rightarrow>
          (case find_placeholder source NUL 0 of
             None \<Rightarrow> fail ''--param was provided but no '?' placeholder was found''
           | Some prefix_length \<Rightarrow>
               if \<not> malloc_granted then fail ''failed to allocate resolved query''
               else Inr (take prefix_length source @ p @ drop (Suc prefix_length) source))
      | _ \<Rightarrow> fail ''apply_single_param received invalid arguments'')"

section \<open>Scripts\<close>

definition trim_statement :: "string \<Rightarrow> string" where
  "trim_statement statement = trim statement"

function strip_line_comments :: "string \<Rightarrow> char \<Rightarrow> string" where
  "strip_line_comments [] quote = []"
| "strip_line_comments (c # cursor) quote =
     (if quote \<noteq> NUL then c # strip_line_comments cursor (if c = quote then NUL else quote)
      else if is_quote c then c # strip_line_comments cursor c
      else if c = CHR ''-'' \<and> peek cursor = CHR ''-''
      then let comment = takeWhile (\<lambda>c. c \<noteq> NEWLINE) (c # cursor); rest = dropWhile (\<lambda>c. c \<noteq> NEWLINE) (c # cursor) in
        replicate (length comment) (CHR '' '') @ (if rest = [] then [] else NEWLINE # strip_line_comments (tl rest) quote)
      else c # strip_line_comments cursor quote)"
  by pat_completeness auto
termination strip_line_comments
proof (relation "measure (\<lambda>(s, _). length s)", goal_cases)
  case (4 c cursor quote comment rest)
  then show ?case using length_dropWhile_le[of "\<lambda>c. c \<noteq> NEWLINE" cursor] by (auto simp: less_Suc_eq_le)
qed auto

definition free_query :: "Query option \<Rightarrow> Query option" where
  "free_query query =
     (case query of
        None \<Rightarrow> None
      | Some q \<Rightarrow> Some (q\<lparr>table_name := None, query_values := [], has_condition := False,
          condition := (condition q)\<lparr>condition_column := None, condition_value := (condition_value (condition q))\<lparr>raw := None\<rparr>\<rparr>\<rparr>))"

text \<open>One statement of a script: whether there was one, and the result of running it.\<close>

definition run_statement ::
  "allocator \<Rightarrow> filesystem \<Rightarrow> DbContext \<Rightarrow> string \<Rightarrow> string \<Rightarrow> (DbContext \<times> filesystem \<times> string \<times> bool \<times> unit result) option" where
  "run_statement al fs ctx out text =
     (let statement = trim_statement text in
      if statement = [] then Some (ctx, fs, out, False, Inr ())
      else (case parse_sql_text (Some statement) (Some zeroed_query) of
              (query, Inl e) \<Rightarrow> Some (ctx, fs, out, True, Inl e)
            | (query, Inr _) \<Rightarrow> do {
                (ctx, fs, out, res) \<leftarrow> execute_query al fs query (Some ctx) (Some out);
                Some (the ctx, fs, the out, True, res) }))"

text \<open>The loop over \<open>cursor\<close>; \<open>statement\<close> is the text from \<open>statement_start\<close> to the cursor.\<close>

fun script_loop ::
  "allocator \<Rightarrow> filesystem \<Rightarrow> DbContext \<Rightarrow> string \<Rightarrow> bool \<Rightarrow> string \<Rightarrow> string \<Rightarrow> char \<Rightarrow>
     (DbContext \<times> filesystem \<times> string \<times> unit result) option" where
  "script_loop al fs ctx out executed_any statement [] quote = do {
     (ctx, fs, out, executed, res) \<leftarrow> run_statement al fs ctx out statement;
     Some (ctx, fs, out,
       (case res of Inl e \<Rightarrow> Inl e | Inr _ \<Rightarrow> if \<not> (executed_any \<or> executed) then fail ''sql must not be empty'' else Inr ())) }"
| "script_loop al fs ctx out executed_any statement (c # cursor) quote =
     (if quote \<noteq> NUL
      then script_loop al fs ctx out executed_any (statement @ [c]) cursor (if c = quote then NUL else quote)
      else if is_quote c then script_loop al fs ctx out executed_any (statement @ [c]) cursor c
      else if c = CHR '';''
      then do {
        (ctx, fs, out, executed, res) \<leftarrow> run_statement al fs ctx out statement;
        (case res of
           Inl e \<Rightarrow> Some (ctx, fs, out, Inl e)
         | Inr _ \<Rightarrow> script_loop al fs ctx out (executed_any \<or> executed) [] cursor quote) }
      else script_loop al fs ctx out executed_any (statement @ [c]) cursor quote)"

definition execute_sql_script ::
  "allocator \<Rightarrow> filesystem \<Rightarrow> DbContext \<Rightarrow> string \<Rightarrow> string \<Rightarrow> (DbContext \<times> filesystem \<times> string \<times> unit result) option" where
  "execute_sql_script al fs ctx out sql_text = script_loop al fs ctx out False [] (strip_line_comments sql_text NUL) NUL"

section \<open>The benchmark\<close>

text \<open>
  What \<^verbatim>\<open>%.3f\<close> prints for the measured times and for the average of the steps is a parameter; everything
  that is counted is computed. An access outside a row or an overflow of a counter is the value \<open>None\<close>.
\<close>

record bench_texts =
  load_build_ms :: string
  average_linear_steps :: string
  index_ms :: string
  linear_ms :: string
  speedup_ratio :: string

definition probe_row :: "TableState \<Rightarrow> int \<Rightarrow> Row option" where
  "probe_row table iteration =
     (let row_count = int (length (rows (ts_rowset table))); probe_stride = (if row_count > 1 then row_count - 1 else 1) in
      if iteration * probe_stride \<ge> 2 ^ 63 then None
      else arr_get (rows (ts_rowset table)) (nat (iteration * probe_stride mod row_count)))"

definition probe_index :: "TableState \<Rightarrow> Row \<Rightarrow> bool option" where
  "probe_index table row =
     (if primary_key_index (ts_schema table) < 0 then None
      else do {
        field \<leftarrow> arr_get (row_fields row) (nat (primary_key_index (ts_schema table)));
        (found, row_index) \<leftarrow> bptree_search (ts_index table) (atoi field);
        Some (found \<and> row_index \<ge> 0) })"

text \<open>The scan for a name: the index of the first row that has it.\<close>

fun linear_scan :: "Row list \<Rightarrow> string \<Rightarrow> nat \<Rightarrow> nat option option" where
  "linear_scan [] probe_name scan_index = Some None"
| "linear_scan (row # rs) probe_name scan_index = do {
     field \<leftarrow> arr_get (row_fields row) 1;
     (if field = probe_name then Some (Some scan_index) else linear_scan rs probe_name (Suc scan_index)) }"

definition up_to :: "int \<Rightarrow> int \<Rightarrow> int option" where
  "up_to bound n = (if n \<le> bound then Some n else None)"

fun warm_loop :: "TableState \<Rightarrow> nat \<Rightarrow> int \<Rightarrow> unit option" where
  "warm_loop table 0 iteration = Some ()"
| "warm_loop table (Suc n) iteration = do {
     row \<leftarrow> probe_row table iteration;
     probe_name \<leftarrow> arr_get (row_fields row) 1;
     _ \<leftarrow> probe_index table row;
     _ \<leftarrow> linear_scan (rows (ts_rowset table)) probe_name 0;
     warm_loop table n (iteration + 1) }"

fun index_loop :: "TableState \<Rightarrow> nat \<Rightarrow> int \<Rightarrow> int \<Rightarrow> int option" where
  "index_loop table 0 iteration index_hits = Some index_hits"
| "index_loop table (Suc n) iteration index_hits = do {
     row \<leftarrow> probe_row table iteration;
     hit \<leftarrow> probe_index table row;
     index_hits \<leftarrow> up_to INT_MAX (if hit then index_hits + 1 else index_hits);
     index_loop table n (iteration + 1) index_hits }"

text \<open>The counters are \<open>linear_hits\<close>, \<open>linear_steps\<close> and \<open>max_linear_steps\<close>.\<close>

fun linear_loop :: "TableState \<Rightarrow> nat \<Rightarrow> int \<Rightarrow> int \<Rightarrow> int \<Rightarrow> int \<Rightarrow> (int \<times> int \<times> int) option" where
  "linear_loop table 0 iteration linear_hits linear_steps max_linear_steps = Some (linear_hits, linear_steps, max_linear_steps)"
| "linear_loop table (Suc n) iteration linear_hits linear_steps max_linear_steps = do {
     row \<leftarrow> probe_row table iteration;
     probe_name \<leftarrow> arr_get (row_fields row) 1;
     found \<leftarrow> linear_scan (rows (ts_rowset table)) probe_name 0;
     (case found of
        None \<Rightarrow> do {
          linear_steps \<leftarrow> up_to (2 ^ 63 - 1) (linear_steps + int (length (rows (ts_rowset table))));
          linear_loop table n (iteration + 1) linear_hits linear_steps max_linear_steps }
      | Some scan_index \<Rightarrow> do {
          linear_steps \<leftarrow> up_to (2 ^ 63 - 1) (linear_steps + int scan_index + 1);
          linear_hits \<leftarrow> up_to INT_MAX (linear_hits + 1);
          linear_loop table n (iteration + 1) linear_hits linear_steps (max max_linear_steps (int scan_index + 1)) }) }"

definition bench_report :: "bench_texts \<Rightarrow> int \<Rightarrow> int \<Rightarrow> int \<Rightarrow> int \<Rightarrow> int \<Rightarrow> int \<Rightarrow> string" where
  "bench_report texts row_count iterations index_hits linear_hits distinct_probes max_linear_steps =
     ''benchmark rows='' @ show_int row_count @ '' iterations='' @ show_int iterations @ [NEWLINE] @
     ''load_build_ms='' @ load_build_ms texts @ [NEWLINE] @
     ''index_hits='' @ show_int index_hits @ [NEWLINE] @
     ''linear_hits='' @ show_int linear_hits @ [NEWLINE] @
     ''distinct_probes='' @ show_int distinct_probes @ [NEWLINE] @
     ''avg_linear_steps='' @ average_linear_steps texts @ [NEWLINE] @
     ''max_linear_steps='' @ show_int max_linear_steps @ [NEWLINE] @
     ''index_ms='' @ index_ms texts @ [NEWLINE] @
     ''linear_ms='' @ linear_ms texts @ [NEWLINE] @
     ''speedup_ratio='' @ speedup_ratio texts @ [NEWLINE]"

definition run_benchmark ::
  "bench_texts \<Rightarrow> allocator \<Rightarrow> filesystem \<Rightarrow> DbContext \<Rightarrow> int \<Rightarrow> string \<Rightarrow> (DbContext \<times> string \<times> unit result) option" where
  "run_benchmark texts al fs ctx iterations out = do {
     (ctx, res) \<leftarrow> db_context_get_table al fs ctx (Some ''users'');
     (case res of
        Inl e \<Rightarrow> Some (ctx, out, Inl e)
      | Inr i \<Rightarrow>
          (let table = ctx_tables ctx ! i; row_count = int (length (rows (ts_rowset table))) in
           if row_count = 0
           then Some (ctx, out @ bench_report (texts\<lparr>average_linear_steps := ''0.000'', index_ms := ''0.000'', linear_ms := ''0.000'',
                                                      speedup_ratio := ''0.000''\<rparr>) 0 iterations 0 0 0 0, Inr ())
           else do {
             _ \<leftarrow> warm_loop table (nat (min iterations row_count)) 0;
             index_hits \<leftarrow> index_loop table (nat iterations) 0 0;
             (linear_hits, linear_steps, max_linear_steps) \<leftarrow> linear_loop table (nat iterations) 0 0 0 0;
             Some (ctx, out @ bench_report texts row_count iterations index_hits linear_hits (to_int32 (min iterations row_count)) max_linear_steps,
                   Inr ()) })) }"

section \<open>The program\<close>

definition print_usage :: "string \<Rightarrow> string" where
  "print_usage program_name =
     ''usage: '' @ program_name @ '' --sql query.sql [--db ./data] [--explain]'' @ [NEWLINE] @
     ''       '' @ program_name @ '' --query '' @ [DQUOTE] @ ''SELECT * FROM users;'' @ [DQUOTE] @ '' [--param 2] [--db ./data] [--explain]'' @ [NEWLINE] @
     ''       '' @ program_name @ '' --bench 1000000 [--db ./data]'' @ [NEWLINE]"

definition error_line :: "SqlError \<Rightarrow> string" where
  "error_line e = ''error: '' @ message e @ [NEWLINE]"

definition zeroed_options :: CliOptions where
  "zeroed_options = \<lparr>sql_path = None, query_text = None, param_value = None, cli_db_root = [], bench_rows = 0, explain = False\<rparr>"

record cli_world =
  cli_allocator :: allocator
  query_granted :: bool
  param_granted :: bool
  cli_texts :: bench_texts

text \<open>The text of the script: the query of the command line or the file, with the parameter put in.\<close>

definition script_text :: "cli_world \<Rightarrow> filesystem \<Rightarrow> CliOptions \<Rightarrow> string result" where
  "script_text world fs options =
     (case (if query_text options \<noteq> None
            then if \<not> query_granted world then fail ''failed to allocate query text'' else Inr (the (query_text options))
            else sql_read_text_file fs (sql_path options)) of
        Inl e \<Rightarrow> Inl e
      | Inr sql_text \<Rightarrow>
          if param_value options \<noteq> None then apply_single_param (param_granted world) (Some sql_text) (param_value options)
          else Inr sql_text)"

text \<open>The files, standard output, standard error and the exit status.\<close>

definition exit_with :: "filesystem \<Rightarrow> DbContext \<Rightarrow> string \<Rightarrow> unit result \<Rightarrow> (filesystem \<times> string \<times> string \<times> int) option" where
  "exit_with fs ctx out res = do {
     _ \<leftarrow> db_context_destroy (Some ctx);
     Some (case res of Inl e \<Rightarrow> (fs, out, error_line e, 1) | Inr _ \<Rightarrow> (fs, out, [], 0)) }"

definition cli_main :: "cli_world \<Rightarrow> filesystem \<Rightarrow> string list \<Rightarrow> (filesystem \<times> string \<times> string \<times> int) option" where
  "cli_main world fs argv =
     (case parse_cli_args argv (Some zeroed_options) of
        Inl e \<Rightarrow> Some (fs, [], print_usage (hd argv) @ error_line e, 1)
      | Inr options \<Rightarrow>
          (case db_context_create (cli_allocator world) (Some (cli_db_root options)) of
             Inl e \<Rightarrow> Some (fs, [], error_line e, 1)
           | Inr ctx \<Rightarrow>
               if bench_rows options > 0
               then do {
                 (ctx, out, res) \<leftarrow> run_benchmark (cli_texts world) (cli_allocator world) fs ctx (bench_rows options) [];
                 exit_with fs ctx out res }
               else (case script_text world fs options of
                       Inl e \<Rightarrow> exit_with fs ctx [] (Inl e)
                     | Inr sql_text \<Rightarrow> do {
                         (ctx, fs, out, res) \<leftarrow> execute_sql_script (cli_allocator world) fs ctx [] sql_text;
                         exit_with fs ctx out res })))"

section \<open>Quotes\<close>

text \<open>The quote that is open after a text, when the text has no semicolon, hyphen or question mark outside quotes.\<close>

fun quote_after :: "string \<Rightarrow> char \<Rightarrow> char option" where
  "quote_after [] quote = Some quote"
| "quote_after (c # s) quote =
     (if quote \<noteq> NUL then quote_after s (if c = quote then NUL else quote)
      else if is_quote c then quote_after s c
      else if c \<in> {CHR '';'', CHR ''-'', CHR ''?''} then None
      else quote_after s NUL)"

lemma quote_after_append [simp]: "quote_after (s @ t) quote = Option.bind (quote_after s quote) (quote_after t)"
  by (induction s quote rule: quote_after.induct) auto

lemma quote_after_plain: "list_all (\<lambda>c. \<not> is_quote c \<and> c \<notin> {CHR '';'', CHR ''-'', CHR ''?''}) s \<Longrightarrow> quote_after s NUL = Some NUL"
  by (induction s) auto

lemma quote_after_quoted: "quote \<noteq> NUL \<Longrightarrow> quote \<notin> set v \<Longrightarrow> quote_after v quote = Some quote"
  by (induction v) auto

lemma strip_quote_after: "quote_after s quote = Some quote' \<Longrightarrow> strip_line_comments (s @ r) quote = s @ strip_line_comments r quote'"
  by (induction s quote rule: quote_after.induct) (auto split: if_splits)

lemma script_quote_after:
  "quote_after s quote = Some quote' \<Longrightarrow>
     script_loop al fs ctx out executed statement (s @ r) quote = script_loop al fs ctx out executed (statement @ s) r quote'"
  by (induction s quote arbitrary: statement rule: quote_after.induct) (auto split: if_splits)

lemma placeholder_quote_after:
  "quote_after s quote = Some NUL \<Longrightarrow> find_placeholder (s @ CHR ''?'' # r) quote i = Some (i + length s)"
proof (induction s quote arbitrary: i rule: quote_after.induct)
  case (1 quote)
  then show ?case by (simp add: is_quote_def)
qed (auto split: if_splits)

text \<open>The parameter replaces the first question mark that is outside quotes.\<close>

lemma apply_param_replaces:
  "quote_after s NUL = Some NUL \<Longrightarrow> apply_single_param True (Some (s @ CHR ''?'' # r)) (Some p) = Inr (s @ p @ r)"
  using placeholder_quote_after[of s NUL r 0] by (simp add: apply_single_param_def)

section \<open>Statements of a script\<close>

datatype statement = Select_Statement string "(string \<times> string) option" | Insert_Statement string "string list"

fun show_statement :: "statement \<Rightarrow> string" where
  "show_statement (Select_Statement t cond) = show_select t cond"
| "show_statement (Insert_Statement t vs) = show_insert t vs"

fun statement_query :: "statement \<Rightarrow> Query" where
  "statement_query (Select_Statement t cond) = select_query t cond"
| "statement_query (Insert_Statement t vs) = insert_query t vs"

fun statement_ok :: "statement \<Rightarrow> bool" where
  "statement_ok (Select_Statement t cond) = (sql_identifier t \<and> (case cond of None \<Rightarrow> True | Some (c, v) \<Rightarrow> sql_identifier c \<and> quotable v))"
| "statement_ok (Insert_Statement t vs) = (sql_identifier t \<and> vs \<noteq> [] \<and> list_all quotable vs)"

text \<open>Running queries one after the other, up to the first that fails.\<close>

fun run_queries ::
  "allocator \<Rightarrow> filesystem \<Rightarrow> DbContext \<Rightarrow> string \<Rightarrow> Query list \<Rightarrow> (DbContext \<times> filesystem \<times> string \<times> unit result) option" where
  "run_queries al fs ctx out [] = Some (ctx, fs, out, Inr ())"
| "run_queries al fs ctx out (q # qs) = do {
     (ctx, fs, out, res) \<leftarrow> execute_query al fs (Some q) (Some ctx) (Some out);
     (case res of Inl e \<Rightarrow> Some (the ctx, fs, the out, Inl e) | Inr _ \<Rightarrow> run_queries al fs (the ctx) (the out) qs) }"

text \<open>A script: every statement on a line of its own, after a line with a comment.\<close>

fun script_of :: "(string \<times> statement) list \<Rightarrow> string" where
  "script_of [] = []"
| "script_of ((comment, st) # sts) = ''--'' @ comment @ [NEWLINE] @ show_statement st @ '';'' @ [NEWLINE] @ script_of sts"

lemma identifier_plain: "sql_identifier t \<Longrightarrow> quote_after t NUL = Some NUL"
  by (rule quote_after_plain)
    (auto simp: sql_identifier_def list_all_iff is_identifier_char_def isalnum_def isdigit_def isupper_def islower_def is_quote_def)

lemma value_plain: "quotable v \<Longrightarrow> quote_after (show_value v) NUL = Some NUL"
  by (auto simp: show_value_def quotable_def is_quote_def quote_after_quoted)

lemma values_plain: "list_all quotable vs \<Longrightarrow> quote_after (show_values vs) NUL = Some NUL"
  by (induction vs rule: show_values.induct) (auto simp: value_plain is_quote_def)

lemma statement_plain: "statement_ok st \<Longrightarrow> quote_after (show_statement st) NUL = Some NUL"
proof (cases st)
  case (Select_Statement t cond)
  moreover assume "statement_ok st"
  ultimately show ?thesis
    by (cases cond) (simp_all add: show_select_def is_quote_def identifier_plain value_plain split: prod.splits)
next
  case (Insert_Statement t vs)
  moreover assume "statement_ok st"
  ultimately show ?thesis by (simp add: show_insert_def is_quote_def identifier_plain values_plain)
qed

lemma values_last: "vs \<noteq> [] \<Longrightarrow> \<exists>u. show_values vs = u @ '')''"
proof (induction vs rule: show_values.induct)
  case (3 v w vs)
  then obtain u where "show_values (w # vs) = u @ '')''" by blast
  then show ?case by simp
qed auto

lemma identifier_char_visible: "is_identifier_char c \<Longrightarrow> \<not> isspace c"
  by (auto simp: is_identifier_char_def isalnum_def isdigit_def isupper_def islower_def isspace_def)

lemma identifier_last: "sql_identifier t \<Longrightarrow> t \<noteq> [] \<and> \<not> isspace (last t)"
  using last_in_set[of t] identifier_char_visible by (auto simp: sql_identifier_def list_all_iff)

lemma value_last: "show_value v \<noteq> [] \<and> \<not> isspace (last (show_value v))"
  by (simp add: show_value_def isspace_def)

lemma statement_ends: "statement_ok st \<Longrightarrow> show_statement st \<noteq> [] \<and> \<not> isspace (hd (show_statement st)) \<and> \<not> isspace (last (show_statement st))"
proof (cases st)
  case (Select_Statement t cond)
  moreover assume "statement_ok st"
  moreover have "\<not> isspace (CHR ''S'')" by (simp add: isspace_def)
  ultimately show ?thesis using identifier_last[of t] value_last by (cases cond) (auto simp: show_select_def)
next
  case (Insert_Statement t vs)
  moreover assume "statement_ok st"
  moreover from calculation obtain u where "show_values vs = u @ '')''" using values_last[of vs] by auto
  ultimately show ?thesis by (simp add: show_insert_def isspace_def)
qed

lemma statement_parses: "statement_ok st \<Longrightarrow> parse_sql_text (Some (show_statement st)) (Some zeroed_query) = (Some (statement_query st), Inr ())"
proof (cases st)
  case (Select_Statement t cond)
  have "quotable ''x''" by code_simp
  moreover assume "statement_ok st"
  ultimately show ?thesis using Select_Statement parse_printed[of t cond "[''x'']" zeroed_query] by (cases cond) auto
next
  case (Insert_Statement t vs)
  moreover assume "statement_ok st"
  ultimately show ?thesis using parse_printed[of t None vs zeroed_query] by (auto simp: list_all_iff)
qed

lemma run_printed_statement:
  assumes "statement_ok st" "list_all isspace ws"
  shows "run_statement al fs ctx out (ws @ show_statement st) = do {
    (ctx, fs, out, res) \<leftarrow> execute_query al fs (Some (statement_query st)) (Some ctx) (Some out);
    Some (the ctx, fs, the out, True, res) }"
proof -
  note e = statement_ends[OF assms(1)]
  have "dropWhile isspace (ws @ show_statement st) = dropWhile isspace (show_statement st)" using assms(2) by (simp add: list_all_iff)
  then have "trim (ws @ show_statement st) = trim (show_statement st)" by (simp add: trim_def)
  also have "\<dots> = show_statement st" using e by (intro trim_id) auto
  finally show ?thesis using e statement_parses[OF assms(1)] by (simp add: run_statement_def trim_statement_def)
qed

lemma strip_comment:
  assumes "NEWLINE \<notin> set comment"
  shows "strip_line_comments (''--'' @ comment @ [NEWLINE] @ r) NUL = replicate (length comment + 2) (CHR '' '') @ [NEWLINE] @ strip_line_comments r NUL"
proof -
  have "takeWhile (\<lambda>c. c \<noteq> NEWLINE) (''--'' @ comment @ [NEWLINE] @ r) = ''--'' @ comment"
    "dropWhile (\<lambda>c. c \<noteq> NEWLINE) (''--'' @ comment @ [NEWLINE] @ r) = NEWLINE # r"
    using assms by (auto simp: takeWhile_append dropWhile_append)
  then show ?thesis by (simp add: is_quote_def Let_def)
qed

lemma script_loop_statements:
  assumes "\<forall>(comment, st)\<in>set sts. NEWLINE \<notin> set comment \<and> statement_ok st" "list_all isspace ws"
  shows "script_loop al fs ctx out executed ws (strip_line_comments (script_of sts) NUL) NUL =
    (if sts = [] \<and> \<not> executed then Some (ctx, fs, out, fail ''sql must not be empty'')
     else run_queries al fs ctx out (map (statement_query \<circ> snd) sts))"
  using assms
proof (induction sts arbitrary: fs ctx out executed ws rule: script_of.induct)
  case 1
  then have "dropWhile isspace ws = []" by (simp add: list_all_iff)
  then have "trim_statement ws = []" by (simp only: trim_statement_def trim_def rev.simps dropWhile.simps)
  then show ?case by (simp add: run_statement_def)
next
  case (2 comment st sts)
  let ?b = "replicate (length comment + 2) (CHR '' '') @ [NEWLINE]"
  have st: "statement_ok st" and nl: "NEWLINE \<notin> set comment" using 2(2) by auto
  have q: "quote_after ?b NUL = Some NUL" by (rule quote_after_plain) (auto simp: is_quote_def list_all_iff)
  have "isspace (CHR '' '')" "isspace NEWLINE" by (simp_all add: isspace_def)
  then have sp: "list_all isspace (ws @ ?b)" using 2(3) by (auto simp: list_all_iff)
  have tail: "strip_line_comments (show_statement st @ '';'' @ [NEWLINE] @ script_of sts) NUL =
      show_statement st @ '';'' @ [NEWLINE] @ strip_line_comments (script_of sts) NUL"
    using strip_quote_after[OF statement_plain[OF st], of "'';'' @ [NEWLINE] @ script_of sts"] by (simp add: is_quote_def)
  have "strip_line_comments (script_of ((comment, st) # sts)) NUL =
      ?b @ show_statement st @ '';'' @ [NEWLINE] @ strip_line_comments (script_of sts) NUL"
    using strip_comment[OF nl, of "show_statement st @ '';'' @ [NEWLINE] @ script_of sts"] unfolding tail script_of.simps by simp
  then have "script_loop al fs ctx out executed ws (strip_line_comments (script_of ((comment, st) # sts)) NUL) NUL =
      script_loop al fs ctx out executed ((ws @ ?b) @ show_statement st) (CHR '';'' # NEWLINE # strip_line_comments (script_of sts) NUL) NUL"
    using script_quote_after[OF q] script_quote_after[OF statement_plain[OF st]] by simp
  also have "\<dots> = do {
      (ctx, fs, out, res) \<leftarrow> execute_query al fs (Some (statement_query st)) (Some ctx) (Some out);
      (case res of
         Inl e \<Rightarrow> Some (the ctx, fs, the out, Inl e)
       | Inr _ \<Rightarrow> script_loop al fs (the ctx) (the out) True [NEWLINE] (strip_line_comments (script_of sts) NUL) NUL) }"
    using run_printed_statement[OF st sp, of al fs ctx out]
    by (cases "execute_query al fs (Some (statement_query st)) (Some ctx) (Some out)") (auto simp: is_quote_def split: sum.splits)
  also have "\<dots> = run_queries al fs ctx out (map (statement_query \<circ> snd) ((comment, st) # sts))"
    using 2(1)[where ws = "[NEWLINE]" and executed = True] 2(2) \<open>isspace NEWLINE\<close> by (simp cong: sum.case_cong)
  finally show ?case by simp
qed

section \<open>Properties\<close>

text \<open>
  C13. A script runs its statements in order: for every non-empty list of SELECT and INSERT statements, their
  values free to contain semicolons, hyphens and one kind of quote, each under a comment line of any text,
  the script leaves the context, the files and the output that running the parsed queries one after the
  other up to the first failure leaves. The program started on this script with \<^verbatim>\<open>--query\<close> prints exactly
  that output and exits with 0, or with 1 and the error message.
\<close>

theorem script_runs_statements:
  assumes "sts \<noteq> []" "\<forall>(comment, st)\<in>set sts. NEWLINE \<notin> set comment \<and> cstring comment \<and> statement_ok st"
    and "context_granted (cli_allocator world)" "query_granted world"
  shows "execute_sql_script al fs ctx out (script_of sts) = run_queries al fs ctx out (map (statement_query \<circ> snd) sts) \<and>
    cli_main world fs [program_name, ''--db'', db_root, ''--query'', script_of sts] = do {
      (ctx, fs, out, res) \<leftarrow> run_queries (cli_allocator world) fs \<lparr>ctx_db_root = take (SQL_PATH_BUFFER_SIZE - 1) db_root, ctx_tables = []\<rparr> []
        (map (statement_query \<circ> snd) sts);
      exit_with fs ctx out res }"
proof -
  have run: "execute_sql_script al fs ctx out (script_of sts) = run_queries al fs ctx out (map (statement_query \<circ> snd) sts)" for al fs ctx out
    using script_loop_statements[of sts "[]" al fs ctx out False] assms(1,2) by (auto simp: execute_sql_script_def)
  have "parse_cli_args [program_name, ''--db'', db_root, ''--query'', script_of sts] (Some zeroed_options) =
      Inr (zeroed_options\<lparr>cli_db_root := db_root, query_text := Some (script_of sts)\<rparr>)"
    by (simp add: parse_cli_args_def zeroed_options_def)
  then show ?thesis using run assms(3,4)
    by (simp add: cli_main_def db_context_create_def script_text_def zeroed_options_def)
qed

theorem script_runs_statements_witness:
  "\<exists>t fs' ctx'. sample_table_facts t \<and>
     script_of [('' it's new; '', Insert_Statement ''users'' [''Bob'']), ('''', Select_Statement ''users'' (Some (''id'', ''2'')))] =
       ''-- it's new; '' @ [NEWLINE] @ ''INSERT INTO users VALUES ('Bob');'' @ [NEWLINE] @ ''--'' @ [NEWLINE] @
       ''SELECT * FROM users WHERE id = '2';'' @ [NEWLINE] \<and>
     execute_sql_script (sample_allocator 20) sample_files (sample_context t) []
       (script_of [('' it's new; '', Insert_Statement ''users'' [''Bob'']), ('''', Select_Statement ''users'' (Some (''id'', ''2'')))]) =
     Some (ctx', fs', ''INSERT 1'' @ [NEWLINE] @ ''id,name'' @ [NEWLINE] @ ''2,Bob'' @ [NEWLINE], Inr ())"
proof -
  let ?sts = "[('' it's new; '', Insert_Statement ''users'' [''Bob'']), ('''', Select_Statement ''users'' (Some (''id'', ''2'')))]"
  let ?q = "select_query ''users'' (Some (''id'', ''2''))" and ?al = "sample_allocator 20" and ?out = "''INSERT 1'' @ [NEWLINE]"
  obtain t where t: "sample_table_facts t" using sample_table_exists by blast
  note f = sample_insert[OF t]
  have v: "is_integer_string ''2''" "atoi ''2'' = row_id (ts_schema t) \<lparr>row_fields = insert_row (insert_query ''users'' [''Bob'']) t\<rparr>"
    unfolding f(1,9) by code_simp+
  have len: "length ''users'' \<le> 255" by simp
  obtain fs' t' ctx' where ctx': "ctx' = (sample_context t)\<lparr>ctx_tables := (ctx_tables (sample_context t))[0 := t']\<rparr>"
      "execute_query ?al sample_files (Some (insert_query ''users'' [''Bob''])) (Some (sample_context t)) (Some []) = Some (Some ctx', fs', Some ([] @ ?out), Inr ())"
      "table_ok t'" "row_added t (insert_row (insert_query ''users'' [''Bob'']) t) t'" "0 < length (ctx_tables (sample_context t))"
      "db_context_get_table ?al fs' ctx' (Some ''users'') = Some (ctx', Inr 0)"
      "selected_rows ?q t' = [\<lparr>row_fields = insert_row (insert_query ''users'' [''Bob'']) t\<rparr>]" "condition_error ?q (ts_schema t') = None"
    using insert_then_lookup[OF sample_context_facts(1)[OF t] f(5,6) len sample_context_facts(2)[OF t] f(8)[symmetric] f(2,3,4,7) v, of "[]"] by blast
  have tx: "header_text sample_schema @ row_text \<lparr>row_fields = [''2'', ''Bob'']\<rparr> = ''id,name'' @ [NEWLINE] @ ''2,Bob'' @ [NEWLINE]" by code_simp
  have "execute_select ?al fs' ?q ctx' ?out = Some (ctx', ?out @ header_text sample_schema @ row_text \<lparr>row_fields = [''2'', ''Bob'']\<rparr>, Inr ())"
    using execute_select_outcome[of ?al fs' ctx' ?q ctx' 0 "''id''" "''2''" ?out] ctx' f(1,9)
    by (simp add: result_text_def row_added_def select_query_def)
  then have "execute_query ?al fs' (Some ?q) (Some ctx') (Some ?out) = Some (Some ctx', fs', Some (?out @ ''id,name'' @ [NEWLINE] @ ''2,Bob'' @ [NEWLINE]), Inr ())"
    unfolding tx by (simp add: execute_query_def) (simp add: select_query_def)
  then have run: "run_queries ?al sample_files (sample_context t) [] (map (statement_query \<circ> snd) ?sts) =
      Some (ctx', fs', ?out @ ''id,name'' @ [NEWLINE] @ ''2,Bob'' @ [NEWLINE], Inr ())"
    using ctx'(2) by simp
  have ok: "\<forall>(comment, st)\<in>set ?sts. NEWLINE \<notin> set comment \<and> cstring comment \<and> statement_ok st" by code_simp
  have shown: "script_of ?sts = ''-- it's new; '' @ [NEWLINE] @ ''INSERT INTO users VALUES ('Bob');'' @ [NEWLINE] @ ''--'' @ [NEWLINE] @
       ''SELECT * FROM users WHERE id = '2';'' @ [NEWLINE]" by code_simp
  let ?w = "\<lparr>cli_allocator = ?al, query_granted = True, param_granted = True, cli_texts = \<lparr>load_build_ms = [], average_linear_steps = [],
      index_ms = [], linear_ms = [], speedup_ratio = []\<rparr>\<rparr>"
  have "execute_sql_script ?al sample_files (sample_context t) [] (script_of ?sts) =
      run_queries ?al sample_files (sample_context t) [] (map (statement_query \<circ> snd) ?sts)"
    using script_runs_statements[OF _ ok, of ?w ?al sample_files "sample_context t" "[]"] by (simp add: sample_allocator_def)
  then show ?thesis using t shown run by (intro exI[of _ t] exI[of _ fs'] exI[of _ ctx']) simp
qed

section \<open>What the benchmark counts\<close>

lemma linear_scan_finds:
  assumes "\<forall>r\<in>set rs. 2 \<le> length (row_fields r)" "row \<in> set rs"
  shows "\<exists>k<length rs. linear_scan rs (row_fields row ! 1) i = Some (Some (i + k))"
  using assms
proof (induction rs arbitrary: i)
  case (Cons r rs)
  show ?case
  proof (cases "row_fields r ! 1 = row_fields row ! 1")
    case False
    then have "row \<in> set rs" using Cons.prems(2) by auto
    then obtain k where "k < length rs" "linear_scan rs (row_fields row ! 1) (Suc i) = Some (Some (Suc i + k))"
      using Cons.IH[of "Suc i"] Cons.prems(1) by auto
    then show ?thesis using False Cons.prems(1) by (intro exI[of _ "Suc k"]) (simp add: arr_get_def)
  qed (use Cons.prems in \<open>auto simp: arr_get_def intro!: exI[of _ 0]\<close>)
qed simp

text \<open>A row of a well-formed table: the index finds its key.\<close>

lemma probe_index_hits:
  assumes "table_ok t" "row \<in> set (rows (ts_rowset t))"
  shows "probe_index t row = Some True"
proof -
  let ?k = "row_id (ts_schema t) row"
  have pk: "0 \<le> primary_key_index (ts_schema t)" "nat (primary_key_index (ts_schema t)) < length (row_fields row)"
    using assms by (auto simp: table_ok_def row_valid_def dest!: bspec list_all2_lengthD)
  have "?k \<in> set (table_ids t)" using assms(2) by (simp add: table_ids_def)
  moreover have "int32 ?k" by (simp add: row_id_def atoi_def)
  ultimately obtain n where "bptree_search (ts_index t) ?k = Some (True, int n)" using table_index_scan[OF assms(1)] by blast
  then show ?thesis using pk by (simp add: probe_index_def arr_get_def row_id_def)
qed

lemma probe_row_in_table:
  assumes "rows (ts_rowset t) \<noteq> []" "0 \<le> i" "i * int (length (rows (ts_rowset t))) < 2 ^ 63"
  obtains row where "probe_row t i = Some row" "row \<in> set (rows (ts_rowset t))"
proof -
  let ?n = "int (length (rows (ts_rowset t)))"
  let ?s = "if ?n > 1 then ?n - 1 else 1"
  have n: "0 < ?n" using assms(1) by simp
  have "?s \<le> ?n" by (rule if_splits(1)[THEN iffD2]) (use n in linarith)
  then have "i * ?s \<le> i * ?n" using assms(2) by (rule mult_left_mono)
  then have "i * ?s < 2 ^ 63" using assms(3) by simp
  moreover have "nat (i * ?s mod ?n) < length (rows (ts_rowset t))" using n by (simp add: nat_less_iff)
  ultimately show thesis using that[of "rows (ts_rowset t) ! nat (i * ?s mod ?n)"] by (auto simp: probe_row_def Let_def arr_get_def)
qed

lemma probe_bound: "(i + int (Suc n)) * int k < 2 ^ 63 \<Longrightarrow> i * int k < 2 ^ 63"
proof -
  have "i * int k \<le> (i + int (Suc n)) * int k" by (intro mult_right_mono) auto
  then show "(i + int (Suc n)) * int k < 2 ^ 63 \<Longrightarrow> i * int k < 2 ^ 63" by linarith
qed

text \<open>
  On a well-formed table whose rows have a second column every probe of the benchmark hits, by the index and
  by the scan, as long as the counters can count them.
\<close>

lemma index_loop_hits:
  assumes "table_ok t" "rows (ts_rowset t) \<noteq> []" "0 \<le> i" "(i + int n) * int (length (rows (ts_rowset t))) < 2 ^ 63" "hits + int n \<le> INT_MAX"
  shows "index_loop t n i hits = Some (hits + int n)"
  using assms(3-5)
proof (induction n arbitrary: i hits)
  case (Suc n)
  obtain row where "probe_row t i = Some row" "row \<in> set (rows (ts_rowset t))"
    using probe_row_in_table[OF assms(2) Suc.prems(1) probe_bound[OF Suc.prems(2)]] by blast
  then show ?case using Suc.IH[of "i + 1" "hits + 1"] Suc.prems probe_index_hits[OF assms(1)] by (simp add: up_to_def ac_simps)
qed simp

lemma linear_loop_hits:
  assumes "\<forall>r\<in>set (rows (ts_rowset t)). 2 \<le> length (row_fields r)" "rows (ts_rowset t) \<noteq> []" "0 \<le> i"
    and "(i + int n) * int (length (rows (ts_rowset t))) < 2 ^ 63" "hits + int n \<le> INT_MAX"
    and "steps + int n * int (length (rows (ts_rowset t))) < 2 ^ 63"
  shows "\<exists>steps' most'. linear_loop t n i hits steps most = Some (hits + int n, steps', most')"
  using assms(3-6)
proof (induction n arbitrary: i hits steps most)
  case (Suc n)
  let ?k = "length (rows (ts_rowset t))"
  obtain row where row: "probe_row t i = Some row" "row \<in> set (rows (ts_rowset t))"
    using probe_row_in_table[OF assms(2) Suc.prems(1) probe_bound[OF Suc.prems(2)]] by blast
  then obtain j where j: "j < ?k" "linear_scan (rows (ts_rowset t)) (row_fields row ! 1) 0 = Some (Some j)"
    using linear_scan_finds[OF assms(1) row(2), of 0] by auto
  have "steps + int j + 1 + int n * int ?k < 2 ^ 63" using j(1) Suc.prems(4) by (simp add: algebra_simps)
  moreover have "0 \<le> int n * int ?k" by simp
  ultimately have "steps + int j + 1 \<le> 2 ^ 63 - 1" "steps + int j + 1 + int n * int ?k < 2 ^ 63" by linarith+
  moreover have "arr_get (row_fields row) 1 = Some (row_fields row ! 1)" using row(2) assms(1) by (auto simp: arr_get_def)
  ultimately show ?case
    using Suc.IH[of "i + 1" "hits + 1" "steps + int j + 1" "max most (int j + 1)"] Suc.prems row(1) j(2) by (simp add: up_to_def ac_simps)
qed simp

lemma warm_loop_returns:
  assumes "table_ok t" "\<forall>r\<in>set (rows (ts_rowset t)). 2 \<le> length (row_fields r)" "rows (ts_rowset t) \<noteq> []" "0 \<le> i"
    and "(i + int n) * int (length (rows (ts_rowset t))) < 2 ^ 63"
  shows "warm_loop t n i = Some ()"
  using assms(4,5)
proof (induction n arbitrary: i)
  case (Suc n)
  obtain row where row: "probe_row t i = Some row" "row \<in> set (rows (ts_rowset t))"
    using probe_row_in_table[OF assms(3) Suc.prems(1) probe_bound[OF Suc.prems(2)]] by blast
  moreover have "arr_get (row_fields row) 1 = Some (row_fields row ! 1)" using row(2) assms(2) by (auto simp: arr_get_def)
  moreover obtain j where "linear_scan (rows (ts_rowset t)) (row_fields row ! 1) 0 = Some (Some j)"
    using linear_scan_finds[OF assms(2) row(2), of 0] by auto
  ultimately show ?case using Suc.IH[of "i + 1"] Suc.prems probe_index_hits[OF assms(1)] by (simp add: ac_simps)
qed simp

lemma benchmark_reports_hits:
  assumes "db_context_get_table al fs ctx (Some ''users'') = Some (ctx', Inr i)" "t = ctx_tables ctx' ! i" "table_ok t"
    and "rows (ts_rowset t) \<noteq> []" "2 \<le> column_count (ts_schema t)"
    and "0 < iterations" "iterations \<le> INT_MAX" "iterations * int (length (rows (ts_rowset t))) < 2 ^ 63"
  shows "\<exists>most. run_benchmark texts al fs ctx iterations out =
    Some (ctx', out @ bench_report texts (int (length (rows (ts_rowset t)))) iterations iterations iterations
      (to_int32 (min iterations (int (length (rows (ts_rowset t)))))) most, Inr ())"
proof -
  let ?k = "int (length (rows (ts_rowset t)))"
  have wide: "\<forall>r\<in>set (rows (ts_rowset t)). 2 \<le> length (row_fields r)"
    using assms(3,5) by (auto simp: table_ok_def row_valid_def dest!: bspec list_all2_lengthD)
  have "min iterations ?k * ?k \<le> iterations * ?k" by (intro mult_right_mono) auto
  then have "min iterations ?k * ?k < 2 ^ 63" using assms(8) by linarith
  then have "warm_loop t (nat (min iterations ?k)) 0 = Some ()" using assms(6) by (intro warm_loop_returns[OF assms(3) wide assms(4)]) auto
  moreover have "index_loop t (nat iterations) 0 0 = Some iterations" using index_loop_hits[OF assms(3,4), of 0 "nat iterations" 0] assms(6-8) by simp
  moreover obtain steps most where "linear_loop t (nat iterations) 0 0 0 0 = Some (iterations, steps, most)"
    using linear_loop_hits[OF wide assms(4), of 0 "nat iterations" 0 0 0] assms(6-8) by auto
  ultimately show ?thesis using assms(1,2,4) by (intro exI[of _ most]) (simp add: run_benchmark_def Let_def)
qed

end
