(* ===== verification/Spec2Isabelle.thy ===== *)
theory Spec2Isabelle
  imports Serving Cli
begin

text \<open>
  Verification of minisql, a small SQL database in C with a command line program and an HTTP server.

  \<^bold>\<open>The program.\<close> A table is a schema file and a CSV file under a database directory. The table context
  loads both files into memory on first use and indexes the primary key with a B+ tree. The parser turns
  the text of a statement (\<open>SELECT * FROM t [WHERE c = v]\<close> or \<open>INSERT INTO t VALUES (v, ...)\<close>) into a query;
  the executor runs it against the tables in memory, and an INSERT appends the row to the CSV file, then to
  memory, then to the index. The command line program runs a statement, a script or a benchmark. The server
  has one thread that accepts connections, reads a whole request and submits a job to a thread pool; a
  worker parses the HTTP request, classifies its statement as a read or a write, runs it under the read or
  the write side of a spinning lock, and sends the result as JSON.

  \<^bold>\<open>Theories and sources\<close> (the paths are those under \<^verbatim>\<open>src/\<close>).

  \<^item> \<open>Prelude\<close>: characters, numbers and arrays of C, and the shared lemmas. \<open>Common\<close>: \<^verbatim>\<open>src/common.c\<close>, the
    error object, the file system record, the JSON string literal.
  \<^item> \<open>Schema\<close>: \<^verbatim>\<open>src/storage/schema.c\<close>. \<open>Storage\<close>: \<^verbatim>\<open>src/storage/storage.c\<close>. \<open>Sql_Parser\<close>:
    \<^verbatim>\<open>src/query/parser.c\<close> and \<^verbatim>\<open>src/query/tokenizer.c\<close>.
  \<^item> \<open>Bptree\<close>: \<^verbatim>\<open>src/index/bptree.c\<close> on a pool of node cells; \<open>Bptree_Tree\<close>, \<open>Bptree_Refine\<close>,
    \<open>Bptree_Insert\<close>: the abstract trees the cells represent and the proof that each function implements its
    abstract counterpart; \<open>Bptree_Index\<close>: the whole index and the interfaces \<open>ordered_index\<close> and
    \<open>guarded_index\<close> through which the rest of the development uses it.
  \<^item> \<open>Db_Context\<close>: \<^verbatim>\<open>src/index/db_context.c\<close>. \<open>Executor\<close>: \<^verbatim>\<open>src/query/executor.c\<close>. \<open>Cli\<close>:
    \<^verbatim>\<open>src/runtime/cli.c\<close> and \<^verbatim>\<open>src/runtime/main.c\<close>.
  \<^item> \<open>Json_Buffer\<close> and \<open>Sql_Service\<close>: \<^verbatim>\<open>src/server/request/sql_service.c\<close>. \<open>Http_Protocol\<close>:
    \<^verbatim>\<open>src/server/request/http_protocol.c\<close>. \<open>Request_Handler\<close>: \<^verbatim>\<open>src/server/request/request_handler.c\<close>.
  \<^item> \<open>Db_Guard\<close>: \<^verbatim>\<open>src/server/concurrency/db_guard.c\<close>. \<open>Job_Queue\<close>, \<open>Thread_Pool\<close>, \<open>Server_Job\<close>:
    \<^verbatim>\<open>src/server/pool/job_queue.c\<close>, \<^verbatim>\<open>thread_pool.c\<close> and \<^verbatim>\<open>server_job_stub.c\<close>.
  \<^item> \<open>Socket_Io\<close> and \<open>Socket_Server\<close>: \<^verbatim>\<open>src/server/api/socket_server.c\<close>. \<open>Server_Config\<close>, \<open>Server_Main\<close>:
    \<^verbatim>\<open>server_config.c\<close>, \<^verbatim>\<open>server_main.c\<close> and \<^verbatim>\<open>server_runtime_main.c\<close> of the same directory.
  \<^item> \<open>Serving\<close> puts together the calls that take one request from socket to socket; this theory holds
    the property of the whole path.

  \<^bold>\<open>How the code is rendered.\<close> A struct is a record and an enum a datatype with the names of the sources. A C
  function is a definition of the same name; a loop is a recursive definition of its own. A function that
  returns 0 or NULL with an error set returns \<open>Inl\<close> of the error; an argument that may be NULL is an
  \<open>option\<close>, and the NULL checks of the sources are branches. An outer \<open>option\<close> is undefined behaviour or,
  where the theory says so, a call that waits: an index outside an array, a freed or missing node, freed
  text, the overflow of a signed sum. State that a function changes is returned by it. The outside is a
  parameter: the files and the failures of stdio (\<open>filesystem\<close>), the allocations (\<open>allocator\<close>, \<open>heap\<close> and
  flags of the records named \<open>world\<close>), what the kernel answers to socket calls (\<open>client_io\<close>, \<open>listen_io\<close>),
  \<open>pthread_create\<close>, and what \<open>printf\<close> makes of the measured times of the benchmark.

  Threads are step relations. In \<open>Thread_Pool\<close> and \<open>Server_Main\<close> a step is the work of one thread between two
  points where another can be seen, and the mutex of the queue makes its calls atomic. In \<open>Db_Guard\<close> a
  step is one access, and the memory orders of the sources are modelled: values of an atomic object in
  modification order, and for every thread a view that says which of them it may still read. Whether a
  read-modify-write is also a full fence, as the locked instructions of x86 are, is a parameter.

  \<^bold>\<open>What is shown.\<close>

  \<^item> B+ tree: insertion on every branch, lookup, enumeration in key order and destruction of every well-formed
    tree, without invalid accesses and with termination. The functions with unbounded recursion or loops are
    \<open>partial_function\<close>s, and every theorem about them states that they return. A tree has at most
    \<open>2 ^ 32\<close> keys and so a bounded height; \<open>insertion_cost\<close>, 7 nodes, is enough for one insertion.
  \<^item> Files: a printed schema loads as that schema; a row that is appended is read back; appending changes
    nothing else, whatever write fails.
  \<^item> Statements: printed queries parse to themselves; what is accepted is well formed, what is rejected
    leaves nothing behind. The classification of the server agrees with the parser.
  \<^item> Tables and executor: the invariant \<open>table_ok\<close> is established by loading and kept by every operation;
    queries have no undefined behaviour under the conditions of \<open>ready\<close>; a SELECT through the index prints
    what a scan would print; a refused INSERT changes nothing; an acknowledged INSERT is found by its id and
    survives a restart; assigned ids are new.
  \<^item> The conditions of \<open>ready\<close> and \<open>acceptable\<close> exclude three defects of the code, each shown by a theorem: a
    schema line without a separator is reported from freed text; a repeated \<open>columns\<close> line leaves a primary
    key index outside the rows; and the successor of the id \<open>INT_MAX\<close> overflows.
  \<^item> JSON and HTTP: quoting round-trips, the growing buffer never writes outside its memory, and the service
    answers a SELECT with exactly the selected rows and an INSERT with what the executor did.
  \<^item> Guard: writers exclude one another with the memory orders of the sources. Readers and writers exclude one
    another, and the guard refines an abstract reader/writer lock, on platforms with full-fence
    read-modify-writes; without them \<open>Db_Guard\<close> has an execution with a reader and a writer inside. No
    update is lost when the work under the read lock leaves the data alone, and no state is a deadlock.
  \<^item> Queue and pool: the ring buffer refines a bounded list (interface \<open>bounded_queue\<close>); every job is run at
    most once and cleaned up exactly once; stopping terminates.
  \<^item> Server: a request is framed correctly however it is cut into pieces; every accepted connection is closed
    exactly once; a request changes files and rows only under the write lock; and what one client inserts
    another selects, from socket to socket.

  \<^bold>\<open>Not modelled.\<close> Functions that only call \<open>free\<close> (\<open>db_guard_destroy\<close>, \<open>request_handler_destroy\<close>, \<open>free_fields\<close>
  and the copy of \<open>free_query\<close> in \<^verbatim>\<open>sql_service.c\<close>), the Windows-only \<open>ensure_stdout_binary_mode\<close>, prototypes,
  scripts, tests and data. Copies of strings (\<open>sql_strdup\<close>) and the arrays of values, columns, and rows read
  from a file are taken to be allocated; the failures of the other allocations are parameters. The NULL
  checks of the guard are not part of the steps of its threads. The clock and the formatting of \<open>double\<close>s
  are parameters of the benchmark.
\<close>

section \<open>From socket to socket\<close>

text \<open>
  C1. What one client inserts another reads: a POST whose body is an INSERT the table takes (with an id other
  than \<open>INT_MAX\<close>, behind which there is no next id), followed by a POST that selects the id of the new
  row, both cut into pieces in any way and answered in pieces of any size, when memory and files hold out. The first client receives status 200 and the insertion object; the
  second receives status 200 and a JSON object with exactly the inserted row, framed so that the
  \<open>Content-Length\<close> of the answer delimits it.
\<close>

theorem served_insert_then_select:
  assumes "server_ready d" "0 \<le> fd" "0 \<le> fd'" "memory_granted world" "al = world_allocator (for_service world)"
    and "sql_service h = Some s" "db_guard h \<noteq> None" "db_context s = Some ctx"
    and "ready fs ctx n" "length n \<le> 255" "db_context_get_table al fs ctx (Some n) = Some (ctx1, Inr i)" "t = ctx_tables ctx1 ! i"
    and "parse_sql_text (Some sql) (Some zeroed_query) = (Some q, Inr ())" "query_type q = QUERY_INSERT" "table_name q = Some n"
    and "acceptable q t" "granted al" "insertion_cost \<le> tree_room (ts_index t)" "writable fs (build_table_path (ctx_db_root ctx) n)"
    and "parse_sql_text (Some sql') (Some zeroed_query) = (Some (select_query n (Some (''id'', v))), Inr ())"
    and "is_integer_string v" "atoi v = row_id (ts_schema t) \<lparr>row_fields = insert_row q t\<rparr>"
    and "post_ok path headers sql" "client_sends client (post_text path headers sql)"
    and "post_ok path' headers' sql'" "client_sends client' (post_text path' headers' sql')"
    and "inserted = cstr (insert_json n)" "selected = cstr (select_json n (ts_schema t) [\<lparr>row_fields = insert_row q t\<rparr>])"
    and "text_fits (length (insert_json n))" "text_fits (length (select_json n (ts_schema t) [\<lparr>row_fields = insert_row q t\<rparr>]))"
    and "delivers (outgoing client) (length (json_answer 200 inserted))" "delivers (outgoing client') (length (json_answer 200 selected))"
  shows "\<exists>h' h'' fs'. serve_request world d fs h fd client = Some (Some h', fs', json_answer 200 inserted) \<and>
    serve_request world d fs' h' fd' client' = Some (Some h'', fs', json_answer 200 selected) \<and>
    (\<exists>hl. find_body_start (json_answer 200 selected) = Some hl \<and>
       server_parse_content_length (json_answer 200 selected) hl = Inr (length selected) \<and> drop hl (json_answer 200 selected) = selected)"
proof -
  let ?w = "for_service world" and ?q = "select_query n (Some (''id'', v))"
  have mem: "heap_ok (world_heap ?w)" "heap_total (world_heap ?w)" "copy_granted ?w" "tmpfile_ok ?w" "stream_fault_at ?w = None"
    using assms(4) by (simp_all add: memory_granted_def)
  have cs: "cstring sql" "cstring sql'" using assms(23,25) by (simp_all add: post_ok_def)
  have fit: "length inserted < 10 ^ 20" "length selected < 10 ^ 20" "length selected < 2 ^ 64" "cstring inserted" "cstring selected"
    using assms(27,28) text_fits_cstr[OF assms(29)] text_fits_cstr[OF assms(30)] by simp_all
  obtain fs' t' ctx' where run: "execute_query al fs (Some q) (Some ctx) (Some []) = Some (Some ctx', fs', Some ([] @ ''INSERT 1'' @ [NEWLINE]), Inr ())"
    and t': "ctx' = ctx1\<lparr>ctx_tables := (ctx_tables ctx1)[i := t']\<rparr>" "row_added t (insert_row q t) t'" "i < length (ctx_tables ctx1)"
    and nxt: "ready fs' ctx' n" "db_context_get_table al fs' ctx' (Some n) = Some (ctx', Inr i)"
    and sel: "selected_rows ?q t' = [\<lparr>row_fields = insert_row q t\<rparr>]" "condition_error ?q (ts_schema t') = None"
    using insert_then_lookup[OF assms(9,14,15,10-12,16-19,21,22)] by metis
  let ?s = "s\<lparr>db_context := Some ctx'\<rparr>" and ?h = "h\<lparr>sql_service := Some (s\<lparr>db_context := Some ctx'\<rparr>)\<rparr>"
  obtain r e where r: "sql_service_execute ?w fs (Some s) (Some sql) = Some (Some ?s, fs', r, e)" "ok r" "payload r = Some inserted"
    using insert_answer[OF assms(8,13,14,15) mem(1,4), of fs ctx'] run mem assms(5,27,29) by force
  have one: "serve_request world d fs h fd client = Some (Some ?h, fs', json_answer 200 inserted)"
    using served[OF assms(23,24,1,2,4) _ _ assms(6,7) r(1,3) fit(4,1)] classify_parsed[OF assms(13) cs(1)] assms(14,31) r(2) by simp
  have q: "query_type ?q = QUERY_SELECT" "table_name ?q = Some n" by (simp_all add: select_query_def zeroed_query_def)
  have tab: "t' = ctx_tables ctx' ! i" "ts_schema t' = ts_schema t" using t' by (simp_all add: row_added_def)
  obtain r' e' where r': "sql_service_execute ?w fs' (Some ?s) (Some sql') = Some (Some (?s\<lparr>db_context := Some ctx'\<rparr>), fs', r', e')" "ok r'"
      "payload r' = Some selected"
    using select_answer[OF nxt(1) _ assms(20) cs(2) q mem(1) nxt(2)[unfolded assms(5)] tab(1), of ?s] mem(2,3) sel assms(28,30) tab(2) by auto
  have two: "serve_request world d fs' ?h fd' client' = Some (Some (?h\<lparr>sql_service := Some (?s\<lparr>db_context := Some ctx'\<rparr>)\<rparr>), fs', json_answer 200 selected)"
    using served[OF assms(25,26,1,3,4) _ _ _ _ r'(1,3) fit(5,2), of _ _ ?h] classify_parsed[OF assms(20) cs(2)] q(1) assms(7,32) r'(2) by simp
  show ?thesis using one two json_answer_framed[OF _ fit(3), of 200] by blast
qed

theorem served_insert_then_select_witness:
  \<open>\<exists>d t h' h'' fs' client client'. sample_table_facts t \<and>
     client_sends client (post_text ''/query'' [''Content-Length: 32''] ''INSERT INTO users VALUES ('Bob')'') \<and>
     client_sends client' (post_text ''/query'' [''Content-Length: 32''] ''SELECT * FROM users WHERE id = 2'') \<and>
     serve_request sample_request_world d sample_files (sample_handler (sample_context t)) 5 client =
       Some (Some h', fs', json_answer 200 ''{"ok":true,"type":"insert","table":"users","affected_rows":1,"message":"INSERT 1"}'') \<and>
     serve_request sample_request_world d fs' h' 6 client' =
       Some (Some h'', fs', json_answer 200 ''{"ok":true,"type":"select","table":"users","rows":[{"id":2,"name":"Bob"}]}'')\<close>
proof -
  let ?sql = "''INSERT INTO users VALUES ('Bob')''" and ?sql' = "''SELECT * FROM users WHERE id = 2''"
  let ?q = "insert_query ''users'' [''Bob'']" and ?r = "\<lparr>row_fields = [''2'', ''Bob'']\<rparr>"
  obtain t where t: "sample_table_facts t" using sample_table_exists by blast
  obtain d where "server_inv (server_initial d)" using sample_server inv_start by blast
  then have d: "server_ready d" by (auto simp: server_inv_def server_linked_def server_initial_def server_ready_def)
  note f = sample_insert[OF t]
  have v: "is_integer_string ''2''" "atoi ''2'' = row_id sample_schema ?r" by code_simp+
  have p: "parse_sql_text (Some ?sql) (Some zeroed_query) = (Some ?q, Inr ())" "cstring ?sql"
    "parse_sql_text (Some ?sql') (Some zeroed_query) = (Some (select_query ''users'' (Some (''id'', ''2''))), Inr ())" "cstring ?sql'"
    "show_nat (length ?sql) = ''32''" "show_nat (length ?sql') = ''32''" by code_simp+
  have json: "cstr (insert_json ''users'') = ''{\"ok\":true,\"type\":\"insert\",\"table\":\"users\",\"affected_rows\":1,\"message\":\"INSERT 1\"}''"
    "cstr (select_json ''users'' sample_schema [?r]) = ''{\"ok\":true,\"type\":\"select\",\"table\":\"users\",\"rows\":[{\"id\":2,\"name\":\"Bob\"}]}''"
    "length (insert_json ''users'') \<le> 100" "length (select_json ''users'' sample_schema [?r]) \<le> 100"
    "length (json_answer 200 (cstr (insert_json ''users''))) \<le> 1000"
    "length (json_answer 200 (cstr (select_json ''users'' sample_schema [?r]))) \<le> 1000" by code_simp+
  have fit: "text_fits (length (insert_json ''users''))" "text_fits (length (select_json ''users'' sample_schema [?r]))"
    using json(3,4) by (simp_all add: text_fits_def)
  have posts: "post_ok ''/query'' [''Content-Length: 32''] ?sql" "post_ok ''/query'' [''Content-Length: 32''] ?sql'"
    "10 < length (post_text ''/query'' [''Content-Length: 32''] ?sql)" "10 < length (post_text ''/query'' [''Content-Length: 32''] ?sql')"
    using sample_post[OF p(2)] sample_post[OF p(4)] unfolding p(5,6) by simp_all
  note sends = sample_client_sends[OF posts(3)] sample_client_sends[OF posts(4)]
  have mem: "memory_granted sample_request_world" "world_allocator (for_service sample_request_world) = sample_allocator 20"
    by (simp_all add: memory_granted_def sample_request_world_def sample_world_def)
  let ?s = "\<lparr>db_context = Some (sample_context t), service_db_root = ''db''\<rparr>"
  have h: "sql_service (sample_handler (sample_context t)) = Some ?s" "db_guard (sample_handler (sample_context t)) \<noteq> None"
    by (simp_all add: sample_handler_def)
  let ?c = "sample_client (post_text ''/query'' [''Content-Length: 32''] ?sql)" and ?c' = "sample_client (post_text ''/query'' [''Content-Length: 32''] ?sql')"
  have "\<exists>h' h'' fs'. serve_request sample_request_world d sample_files (sample_handler (sample_context t)) 5 ?c =
      Some (Some h', fs', json_answer 200 (cstr (insert_json ''users''))) \<and>
    serve_request sample_request_world d fs' h' 6 ?c' = Some (Some h'', fs', json_answer 200 (cstr (select_json ''users'' sample_schema [?r])))"
    using served_insert_then_select[OF d _ _ mem(1) mem(2)[symmetric] h _ sample_context_facts(1)[OF t] _ sample_context_facts(2)[OF t] f(8)[symmetric]
        p(1) f(5,6,2,3,4,7) p(3) v(1) _ posts(1) sends(1) posts(2) sends(2) refl refl fit(1) _ sample_client_receives[OF json(5)], of 5 6]
      v(2) fit(2) sample_client_receives[OF json(6)] unfolding f(1,9) by auto
  then show ?thesis using t sends unfolding json(1,2) by blast
qed

end
